(* ===== verification/Prelude.thy ===== *)
theory Prelude
  imports Main "HOL-Library.Word" "HOL-Library.Multiset"
begin

text \<open>
  Shared vocabulary of the development.

  \<^item> Machine integers: \<open>u8\<close>, \<open>u16\<close>, \<open>u32\<close>, \<open>u64\<close> stand for the C types
    \<^verbatim>\<open>uint8_t\<close>, \<^verbatim>\<open>uint16_t\<close>, \<^verbatim>\<open>uint32_t\<close>, \<^verbatim>\<open>uint64_t\<close>; arithmetic on them wraps.
  \<^item> \<open>tmq_str\<close> is the content of a \<^verbatim>\<open>tmq_str_t\<close> (a length-prefixed byte string that may
    contain NUL bytes); a pointer that may be NULL is an \<open>option\<close>. \<open>cstr\<close> is what the C
    string functions see of it: everything before the first NUL.
  \<^item> \<open>c_fault\<close> names the ways an execution of the C code can leave the language's defined
    behaviour or stop in an \<^verbatim>\<open>assert\<close>; \<open>'a res\<close> is a computation that may end so, and
    \<open>bind\<close> sequences two of them.
  \<^item> The \<open>named_theorems\<close> collections \<open>dict_laws\<close>, \<open>buffer_laws\<close> and \<open>codec_defs\<close> gather
    the rewrite rules that the component theories share.
\<close>

unbundle bit_operations_syntax

type_synonym u8 = "8 word"
type_synonym u16 = "16 word"
type_synonym u32 = "32 word"
type_synonym u64 = "64 word"
type_synonym bytes = "u8 list"
type_synonym tmq_str = string
type_synonym addr = nat

named_theorems dict_laws \<open>lookup laws of the dictionary implementations\<close>
named_theorems buffer_laws \<open>effect of the buffer operations on the buffered bytes\<close>
named_theorems codec_defs \<open>definitions unfolded when a packet is encoded or decoded\<close>

section \<open>Computations that may fault\<close>

datatype c_fault =
    Null_Deref
  | Out_Of_Bounds
  | Uninit_Read
  | Use_After_Free
  | Assert_Failed
  | Type_Confusion

type_synonym 'a res = "c_fault + 'a"

definition bind :: "'a res \<Rightarrow> ('a \<Rightarrow> 'b res) \<Rightarrow> 'b res" where
  "bind m f = (case m of Inl e \<Rightarrow> Inl e | Inr x \<Rightarrow> f x)"

lemma bind_simps [simp]:
  "bind (Inl e) f = Inl e"
  "bind (Inr x) f = f x"
  by (simp_all add: bind_def)

lemma bind_eq_Inr: "bind m f = Inr y \<longleftrightarrow> (\<exists>x. m = Inr x \<and> f x = Inr y)"
  by (cases m) auto

lemma bind_assoc: "bind (bind m f) g = bind m (\<lambda>x. bind (f x) g)"
  by (cases m) auto

section \<open>C strings\<close>

abbreviation NUL :: char where
  "NUL \<equiv> CHR 0x00"

definition cstr :: "tmq_str \<Rightarrow> string" where
  "cstr s = takeWhile (\<lambda>c. c \<noteq> NUL) s"

lemma cstr_no_nul [simp]: "NUL \<notin> set s \<Longrightarrow> cstr s = s"
  unfolding cstr_def by (rule takeWhile_eq_all_conv [THEN iffD2]) auto

lemma nul_notin_cstr [simp]: "NUL \<notin> set (cstr s)"
  unfolding cstr_def by (auto dest: set_takeWhileD)

lemma cstr_idem [simp]: "cstr (cstr s) = cstr s"
  by simp

definition byte_of_char :: "char \<Rightarrow> u8" where
  "byte_of_char c = of_nat (of_char c)"

definition char_of_byte :: "u8 \<Rightarrow> char" where
  "char_of_byte b = char_of (unat b)"

lemma char_of_byte_of_char [simp]: "char_of_byte (byte_of_char c) = c"
  by (simp add: char_of_byte_def byte_of_char_def unat_of_nat)

lemma byte_of_char_of_byte [simp]: "byte_of_char (char_of_byte b) = b"
proof -
  have "unat b < 256" using unsigned_less [of b] by simp
  then show ?thesis by (simp add: char_of_byte_def byte_of_char_def)
qed

abbreviation bytes_of_str :: "tmq_str \<Rightarrow> bytes" where
  "bytes_of_str s \<equiv> map byte_of_char s"

abbreviation str_of_bytes :: "bytes \<Rightarrow> tmq_str" where
  "str_of_bytes bs \<equiv> map char_of_byte bs"

lemma str_of_bytes_of_str [simp]: "str_of_bytes (bytes_of_str s) = s"
  by (induction s) simp_all

lemma char_of_byte_comp [simp]: "char_of_byte \<circ> byte_of_char = id"
  by (simp add: fun_eq_iff)

section \<open>Lists\<close>

lemma take_update_Suc:
  "n < length xs \<Longrightarrow> take (Suc n) (xs[n := x]) = take n xs @ [x]"
  by (simp add: take_Suc_conv_app_nth)

lemma take_append_le: "n \<le> length xs \<Longrightarrow> take n (xs @ ys) = take n xs"
  by simp

lemma ball_list_update: "\<forall>x\<in>set xs. P x \<Longrightarrow> P y \<Longrightarrow> \<forall>x\<in>set (xs[i := y]). P x"
  using set_update_subset_insert [of xs i y] by blast

section \<open>Words\<close>

lemma unat_pow2: "k < LENGTH('a::len) \<Longrightarrow> unat (2 ^ k :: 'a word) = 2 ^ k"
  using unat_of_nat [of "2 ^ k", where 'a = 'a] by simp

lemma unat_Suc_less: "a < b \<Longrightarrow> unat (a + 1) = Suc (unat a)" for a b :: "'a::len word"
proof -
  assume "a < b"
  then have "1 + a \<noteq> 0"
    by (metis add.commute add_diff_cancel_right' diff_0 not_less word_n1_ge)
  then show ?thesis using unatSuc [of a] by (simp add: add.commute)
qed

lemma unat_of_nat_less: "n < 2 ^ LENGTH('a::len) \<Longrightarrow> unat (of_nat n :: 'a word) = n"
  by (simp add: unat_of_nat)

end
