(* ===== verification/Str.thy ===== *)
theory Str
  imports Prelude
begin

text \<open>
  Length-prefixed strings, \<^verbatim>\<open>base/mqtt_str.c\<close>. A \<^verbatim>\<open>tmq_str_t\<close> points behind the header of a
  \<^verbatim>\<open>tmq_ds_t\<close>; here it is that object, with the bytes allocated for the text (a byte that has not been
  written is \<open>None\<close>). \<^verbatim>\<open>alloc\<close> counts the 16 bytes of the header too. The other theories use the text of
  a string only; \<open>ds_text\<close> is that text and the theorems say how the operations change it.
\<close>

definition HDR_LEN :: nat where "HDR_LEN = 16"

record tmq_ds =
  ds_len :: nat
  ds_alloc :: nat
  ds_buf :: "char option list"

definition put_mem :: "'a list \<Rightarrow> nat \<Rightarrow> 'a list \<Rightarrow> 'a list res" where
  "put_mem m i xs =
     (if i + length xs \<le> length m then Inr (take i m @ xs @ drop (i + length xs) m) else Inl Out_Of_Bounds)"

section \<open>Operations\<close>

definition tmq_str_new_len :: "tmq_str option \<Rightarrow> nat \<Rightarrow> tmq_ds" where
  "tmq_str_new_len data n =
     \<lparr>ds_len = n, ds_alloc = HDR_LEN + n + 1,
      ds_buf = (case data of None \<Rightarrow> replicate (n + 1) (Some NUL)
                | Some d \<Rightarrow> map Some (take n d) @ [Some NUL])\<rparr>"

definition tmq_str_new :: "tmq_str option \<Rightarrow> tmq_ds" where
  "tmq_str_new data = tmq_str_new_len (map_option cstr data) (case data of None \<Rightarrow> 0 | Some d \<Rightarrow> length (cstr d))"

definition tmq_str_empty :: tmq_ds where
  "tmq_str_empty = tmq_str_new_len (Some []) 0"

definition tmq_str_len :: "tmq_ds option \<Rightarrow> nat" where
  "tmq_str_len s = (case s of None \<Rightarrow> 0 | Some d \<Rightarrow> ds_len d)"

definition tmq_str_grow :: "tmq_ds \<Rightarrow> nat \<Rightarrow> tmq_ds" where
  "tmq_str_grow s n =
     (let new_alloc = 2 * n + HDR_LEN + 1
      in s\<lparr>ds_alloc := new_alloc,
           ds_buf := take (new_alloc - HDR_LEN) (ds_buf s) @ replicate (new_alloc - HDR_LEN - length (ds_buf s)) None\<rparr>)"

text \<open>The test before every write that makes a string longer.\<close>

definition room_for :: "tmq_ds \<Rightarrow> nat \<Rightarrow> tmq_ds" where
  "room_for s n = (if HDR_LEN + n + 1 > ds_alloc s then tmq_str_grow s n else s)"

definition tmq_str_append_char :: "tmq_ds \<Rightarrow> char \<Rightarrow> tmq_ds res" where
  "tmq_str_append_char s c =
     bind (put_mem (ds_buf s) (ds_len s) [Some c]) (\<lambda>m.
       let s1 = s\<lparr>ds_buf := m\<rparr>;
           new_len = ds_len s1 + 1;
           s2 = room_for s1 new_len
       in bind (put_mem (ds_buf s2) new_len [Some NUL]) (\<lambda>m. Inr (s2\<lparr>ds_buf := m, ds_len := new_len\<rparr>)))"

definition tmq_str_append_data_n :: "tmq_ds \<Rightarrow> tmq_str \<Rightarrow> nat \<Rightarrow> tmq_ds res" where
  "tmq_str_append_data_n s data n =
     (if n = 0 then Inr s
      else
        let new_len = ds_len s + n;
            s1 = room_for s new_len
        in bind (put_mem (ds_buf s1) (ds_len s1) (map Some (take n data))) (\<lambda>m.
           bind (put_mem m new_len [Some NUL]) (\<lambda>m. Inr (s1\<lparr>ds_buf := m, ds_len := new_len\<rparr>))))"

definition tmq_str_append_str :: "tmq_ds \<Rightarrow> tmq_str option \<Rightarrow> tmq_ds res" where
  "tmq_str_append_str s str =
     (case str of None \<Rightarrow> Inr s | Some d \<Rightarrow> tmq_str_append_data_n s d (length (cstr d)))"

definition tmq_str_clear :: "tmq_ds \<Rightarrow> tmq_ds res" where
  "tmq_str_clear s =
     bind (put_mem (ds_buf s) 0 (replicate (ds_len s) (Some NUL))) (\<lambda>m. Inr (s\<lparr>ds_buf := m, ds_len := 0\<rparr>))"

definition tmq_str_assign_n :: "tmq_ds option \<Rightarrow> tmq_str \<Rightarrow> nat \<Rightarrow> tmq_ds res" where
  "tmq_str_assign_n s data n =
     bind (tmq_str_clear (case s of None \<Rightarrow> tmq_str_new None | Some d \<Rightarrow> d)) (\<lambda>d. tmq_str_append_data_n d data n)"

definition tmq_str_assign :: "tmq_ds option \<Rightarrow> tmq_str option \<Rightarrow> tmq_ds res" where
  "tmq_str_assign s str =
     bind (tmq_str_clear (case s of None \<Rightarrow> tmq_str_new None | Some d \<Rightarrow> d)) (\<lambda>d. tmq_str_append_str d str)"

section \<open>The text of a string\<close>

definition ds_text :: "tmq_ds \<Rightarrow> tmq_str" where
  "ds_text s = map the (take (ds_len s) (ds_buf s))"

text \<open>The allocation holds the text, all of which has been written, and a NUL behind it.\<close>

definition ds_ok :: "tmq_ds \<Rightarrow> bool" where
  "ds_ok s \<longleftrightarrow> length (ds_buf s) = ds_alloc s - HDR_LEN \<and> HDR_LEN + ds_len s + 1 \<le> ds_alloc s \<and>
     None \<notin> set (take (ds_len s) (ds_buf s)) \<and> ds_buf s ! ds_len s = Some NUL"

lemma ds_okI:
  assumes "ds_alloc s = HDR_LEN + length (ds_buf s)" and "ds_buf s = map Some t @ Some NUL # r" and "ds_len s = length t"
  shows "ds_ok s \<and> ds_text s = t"
  using assms by (simp add: ds_ok_def ds_text_def nth_append)

lemma ds_okE:
  assumes "ds_ok s"
  obtains r where "ds_buf s = map Some (ds_text s) @ Some NUL # r" "ds_len s = length (ds_text s)"
    "ds_alloc s = HDR_LEN + length (ds_buf s)"
proof -
  let ?n = "ds_len s"
  have l: "?n < length (ds_buf s)" "ds_alloc s = HDR_LEN + length (ds_buf s)" using assms by (auto simp: ds_ok_def)
  have "take ?n (ds_buf s) = map Some (ds_text s)"
    using assms by (auto simp: ds_ok_def ds_text_def intro!: map_idI [symmetric]) (metis option.collapse)
  moreover have "drop ?n (ds_buf s) = Some NUL # drop (Suc ?n) (ds_buf s)"
    using assms l by (metis Cons_nth_drop_Suc ds_ok_def)
  ultimately have "ds_buf s = map Some (ds_text s) @ Some NUL # drop (Suc ?n) (ds_buf s)"
    by (metis append_take_drop_id)
  moreover have "?n = length (ds_text s)" using l by (simp add: ds_text_def)
  ultimately show ?thesis using that l(2) by blast
qed

lemma put_mem_append: "put_mem m i us = Inr (take i m @ us @ drop (i + length us) m)" if "i + length us \<le> length m"
  using that by (simp add: put_mem_def)

lemma room_for:
  assumes "ds_alloc s = HDR_LEN + length (ds_buf s)"
  obtains z where "ds_buf (room_for s n) = ds_buf s @ z" "n < length (ds_buf (room_for s n))"
    "ds_alloc (room_for s n) = HDR_LEN + length (ds_buf (room_for s n))" "ds_len (room_for s n) = ds_len s"
proof (cases "HDR_LEN + n + 1 > ds_alloc s")
  case True
  then show ?thesis using assms
    by (intro that [of "replicate (2 * n + 1 - length (ds_buf s)) None"]) (auto simp: room_for_def tmq_str_grow_def Let_def)
next
  case False
  then show ?thesis using assms by (intro that [of "[]"]) (auto simp: room_for_def)
qed

lemma append_data_n_ok:
  assumes "ds_ok s" and "n \<le> length d"
  shows "\<exists>s'. tmq_str_append_data_n s d n = Inr s' \<and> ds_ok s' \<and> ds_text s' = ds_text s @ take n d"
proof (cases "n = 0")
  case True
  then show ?thesis using assms by (simp add: tmq_str_append_data_n_def)
next
  case False
  obtain r where r: "ds_buf s = map Some (ds_text s) @ Some NUL # r" "ds_len s = length (ds_text s)"
      "ds_alloc s = HDR_LEN + length (ds_buf s)" using assms(1) by (rule ds_okE)
  let ?t = "ds_text s" and ?m = "length (ds_text s) + n"
  let ?s = "room_for s ?m"
  obtain z where z: "ds_buf ?s = ds_buf s @ z" "?m < length (ds_buf ?s)"
      "ds_alloc ?s = HDR_LEN + length (ds_buf ?s)" "ds_len ?s = ds_len s" using room_for [OF r(3)] .
  define b where "b = take (length ?t) (ds_buf ?s) @ map Some (take n d) @ drop ?m (ds_buf ?s)"
  define b2 where "b2 = take ?m b @ [Some NUL] @ drop (?m + 1) b"
  have b: "put_mem (ds_buf ?s) (length ?t) (map Some (take n d)) = Inr b"
    using put_mem_append [of "length ?t" "map Some (take n d)" "ds_buf ?s"] z(2) assms(2)
    by (simp add: min_absorb2 b_def)
  have lb: "length b = length (ds_buf ?s)" using z(2) assms(2) by (simp add: b_def min_absorb2)
  have b2: "put_mem b ?m [Some NUL] = Inr b2"
    using put_mem_append [of ?m "[Some NUL]" b] z(2) lb by (simp add: b2_def)
  have "take (length ?t) (ds_buf ?s) = map Some ?t" using z(1) r(1) by simp
  then have t: "b2 = map Some (?t @ take n d) @ Some NUL # drop (?m + 1) b"
    using assms(2) by (simp add: b2_def) (simp add: b_def min_absorb2)
  let ?s' = "?s\<lparr>ds_buf := b2, ds_len := ?m\<rparr>"
  have "tmq_str_append_data_n s d n = Inr ?s'"
    using False b b2 z(4) r(2) by (simp add: tmq_str_append_data_n_def Let_def)
  moreover have "ds_ok ?s' \<and> ds_text ?s' = ?t @ take n d"
    by (rule ds_okI [where r = "drop (?m + 1) b"]) (use z lb t assms(2) in \<open>auto simp: b2_def min_absorb2\<close>)
  ultimately show ?thesis by blast
qed

lemma append_char_ok:
  assumes "ds_ok s"
  shows "\<exists>s'. tmq_str_append_char s c = Inr s' \<and> ds_ok s' \<and> ds_text s' = ds_text s @ [c]"
proof -
  obtain r where r: "ds_buf s = map Some (ds_text s) @ Some NUL # r" "ds_len s = length (ds_text s)"
      "ds_alloc s = HDR_LEN + length (ds_buf s)" using assms by (rule ds_okE)
  let ?t = "ds_text s"
  define b where "b = map Some (?t @ [c]) @ r"
  have b: "put_mem (ds_buf s) (ds_len s) [Some c] = Inr b" by (simp add: put_mem_def r b_def)
  let ?s1 = "s\<lparr>ds_buf := b\<rparr>" and ?m = "Suc (length ?t)"
  let ?s = "room_for ?s1 ?m"
  have "ds_alloc ?s1 = HDR_LEN + length (ds_buf ?s1)" using r by (simp add: b_def)
  then obtain z where z: "ds_buf ?s = ds_buf ?s1 @ z" "?m < length (ds_buf ?s)"
      "ds_alloc ?s = HDR_LEN + length (ds_buf ?s)" "ds_len ?s = ds_len ?s1" using room_for [of ?s1] by metis
  define b2 where "b2 = take ?m (ds_buf ?s) @ [Some NUL] @ drop (?m + 1) (ds_buf ?s)"
  have b2: "put_mem (ds_buf ?s) ?m [Some NUL] = Inr b2"
    using put_mem_append [of ?m "[Some NUL]" "ds_buf ?s"] z(2) by (simp add: b2_def)
  let ?s' = "?s\<lparr>ds_buf := b2, ds_len := ?m\<rparr>"
  have lb: "length b2 = length (ds_buf ?s)" using z(2) by (simp add: b2_def)
  have t: "b2 = map Some (?t @ [c]) @ Some NUL # drop (?m + 1) (ds_buf ?s)" using z(1) by (simp add: b2_def b_def)
  have "tmq_str_append_char s c = Inr ?s'" using b b2 r(2) by (simp add: tmq_str_append_char_def Let_def)
  moreover have "ds_ok ?s' \<and> ds_text ?s' = ?t @ [c]"
    by (rule ds_okI [where r = "drop (?m + 1) (ds_buf ?s)"]) (use z(3) lb t in auto)
  ultimately show ?thesis by blast
qed

lemma clear_ok:
  assumes "ds_ok s"
  shows "\<exists>s'. tmq_str_clear s = Inr s' \<and> ds_ok s' \<and> ds_text s' = []"
proof -
  obtain r where r: "ds_buf s = map Some (ds_text s) @ Some NUL # r" "ds_len s = length (ds_text s)"
      "ds_alloc s = HDR_LEN + length (ds_buf s)" using assms by (rule ds_okE)
  obtain r' where h: "replicate (length (ds_text s)) (Some NUL) @ Some NUL # r = Some NUL # r'" by (cases "ds_text s") auto
  have lr: "length r' = length (ds_text s) + length r" using arg_cong [OF h, of length] by simp
  let ?b = "replicate (length (ds_text s)) (Some NUL) @ Some NUL # r"
  have "tmq_str_clear s = Inr (s\<lparr>ds_buf := ?b, ds_len := 0\<rparr>)"
    by (simp add: tmq_str_clear_def put_mem_def r(2)) (simp add: r(1))
  moreover have "ds_ok (s\<lparr>ds_buf := ?b, ds_len := 0\<rparr>) \<and> ds_text (s\<lparr>ds_buf := ?b, ds_len := 0\<rparr>) = []"
    by (rule ds_okI [where r = r']) (use h r lr in auto)
  ultimately show ?thesis by blast
qed

lemma new_len_ok: "n \<le> length d \<Longrightarrow> ds_ok (tmq_str_new_len (Some d) n) \<and> ds_text (tmq_str_new_len (Some d) n) = take n d"
  by (rule ds_okI [where r = "[]"]) (simp_all add: tmq_str_new_len_def min_absorb2)

lemma new_len_zero: "ds_ok (tmq_str_new_len None n) \<and> ds_text (tmq_str_new_len None n) = replicate n NUL"
  by (rule ds_okI [where r = "[]"]) (simp_all add: tmq_str_new_len_def replicate_append_same)

lemma new_ok: "ds_ok (tmq_str_new d) \<and> ds_text (tmq_str_new d) = (case d of None \<Rightarrow> [] | Some t \<Rightarrow> cstr t)"
  using new_len_ok [of 0 "[]"] new_len_zero [of 0] new_len_ok [of "length (cstr (the d))" "cstr (the d)"]
  by (cases d) (simp_all add: tmq_str_new_def)

section \<open>Reading\<close>

definition tmq_str_at :: "tmq_str \<Rightarrow> nat \<Rightarrow> char option" where
  "tmq_str_at s i = (if i \<ge> length s then None else Some (s ! i))"

definition tmq_str_equal :: "tmq_str \<Rightarrow> tmq_str \<Rightarrow> bool" where
  "tmq_str_equal s t \<longleftrightarrow> cstr s = cstr t"

definition tmq_str_startswith :: "tmq_str \<Rightarrow> tmq_str \<Rightarrow> bool" where
  "tmq_str_startswith s pre \<longleftrightarrow>
     (if length (cstr s) < length (cstr pre) then False else take (length (cstr pre)) (cstr s) = cstr pre)"

text \<open>The index \<^verbatim>\<open>tmq_str_len(s) - 1\<close> of an empty string wraps, and \<^verbatim>\<open>tmq_str_at\<close> returns -1 for it.\<close>

definition tmq_str_is_string :: "tmq_str \<Rightarrow> bool" where
  "tmq_str_is_string s \<longleftrightarrow>
     s \<noteq> [] \<and> (tmq_str_at s 0 = Some (CHR 0x27) \<and> tmq_str_at s (length s - 1) = Some (CHR 0x27) \<or>
       tmq_str_at s 0 = Some (CHR 0x22) \<and> tmq_str_at s (length s - 1) = Some (CHR 0x22))"

definition tmq_str_substr :: "tmq_str \<Rightarrow> nat \<Rightarrow> nat \<Rightarrow> tmq_str option" where
  "tmq_str_substr s start n =
     (if start \<ge> length s \<or> start + n > length s then None else Some (take n (drop start s)))"

definition tmq_str_find :: "tmq_str \<Rightarrow> char \<Rightarrow> nat option" where
  "tmq_str_find s c =
     (if c = NUL then Some (length (cstr s))
      else if c \<in> set (cstr s) then Some (length (takeWhile (\<lambda>x. x \<noteq> c) (cstr s))) else None)"

text \<open>
  \<open>tokens\<close> is the loop over \<^verbatim>\<open>strtok_r\<close>: it skips delimiters, takes the characters up to the next one and
  continues behind that.
\<close>

function tokens :: "tmq_str \<Rightarrow> tmq_str \<Rightarrow> tmq_str list" where
  "tokens delims s =
     (case dropWhile (\<lambda>c. c \<in> set delims) s of
        [] \<Rightarrow> []
      | c # r \<Rightarrow> takeWhile (\<lambda>c. c \<notin> set delims) (c # r) #
                 tokens delims (drop 1 (dropWhile (\<lambda>c. c \<notin> set delims) (c # r))))"
  by pat_completeness auto
termination
proof (relation "measure (\<lambda>(d, s). length s)")
  fix delims s c and r :: tmq_str
  assume a: "dropWhile (\<lambda>c. c \<in> set delims) s = c # r"
  then have "c \<notin> set delims" by (metis hd_dropWhile list.distinct(1) list.sel(1))
  then have "length (dropWhile (\<lambda>c. c \<notin> set delims) (c # r)) \<le> length r" by (simp add: length_dropWhile_le)
  moreover have "length (c # r) \<le> length s" using a length_dropWhile_le by metis
  ultimately show "((delims, drop 1 (dropWhile (\<lambda>c. c \<notin> set delims) (c # r))), delims, s) \<in> measure (\<lambda>(d, s). length s)"
    by simp
qed simp

declare tokens.simps [simp del]

definition tmq_str_split :: "tmq_str option \<Rightarrow> tmq_str \<Rightarrow> tmq_str list" where
  "tmq_str_split s delims = (case s of None \<Rightarrow> [] | Some t \<Rightarrow> tokens (cstr delims) (cstr t))"

definition isblank :: "char \<Rightarrow> bool" where
  "isblank c \<longleftrightarrow> c = CHR '' '' \<or> c = CHR 0x09"

definition tmq_str_trim :: "tmq_str \<Rightarrow> tmq_str" where
  "tmq_str_trim s =
     (let p = dropWhile isblank s
      in if p = [] \<or> hd p = NUL then [] else rev (dropWhile isblank (rev p)))"

section \<open>Numbers\<close>

definition digit_char :: "nat \<Rightarrow> char" where
  "digit_char d = ''0123456789ABCDEF'' ! d"

function digits :: "nat \<Rightarrow> nat \<Rightarrow> tmq_str" where
  "digits base n = (if n = 0 \<or> base < 2 then [] else digit_char (n mod base) # digits base (n div base))"
  by pat_completeness auto
termination by (relation "measure (\<lambda>(b, n). n)") auto

declare digits.simps [simp del]

text \<open>Negating the least number overflows. \<open>digits\<close> is the contents of \<^verbatim>\<open>tmp\<close>, least significant digit first.\<close>

definition tmq_str_parse_int :: "int \<Rightarrow> nat \<Rightarrow> tmq_str option res" where
  "tmq_str_parse_int v base =
     (if base < 2 \<or> base > 16 then Inr None
      else if v = - (2 ^ 63) then Inl Out_Of_Bounds
      else
        let s = nat \<bar>v\<bar>; sign = (if v < 0 then ''-'' else [])
        in if s = 0 then Inr (Some (sign @ ''0''))
           else if length (digits base s) > 100 then Inl Out_Of_Bounds
           else Inr (Some (sign @ rev (digits base s))))"

text \<open>
  \<^verbatim>\<open>strtoll(s, &p, 10)\<close>: white space, a sign, digits. The value is limited to the range of the type, and without
  digits nothing is consumed. \<^verbatim>\<open>isspace\<close> is that of the C locale.
\<close>

definition isspace :: "char \<Rightarrow> bool" where
  "isspace c \<longleftrightarrow> c \<in> set [CHR '' '', CHR 0x09, CHR 0x0A, CHR 0x0B, CHR 0x0C, CHR 0x0D]"

definition isdigit :: "char \<Rightarrow> bool" where
  "isdigit c \<longleftrightarrow> 48 \<le> (of_char c :: nat) \<and> (of_char c :: nat) \<le> 57"

definition number :: "tmq_str \<Rightarrow> nat" where
  "number ds = foldl (\<lambda>n c. 10 * n + (of_char c - 48)) 0 ds"

definition strtoll :: "tmq_str \<Rightarrow> int \<times> tmq_str" where
  "strtoll s =
     (let r = dropWhile isspace (cstr s);
          neg = (r \<noteq> [] \<and> hd r = CHR ''-'');
          r1 = (if r \<noteq> [] \<and> (hd r = CHR ''-'' \<or> hd r = CHR ''+'') then tl r else r);
          ds = takeWhile isdigit r1;
          v = (if neg then - int (number ds) else int (number ds))
      in if ds = [] then (0, cstr s)
         else (max (- (2 ^ 63)) (min (2 ^ 63 - 1) v), dropWhile isdigit r1))"

text \<open>\<^verbatim>\<open>atoi\<close> and \<^verbatim>\<open>strtoul(s, NULL, 10)\<close>, which takes a negative number modulo \<open>2 ^ 64\<close>.\<close>

definition atoi :: "tmq_str \<Rightarrow> int" where
  "atoi s = sint (of_int (fst (strtoll s)) :: 32 word)"

definition strtoul :: "tmq_str \<Rightarrow> int" where
  "strtoul s =
     (let r = dropWhile isspace (cstr s);
          neg = (r \<noteq> [] \<and> hd r = CHR ''-'');
          r1 = (if r \<noteq> [] \<and> (hd r = CHR ''-'' \<or> hd r = CHR ''+'') then tl r else r);
          v = int (number (takeWhile isdigit r1))
      in if v \<ge> 2 ^ 64 then 2 ^ 64 - 1 else if neg then (- v) mod 2 ^ 64 else v)"

definition tmq_str_to_int :: "tmq_str \<Rightarrow> int option" where
  "tmq_str_to_int s = (let (v, rest) = strtoll s in if rest \<noteq> [] then None else Some v)"

section \<open>Theorems\<close>

datatype str_op =
    Append_Char char | Append_Str "tmq_str option" | Append_Data tmq_str nat | Clear
  | Assign "tmq_str option" | Assign_N tmq_str nat

fun str_step :: "str_op \<Rightarrow> tmq_ds \<Rightarrow> tmq_ds res" where
  "str_step (Append_Char c) s = tmq_str_append_char s c"
| "str_step (Append_Str d) s = tmq_str_append_str s d"
| "str_step (Append_Data d n) s = tmq_str_append_data_n s d n"
| "str_step Clear s = tmq_str_clear s"
| "str_step (Assign d) s = tmq_str_assign (Some s) d"
| "str_step (Assign_N d n) s = tmq_str_assign_n (Some s) d n"

fun text_step :: "str_op \<Rightarrow> tmq_str \<Rightarrow> tmq_str" where
  "text_step (Append_Char c) t = t @ [c]"
| "text_step (Append_Str d) t = t @ (case d of None \<Rightarrow> [] | Some d \<Rightarrow> cstr d)"
| "text_step (Append_Data d n) t = t @ take n d"
| "text_step Clear t = []"
| "text_step (Assign d) t = (case d of None \<Rightarrow> [] | Some d \<Rightarrow> cstr d)"
| "text_step (Assign_N d n) t = take n d"

text \<open>The data passed with a length must have that many bytes.\<close>

fun str_op_ok :: "str_op \<Rightarrow> bool" where
  "str_op_ok (Append_Data d n) \<longleftrightarrow> n \<le> length d"
| "str_op_ok (Assign_N d n) \<longleftrightarrow> n \<le> length d"
| "str_op_ok _ \<longleftrightarrow> True"

fun str_run :: "str_op list \<Rightarrow> tmq_ds \<Rightarrow> tmq_ds res" where
  "str_run [] s = Inr s"
| "str_run (op # ops) s = bind (str_step op s) (str_run ops)"

lemma take_length_cstr [simp]: "take (length (cstr d)) d = cstr d"
  unfolding cstr_def by (rule takeWhile_eq_take [symmetric])

lemma length_cstr [simp]: "length (cstr d) \<le> length d"
  by (simp add: cstr_def length_takeWhile_le)

lemma append_str_ok:
  "ds_ok s \<Longrightarrow> \<exists>s'. tmq_str_append_str s d = Inr s' \<and> ds_ok s' \<and> ds_text s' = ds_text s @ (case d of None \<Rightarrow> [] | Some d \<Rightarrow> cstr d)"
  using append_data_n_ok [of s "length (cstr (the d))" "the d"] by (cases d) (auto simp: tmq_str_append_str_def)

lemma str_step_refines:
  assumes "ds_ok s" and "str_op_ok op"
  shows "\<exists>s'. str_step op s = Inr s' \<and> ds_ok s' \<and> ds_text s' = text_step op (ds_text s)"
proof -
  obtain s0 where s0: "tmq_str_clear s = Inr s0" "ds_ok s0" "ds_text s0 = []" using clear_ok [OF assms(1)] by blast
  show ?thesis
  proof (cases op)
    case (Append_Char c)
    then show ?thesis using append_char_ok [OF assms(1), of c] by simp
  next
    case (Append_Str d)
    then show ?thesis using append_str_ok [OF assms(1), of d] by simp
  next
    case (Append_Data d n)
    then show ?thesis using append_data_n_ok [OF assms(1), of n d] assms(2) by simp
  next
    case Clear
    then show ?thesis using s0 by simp
  next
    case (Assign d)
    then show ?thesis using append_str_ok [OF s0(2), of d] s0(1,3) by (simp add: tmq_str_assign_def)
  next
    case (Assign_N d n)
    then show ?thesis
      using append_data_n_ok [OF s0(2), of n d] s0(1,3) assms(2) by (simp add: tmq_str_assign_n_def)
  qed
qed

text \<open>
  C33. Every sequence of appends, clears and assignments on a new string stays inside its allocation, keeps the text
  terminated by a NUL, and has the effect on the text that the names say.
\<close>

theorem str_refines_text:
  assumes "list_all str_op_ok ops"
  shows "\<exists>s. str_run ops (tmq_str_new d) = Inr s \<and> ds_ok s \<and>
    ds_text s = fold text_step ops (case d of None \<Rightarrow> [] | Some t \<Rightarrow> cstr t)"
proof -
  have "\<exists>s'. str_run ops s = Inr s' \<and> ds_ok s' \<and> ds_text s' = fold text_step ops (ds_text s)"
    if "ds_ok s" "list_all str_op_ok ops" for s
    using that
  proof (induction ops arbitrary: s)
    case (Cons op ops)
    then obtain s1 where "str_step op s = Inr s1" "ds_ok s1" "ds_text s1 = text_step op (ds_text s)"
      using str_step_refines [of s op] by auto
    then show ?case using Cons.IH [of s1] Cons.prems(2) by simp
  qed simp
  then show ?thesis using new_ok [of d] assms by metis
qed

theorem str_refines_text_witness:
  "\<exists>s. str_run [Append_Char (CHR ''b''), Append_Data ''cdef'' 2, Assign None, Append_Str (Some ''xy'')] (tmq_str_new (Some ''a'')) = Inr s
     \<and> ds_ok s \<and> ds_text s = ''xy''"
  using str_refines_text [of "[Append_Char (CHR ''b''), Append_Data ''cdef'' 2, Assign None, Append_Str (Some ''xy'')]" "Some ''a''"]
  by simp

lemma tokens_Nil: "dropWhile (\<lambda>c. c \<in> set delims) s = [] \<Longrightarrow> tokens delims s = []"
  by (simp add: tokens.simps [of delims s] del: dropWhile_eq_Nil_conv)

lemma tokens_Cons:
  "dropWhile (\<lambda>c. c \<in> set delims) s = c # r \<Longrightarrow> tokens delims s =
     takeWhile (\<lambda>c. c \<notin> set delims) (c # r) # tokens delims (drop 1 (dropWhile (\<lambda>c. c \<notin> set delims) (c # r)))"
  unfolding tokens.simps [of delims s] by (simp only: list.case)

text \<open>
  A string as its runs: delimiters \<open>g\<close>, then runs without delimiters, each followed by a gap of delimiters that is not empty when another run follows.
\<close>

definition in_runs :: "char set \<Rightarrow> tmq_str \<Rightarrow> (tmq_str \<times> tmq_str) list \<Rightarrow> tmq_str \<Rightarrow> bool" where
  "in_runs D g ps s \<longleftrightarrow> s = g @ concat (map (\<lambda>(t, d). t @ d) ps) \<and> set g \<subseteq> D \<and>
     (\<forall>(t, d)\<in>set ps. t \<noteq> [] \<and> set t \<inter> D = {} \<and> set d \<subseteq> D) \<and> (\<forall>(t, d)\<in>set (butlast ps). d \<noteq> [])"

lemma in_runs_Cons:
  assumes "in_runs D g' ps r" and "set g \<subseteq> D" and "t \<noteq> []" "set t \<inter> D = {}" and "d \<in> D"
  shows "in_runs D g ((t, d # g') # ps) (g @ t @ d # r)"
  using assms unfolding in_runs_def by (cases "ps = []") (auto split: prod.splits)

lemma tokens_runs: "\<exists>g ps. tokens delims s = map fst ps \<and> in_runs (set delims) g ps s"
proof (induction delims s rule: tokens.induct)
  case (1 delims s)
  let ?D = "set delims" and ?g = "takeWhile (\<lambda>c. c \<in> set delims) s"
  have s: "s = ?g @ dropWhile (\<lambda>c. c \<in> ?D) s" and g: "set ?g \<subseteq> ?D" by (auto dest: set_takeWhileD)
  show ?case
  proof (cases "dropWhile (\<lambda>c. c \<in> ?D) s")
    case Nil
    then have "s = ?g" using s by (metis append_Nil2)
    then have "in_runs ?D ?g [] s" using g unfolding in_runs_def by simp
    then show ?thesis using tokens_Nil [OF Nil] by (intro exI [of _ ?g] exI [of _ "[]"]) simp
  next
    case (Cons c r)
    let ?t = "takeWhile (\<lambda>c. c \<notin> ?D) (c # r)"
    have "c \<notin> ?D" using Cons by (metis hd_dropWhile list.distinct(1) list.sel(1))
    then have t: "?t \<noteq> []" "set ?t \<inter> ?D = {}" by (simp, use set_takeWhileD in fastforce)
    have cr: "c # r = ?t @ dropWhile (\<lambda>c. c \<notin> ?D) (c # r)" by (rule takeWhile_dropWhile_id [symmetric])
    show ?thesis
    proof (cases "dropWhile (\<lambda>c. c \<notin> ?D) (c # r)")
      case rest: Nil
      have "s = ?g @ ?t" using s Cons cr rest by (metis append_Nil2)
      then have "in_runs ?D ?g [(?t, [])] s" using t g unfolding in_runs_def by simp
      moreover have "tokens delims s = [?t]" unfolding tokens_Cons [OF Cons] rest by (simp add: tokens_Nil)
      ultimately show ?thesis by (intro exI [of _ ?g] exI [of _ "[(?t, [])]"]) simp
    next
      case rest: (Cons d r')
      then have d: "d \<in> ?D" by (metis hd_dropWhile list.distinct(1) list.sel(1))
      obtain g' ps where ps: "tokens delims r' = map fst ps" "in_runs ?D g' ps r'"
        using "1.IH" [OF Cons] unfolding rest by auto
      have "s = ?g @ ?t @ d # r'" using s Cons cr rest by metis
      then have "in_runs ?D ?g ((?t, d # g') # ps) s" using in_runs_Cons [OF ps(2) g t d] by simp
      moreover have "tokens delims s = ?t # map fst ps" unfolding tokens_Cons [OF Cons] rest using ps(1) by simp
      ultimately show ?thesis by (intro exI [of _ ?g] exI [of _ "(?t, d # g') # ps"]) simp
    qed
  qed
qed

text \<open>
  C34. Splitting a string at delimiters returns the maximal runs without delimiters, in order: the string is an alternation of gaps of
  delimiters and the parts; no part is empty or contains a delimiter, and between two parts there is at least one delimiter.
\<close>

theorem str_split_correct:
  "\<exists>g ps. tmq_str_split (Some s) delims = map fst ps \<and> cstr s = g @ concat (map (\<lambda>(t, d). t @ d) ps) \<and> set g \<subseteq> set (cstr delims) \<and>
     (\<forall>(t, d)\<in>set ps. t \<noteq> [] \<and> set t \<inter> set (cstr delims) = {} \<and> set d \<subseteq> set (cstr delims)) \<and> (\<forall>(t, d)\<in>set (butlast ps). d \<noteq> [])"
  using tokens_runs [of "cstr delims" "cstr s"] unfolding in_runs_def by (simp add: tmq_str_split_def)

theorem str_split_correct_witness:
  "tmq_str_split (Some '' a b'') '' '' = [''a'', ''b''] \<and>
   (\<exists>g ps. [''a'', ''b''] = map fst ps \<and> '' a b'' = g @ concat (map (\<lambda>(t, d). t @ d) ps) \<and> set g \<subseteq> {CHR '' ''} \<and> (\<forall>(t, d)\<in>set (butlast ps). d \<noteq> []))"
proof -
  have e: "cstr '' a b'' = '' a b''" "set (cstr '' '') = {CHR '' ''}" "tmq_str_split (Some '' a b'') '' '' = [''a'', ''b'']" by code_simp+
  show ?thesis
  proof (rule conjI [OF e(3)], rule exE [OF str_split_correct [of "'' a b''" "'' ''", unfolded e]], elim exE conjE)
    fix g and ps :: "(tmq_str \<times> tmq_str) list"
    assume "[''a'', ''b''] = map fst ps" "'' a b'' = g @ concat (map (\<lambda>(t, d). t @ d) ps)" "set g \<subseteq> {CHR '' ''}" "\<forall>(t, d)\<in>set (butlast ps). d \<noteq> []"
    then show "\<exists>g ps. [''a'', ''b''] = map fst ps \<and> '' a b'' = g @ concat (map (\<lambda>(t, d). t @ d) ps) \<and> set g \<subseteq> {CHR '' ''} \<and>
        (\<forall>(t, d)\<in>set (butlast ps). d \<noteq> [])"
      by (intro exI [of _ g] exI [of _ ps] conjI)
  qed
qed

section \<open>Numbers and their text\<close>

lemma digit_char:
  assumes "d < 10"
  shows "isdigit (digit_char d)" and "of_char (digit_char d) - 48 = d"
proof -
  have "d = 0 \<or> d = 1 \<or> d = 2 \<or> d = 3 \<or> d = 4 \<or> d = 5 \<or> d = 6 \<or> d = 7 \<or> d = 8 \<or> d = 9"
    using assms by arith
  then show "isdigit (digit_char d)" "of_char (digit_char d) - 48 = d"
    by (elim disjE; simp add: digit_char_def isdigit_def)+
qed

lemma number_append: "number (xs @ [c]) = 10 * number xs + (of_char c - 48)"
  by (simp add: number_def)

lemma digits_10: "list_all isdigit (digits 10 n) \<and> number (rev (digits 10 n)) = n"
proof (induction "10 :: nat" n rule: digits.induct)
  case (1 n)
  show ?case
  proof (cases "n = 0")
    case True
    then show ?thesis by (simp add: digits.simps number_def)
  next
    case False
    then show ?thesis
      using "1" digit_char [of "n mod 10"]
      by (simp add: digits.simps [of 10 n] number_append mult.commute)
  qed
qed

lemma digits_length: "2 \<le> b \<Longrightarrow> n < 2 ^ k \<Longrightarrow> length (digits b n) \<le> k"
proof (induction k arbitrary: n)
  case 0
  then show ?case by (simp add: digits.simps)
next
  case (Suc k)
  have "n div b \<le> n div 2" using Suc.prems(1) by (simp add: div_le_mono2)
  then have "n div b < 2 ^ k" using Suc.prems(2) by simp
  then show ?case using Suc.IH Suc.prems(1) by (subst digits.simps) simp
qed

lemma not_digit_first:
  assumes "list_all isdigit ds" and "ds \<noteq> []"
  shows "\<not> isspace (hd ds)" and "hd ds \<noteq> CHR ''-''" and "hd ds \<noteq> CHR ''+''" and "NUL \<notin> set ds"
proof -
  have "isdigit (hd ds)" using assms by (cases ds) auto
  then show "\<not> isspace (hd ds)" "hd ds \<noteq> CHR ''-''" "hd ds \<noteq> CHR ''+''"
    by (auto simp: isspace_def isdigit_def)
  show "NUL \<notin> set ds" using assms(1) by (auto simp: list_all_iff isdigit_def)
qed

lemma strtoll_digits:
  assumes "list_all isdigit ds" and "ds \<noteq> []" and "int (number ds) < 2 ^ 63"
  shows "strtoll ds = (int (number ds), [])" and "strtoll (CHR ''-'' # ds) = (- int (number ds), [])"
proof -
  note f = not_digit_first [OF assms(1,2)]
  have tw: "takeWhile isdigit ds = ds" "dropWhile isdigit ds = []" using assms(1) by (simp_all add: list_all_iff)
  have dw: "dropWhile isspace ds = ds" using f(1) assms(2) by (cases ds) auto
  show "strtoll ds = (int (number ds), [])"
    using f(2,3,4) assms(2,3) by (simp add: strtoll_def Let_def dw tw)
  have c: "cstr (CHR ''-'' # ds) = CHR ''-'' # ds" by (rule cstr_no_nul) (use f(4) in auto)
  have "\<not> isspace (CHR ''-'')" by (simp add: isspace_def)
  then show "strtoll (CHR ''-'' # ds) = (- int (number ds), [])"
    using assms(2,3) by (simp add: strtoll_def Let_def c tw)
qed

text \<open>
  C35. Reading back a printed number: for every 64-bit number but the least one, \<^verbatim>\<open>tmq_str_parse_int\<close> in base 10
  succeeds within its buffer and \<^verbatim>\<open>tmq_str_to_int\<close> of the text is the number.
\<close>

theorem str_int_roundtrip:
  assumes "- (2 ^ 63) < v" and "v < 2 ^ 63"
  shows "\<exists>t. tmq_str_parse_int v 10 = Inr (Some t) \<and> tmq_str_to_int t = Some v"
proof (cases "v = 0")
  case True
  have "tmq_str_to_int ''0'' = Some 0"
    using strtoll_digits(1) [of "''0''"] by (simp add: tmq_str_to_int_def isdigit_def number_def)
  then show ?thesis using True by (simp add: tmq_str_parse_int_def)
next
  case False
  let ?n = "nat \<bar>v\<bar>"
  let ?ds = "rev (digits 10 ?n)"
  have n: "?n < 2 ^ 63" "?n \<noteq> 0" using assms False by (auto simp: nat_less_iff)
  have d: "list_all isdigit ?ds" "number ?ds = ?n" using digits_10 [of ?n] by (auto simp: list_all_iff)
  have ne: "?ds \<noteq> []" using n(2) by (simp add: digits.simps)
  have "length (digits 10 ?n) \<le> 63" by (rule digits_length) (use n in auto)
  then have p: "tmq_str_parse_int v 10 = Inr (Some ((if v < 0 then ''-'' else []) @ ?ds))"
    using assms False by (simp add: tmq_str_parse_int_def)
  have "tmq_str_to_int ((if v < 0 then ''-'' else []) @ ?ds) = Some v"
    using strtoll_digits [OF d(1) ne] assms d(2) by (cases "v < 0") (simp_all add: tmq_str_to_int_def)
  then show ?thesis using p by blast
qed

theorem str_int_roundtrip_witness:
  "\<exists>t. tmq_str_parse_int (- 1883) 10 = Inr (Some t) \<and> tmq_str_to_int t = Some (- 1883)"
  by (rule str_int_roundtrip) simp_all

end
