(* ===== verification/Dict.thy ===== *)
theory Dict
  imports Prelude
begin

text \<open>
  The dictionary interface that every component of the broker relies on (children and subscriber
  tables of the topic tree, session table, timer registry, configuration, ...), stated as the
  locale \<open>dict\<close>: what a lookup returns after an update or a removal, that iteration visits every
  key once, and that the size is the number of keys. Theory \<open>Hash_Map\<close> interprets it on the hash
  table of \<^verbatim>\<open>base/mqtt_map.c\<close>; here it is interpreted on association lists, the form in
  which the recursive structures (topic tree, access-control tree) hold their tables, since only
  the iteration order of the hash table depends on the hash function.
\<close>

locale dict =
  fixes empty :: "'m"
    and get :: "'m \<Rightarrow> 'k \<Rightarrow> 'v option"
    and put :: "'m \<Rightarrow> 'k \<Rightarrow> 'v \<Rightarrow> 'm"
    and erase :: "'m \<Rightarrow> 'k \<Rightarrow> 'm"
    and entries :: "'m \<Rightarrow> ('k \<times> 'v) list"
    and invar :: "'m \<Rightarrow> bool"
  assumes invar_empty: "invar empty"
    and invar_put: "invar m \<Longrightarrow> invar (put m k v)"
    and invar_erase: "invar m \<Longrightarrow> invar (erase m k)"
    and get_empty: "get empty k = None"
    and get_put: "invar m \<Longrightarrow> get (put m k v) k' = (if k' = k then Some v else get m k')"
    and get_erase: "invar m \<Longrightarrow> get (erase m k) k' = (if k' = k then None else get m k')"
    and entries_get: "invar m \<Longrightarrow> map_of (entries m) = get m"
    and entries_distinct: "invar m \<Longrightarrow> distinct (map fst (entries m))"
begin

lemma put_put: "invar m \<Longrightarrow> get (put (put m k v) k w) = get (put m k w)"
  by (rule ext) (simp add: get_put invar_put)

lemma erase_put: "invar m \<Longrightarrow> get m k = None \<Longrightarrow> get (erase (put m k v) k) = get m"
  by (rule ext) (simp add: get_put get_erase invar_put)

lemma put_commute:
  "invar m \<Longrightarrow> k \<noteq> k' \<Longrightarrow> get (put (put m k v) k' v') = get (put (put m k' v') k v)"
  by (rule ext) (simp add: get_put invar_put)

lemma in_entries_iff: "invar m \<Longrightarrow> (k, v) \<in> set (entries m) \<longleftrightarrow> get m k = Some v"
  using entries_get entries_distinct by (metis map_of_eq_Some_iff)

lemma set_entries_put:
  "invar m \<Longrightarrow>
   set (entries (put m k v)) = insert (k, v) {(k', v') \<in> set (entries m). k' \<noteq> k}"
  by (auto simp: in_entries_iff invar_put get_put split: if_splits)

lemma set_entries_erase:
  "invar m \<Longrightarrow> set (entries (erase m k)) = {(k', v') \<in> set (entries m). k' \<noteq> k}"
  by (auto simp: in_entries_iff invar_erase get_erase split: if_splits)

lemma length_entries: "invar m \<Longrightarrow> length (entries m) = card (dom (get m))"
  by (metis distinct_card dom_map_of_conv_image_fst entries_distinct entries_get length_map
      list.set_map)

lemma card_put:
  assumes "invar m"
  shows "length (entries (put m k v)) =
     (if get m k = None then Suc (length (entries m)) else length (entries m))"
proof -
  have d: "dom (get (put m k v)) = insert k (dom (get m))"
    using assms by (auto simp: get_put dom_def split: if_splits)
  have f: "finite (dom (get m))"
    using assms entries_get [of m] by (metis finite_dom_map_of)
  show ?thesis
    using assms d f by (auto simp: length_entries invar_put insert_absorb domIff)
qed

lemma card_erase:
  assumes "invar m"
  shows "length (entries (erase m k)) =
     (if get m k = None then length (entries m) else length (entries m) - 1)"
proof -
  have d: "dom (get (erase m k)) = dom (get m) - {k}"
    using assms by (auto simp: get_erase dom_def split: if_splits)
  have f: "finite (dom (get m))"
    using assms entries_get [of m] by (metis finite_dom_map_of)
  show ?thesis
    using assms d f by (auto simp: length_entries invar_erase domIff card_Diff_singleton_if)
qed

lemma entries_Nil_iff: "invar m \<Longrightarrow> entries m = [] \<longleftrightarrow> (\<forall>k. get m k = None)"
  by (metis entries_get in_entries_iff list.set_intros(1) map_of.simps(1) neq_Nil_conv
      option.distinct(1) surj_pair)

end

section \<open>Association lists\<close>

type_synonym ('k, 'v) alist = "('k \<times> 'v) list"

fun al_put :: "('k, 'v) alist \<Rightarrow> 'k \<Rightarrow> 'v \<Rightarrow> ('k, 'v) alist" where
  "al_put [] k v = [(k, v)]"
| "al_put ((k', v') # xs) k v =
     (if k' = k then (k, v) # xs else (k', v') # al_put xs k v)"

definition al_erase :: "('k, 'v) alist \<Rightarrow> 'k \<Rightarrow> ('k, 'v) alist" where
  "al_erase xs k = filter (\<lambda>(k', v'). k' \<noteq> k) xs"

definition al_ok :: "('k, 'v) alist \<Rightarrow> bool" where
  "al_ok xs \<longleftrightarrow> distinct (map fst xs)"

lemma map_of_al_put [dict_laws]:
  "map_of (al_put xs k v) k' = (if k' = k then Some v else map_of xs k')"
  by (induction xs) auto

lemma fst_set_al_put: "fst ` set (al_put xs k v) = insert k (fst ` set xs)"
  by (induction xs k v rule: al_put.induct) (simp_all add: insert_commute)

lemma map_of_al_erase [dict_laws]:
  "map_of (al_erase xs k) k' = (if k' = k then None else map_of xs k')"
  by (induction xs) (auto simp: al_erase_def)

lemma al_ok_put [dict_laws]: "al_ok xs \<Longrightarrow> al_ok (al_put xs k v)"
  by (induction xs) (auto simp: al_ok_def fst_set_al_put)

lemma al_ok_erase [dict_laws]: "al_ok xs \<Longrightarrow> al_ok (al_erase xs k)"
  by (simp add: al_ok_def al_erase_def distinct_map_filter)

lemma al_ok_Nil [dict_laws, simp]: "al_ok []"
  by (simp add: al_ok_def)

interpretation al: dict "[]" map_of al_put al_erase "\<lambda>xs. xs" al_ok
  by unfold_locales (auto simp: dict_laws al_ok_def [symmetric])

lemma set_al_put: "set (al_put xs k v) \<subseteq> insert (k, v) (set xs)"
  by (induction xs k v rule: al_put.induct) auto

lemma set_al_erase: "set (al_erase xs k) \<subseteq> set xs"
  by (auto simp: al_erase_def)

section \<open>Plugins\<close>

text \<open>A loaded plugin: its adaptor and its parameters.\<close>

record plugin_handle =
  plugin_adaptor :: nat
  adaptor_parameters :: "tmq_str list"

end
