(* ===== verification/Rule_Expr.thy ===== *)
theory Rule_Expr
  imports Str Dict
begin

text \<open>
  Events and filter expressions of the rule engine, \<^verbatim>\<open>rule_engine/mqtt_event_source.c\<close> and
  \<^verbatim>\<open>rule_engine/mqtt_events.c\<close>. A rule refers to members of an event structure by name; the names are
  registered with the type, the size and the offset of the member, and an expression reads the member at that
  offset. An event structure is therefore modelled by its members at their offsets (those of a 64-bit
  target), and reading a member as another type is the fault \<open>Type_Confusion\<close>.
\<close>

section \<open>Event sources\<close>

datatype event_type = DEVICE | TOPIC | MESSAGE | SUBSCRIPTION

datatype expr_value_type = STR_VALUE | INT_VALUE | BOOL_VALUE | JSON_VALUE | NULL_VALUE

record field_meta =
  field_name :: tmq_str
  meta_type :: expr_value_type
  value_size :: nat
  field_offset :: nat

record event_source_info =
  source :: event_type
  source_name :: tmq_str
  fields_meta :: "(tmq_str, field_meta) alist"

type_synonym event_sources = "(tmq_str, event_source_info) alist"

definition get_field_descriptor :: "tmq_str \<Rightarrow> expr_value_type \<Rightarrow> nat \<Rightarrow> nat \<Rightarrow> field_meta" where
  "get_field_descriptor name ty sz off =
     \<lparr>field_name = name, meta_type = ty, value_size = sz, field_offset = off\<rparr>"

definition register_event_source :: "event_type \<Rightarrow> tmq_str \<Rightarrow> field_meta list \<Rightarrow> event_sources \<Rightarrow> event_sources" where
  "register_event_source ty name metas srcs =
     (let info = (case map_of srcs name of Some i \<Rightarrow> i | None \<Rightarrow> \<lparr>source = ty, source_name = name, fields_meta = []\<rparr>);
          fields = fold (\<lambda>m f. al_put f (field_name m) m) metas (fields_meta info)
      in al_put srcs name (info\<lparr>fields_meta := fields\<rparr>))"

text \<open>The source \<^verbatim>\<open>topic\<close> is registered with the event type of devices.\<close>

definition tmq_event_sources_init :: event_sources where
  "tmq_event_sources_init =
     register_event_source MESSAGE ''message''
       [get_field_descriptor ''client_id'' STR_VALUE 8 0, get_field_descriptor ''username'' STR_VALUE 8 8,
        get_field_descriptor ''qos'' INT_VALUE 1 16, get_field_descriptor ''retain'' INT_VALUE 4 20,
        get_field_descriptor ''payload'' JSON_VALUE 8 24]
     (register_event_source SUBSCRIPTION ''subscription''
       [get_field_descriptor ''action'' INT_VALUE 4 0, get_field_descriptor ''client_id'' STR_VALUE 8 8,
        get_field_descriptor ''username'' STR_VALUE 8 16, get_field_descriptor ''topic'' STR_VALUE 8 24,
        get_field_descriptor ''sub_qos'' INT_VALUE 1 32]
     (register_event_source DEVICE ''topic''
       [get_field_descriptor ''action'' INT_VALUE 4 0, get_field_descriptor ''topic'' STR_VALUE 8 8]
     (register_event_source DEVICE ''device''
       [get_field_descriptor ''action'' INT_VALUE 4 0, get_field_descriptor ''client_id'' STR_VALUE 8 8,
        get_field_descriptor ''username'' STR_VALUE 8 16] [])))"

section \<open>Event data\<close>

text \<open>
  The item that \<^verbatim>\<open>cJSON_GetObjectItemCaseSensitive\<close> finds is the first one with that name; there is none in a
  NULL object. A number is given by its integral part; \<open>JOther\<close> is an array or an object.
\<close>

datatype json_item = JString tmq_str | JNumber int | JBool bool | JNull | JOther

type_synonym json = "(tmq_str, json_item) alist"

datatype event_data =
    Device_Data (action: nat) (dev_client_id: "tmq_str option") (dev_username: "tmq_str option")
  | Topic_Data (action: nat) (top_topic: "tmq_str option")
  | Subscription_Data (action: nat) (sub_client_id: "tmq_str option") (sub_username: "tmq_str option")
      (sub_topic: "tmq_str option") (sub_qos_of: u8)
  | Pub_Data (pub_client_id: "tmq_str option") (pub_username: "tmq_str option") (pub_qos: u8) (pub_retain: int)
      (pub_json: "json option")

datatype cell = Scalar nat int | Str_Ptr "tmq_str option" | Json_Ptr "json option"

fun event_cells :: "event_data \<Rightarrow> (nat, cell) alist" where
  "event_cells (Device_Data a c u) = [(0, Scalar 4 (int a)), (8, Str_Ptr c), (16, Str_Ptr u)]"
| "event_cells (Topic_Data a t) = [(0, Scalar 4 (int a)), (8, Str_Ptr t)]"
| "event_cells (Subscription_Data a c u t q) =
     [(0, Scalar 4 (int a)), (8, Str_Ptr c), (16, Str_Ptr u), (24, Str_Ptr t), (32, Scalar 1 (uint q))]"
| "event_cells (Pub_Data c u q r j) =
     [(0, Str_Ptr c), (8, Str_Ptr u), (16, Scalar 1 (uint q)), (20, Scalar 4 r), (24, Json_Ptr j)]"

section \<open>Expressions\<close>

datatype binary_expr_op =
    EXPR_OP_EQ | EXPR_OP_GT | EXPR_OP_GTE | EXPR_OP_LT | EXPR_OP_LTE | EXPR_OP_AND | EXPR_OP_OR | EXPR_OP_LP | EXPR_OP_RP

record operator_info =
  expr_op :: binary_expr_op
  priority :: nat

text \<open>The tag and the union of \<^verbatim>\<open>filter_expr_value_t\<close>; \<open>Json_V\<close> and \<open>Null_V\<close> are tags with an unset union.\<close>

datatype expr_value = Str_V tmq_str | Int_V int | Bool_V bool | Json_V | Null_V

fun tag_of :: "expr_value \<Rightarrow> expr_value_type" where
  "tag_of (Str_V _) = STR_VALUE"
| "tag_of (Int_V _) = INT_VALUE"
| "tag_of (Bool_V _) = BOOL_VALUE"
| "tag_of Json_V = JSON_VALUE"
| "tag_of Null_V = NULL_VALUE"

datatype filter_expr =
    Value_Expr field_meta "tmq_str option"
  | Const_Expr expr_value
  | Binary_Expr operator_info filter_expr filter_expr

definition tmq_value_expr_new :: "field_meta \<Rightarrow> tmq_str option \<Rightarrow> filter_expr" where
  "tmq_value_expr_new m f =
     Value_Expr m (if meta_type m = JSON_VALUE then Some (case f of None \<Rightarrow> [] | Some t \<Rightarrow> cstr t) else None)"

text \<open>
  Of a lone quote \<^verbatim>\<open>tmq_str_substr\<close> returns NULL, which is later copied as the empty string.
\<close>

definition tmq_const_expr_new :: "tmq_str \<Rightarrow> filter_expr" where
  "tmq_const_expr_new v =
     (case tmq_str_to_int v of
        Some i \<Rightarrow> Const_Expr (Int_V i)
      | None \<Rightarrow>
          if cstr v = ''true'' then Const_Expr (Bool_V True)
          else if cstr v = ''false'' then Const_Expr (Bool_V False)
          else if tmq_str_is_string v then
            Const_Expr (Str_V (if length v < 2 then [] else case tmq_str_substr v 1 (length v - 2) of None \<Rightarrow> [] | Some t \<Rightarrow> t))
          else Const_Expr (Str_V (cstr v)))"

definition tmq_binary_expr_new :: "binary_expr_op \<Rightarrow> nat \<Rightarrow> operator_info" where
  "tmq_binary_expr_new p n = \<lparr>expr_op = p, priority = n\<rparr>"

section \<open>Evaluation\<close>

definition json_value :: "json_item \<Rightarrow> expr_value res" where
  "json_value it =
     (case it of
        JString s \<Rightarrow> Inr (Str_V (cstr s))
      | JNumber n \<Rightarrow> if - (2 ^ 63) \<le> n \<and> n < 2 ^ 63 then Inr (Int_V n) else Inl Out_Of_Bounds
      | JBool b \<Rightarrow> Inr (Bool_V b)
      | JNull \<Rightarrow> Inr Null_V
      | JOther \<Rightarrow> Inr Json_V)"

definition value_expr_evaluate :: "field_meta \<Rightarrow> tmq_str option \<Rightarrow> event_data \<Rightarrow> expr_value res" where
  "value_expr_evaluate m f d =
     (case meta_type m of
        INT_VALUE \<Rightarrow>
          if value_size m \<notin> {1, 2, 4, 8} then Inl Uninit_Read
          else (case map_of (event_cells d) (field_offset m) of
                  Some (Scalar sz v) \<Rightarrow>
                    if sz = value_size m then Inr (Int_V (signed_take_bit (8 * sz - 1) v)) else Inl Type_Confusion
                | Some _ \<Rightarrow> Inl Type_Confusion
                | None \<Rightarrow> Inl Out_Of_Bounds)
      | STR_VALUE \<Rightarrow>
          (case map_of (event_cells d) (field_offset m) of
             Some (Str_Ptr s) \<Rightarrow> Inr (case s of None \<Rightarrow> Null_V | Some t \<Rightarrow> Str_V (cstr t))
           | Some _ \<Rightarrow> Inl Type_Confusion
           | None \<Rightarrow> Inl Out_Of_Bounds)
      | JSON_VALUE \<Rightarrow>
          (case map_of (event_cells d) (field_offset m) of
             Some (Json_Ptr j) \<Rightarrow>
               (case (j, f) of
                  (Some obj, Some name) \<Rightarrow> (case map_of obj name of None \<Rightarrow> Inr Null_V | Some it \<Rightarrow> json_value it)
                | _ \<Rightarrow> Inr Null_V)
           | Some _ \<Rightarrow> Inl Type_Confusion
           | None \<Rightarrow> Inl Out_Of_Bounds)
      | BOOL_VALUE \<Rightarrow> Inl Uninit_Read
      | NULL_VALUE \<Rightarrow> Inr Null_V)"

definition const_expr_evaluate :: "expr_value \<Rightarrow> expr_value" where
  "const_expr_evaluate v = (case v of Str_V s \<Rightarrow> Str_V (cstr s) | _ \<Rightarrow> v)"

fun strcmp :: "tmq_str \<Rightarrow> tmq_str \<Rightarrow> int" where
  "strcmp [] [] = 0"
| "strcmp [] (c # t) = - of_char c"
| "strcmp (c # s) [] = of_char c"
| "strcmp (c # s) (d # t) = (if c = d then strcmp s t else of_char c - of_char d)"

text \<open>A member of the union is read as what it is when the tag names it; reading another one is the fault \<open>Type_Confusion\<close>.\<close>

fun read_str :: "expr_value \<Rightarrow> tmq_str res" where
  "read_str (Str_V s) = Inr s"
| "read_str _ = Inl Type_Confusion"

fun read_integer :: "expr_value \<Rightarrow> int res" where
  "read_integer (Int_V i) = Inr i"
| "read_integer _ = Inl Type_Confusion"

fun read_boolean :: "expr_value \<Rightarrow> bool res" where
  "read_boolean (Bool_V b) = Inr b"
| "read_boolean _ = Inl Type_Confusion"

text \<open>The four comparisons differ in the relation only: of the integers, or of the result of \<^verbatim>\<open>strcmp\<close> and 0.\<close>

definition compare_values :: "(int \<Rightarrow> int \<Rightarrow> bool) \<Rightarrow> expr_value \<Rightarrow> expr_value \<Rightarrow> expr_value res" where
  "compare_values rel l r =
     (if tag_of l = INT_VALUE then
        bind (read_integer l) (\<lambda>i. bind (read_integer r) (\<lambda>j. Inr (Bool_V (rel i j))))
      else if tag_of l = STR_VALUE then
        bind (read_str l) (\<lambda>s. bind (read_str r) (\<lambda>t. Inr (Bool_V (rel (strcmp (cstr s) (cstr t)) 0))))
      else Inr (Bool_V False))"

definition binary_expr_evaluate :: "binary_expr_op \<Rightarrow> expr_value \<Rightarrow> expr_value \<Rightarrow> expr_value res" where
  "binary_expr_evaluate p l r =
     (if tag_of l \<noteq> tag_of r then Inr (Bool_V False)
      else case p of
          EXPR_OP_EQ \<Rightarrow>
            if tag_of l = STR_VALUE then
              bind (read_str l) (\<lambda>s. bind (read_str r) (\<lambda>t. Inr (Bool_V (tmq_str_equal s t))))
            else if tag_of l = INT_VALUE then
              bind (read_integer l) (\<lambda>i. bind (read_integer r) (\<lambda>j. Inr (Bool_V (i = j))))
            else if tag_of l = BOOL_VALUE then
              bind (read_boolean l) (\<lambda>a. bind (read_boolean r) (\<lambda>b. Inr (Bool_V (a = b))))
            else Inr (Bool_V False)
        | EXPR_OP_GT \<Rightarrow> compare_values (>) l r
        | EXPR_OP_GTE \<Rightarrow> compare_values (\<ge>) l r
        | EXPR_OP_LT \<Rightarrow> compare_values (<) l r
        | EXPR_OP_LTE \<Rightarrow> compare_values (\<le>) l r
        | EXPR_OP_AND \<Rightarrow>
            if tag_of l \<noteq> BOOL_VALUE then Inr (Bool_V False)
            else bind (read_boolean l) (\<lambda>a. if a then bind (read_boolean r) (\<lambda>b. Inr (Bool_V b)) else Inr (Bool_V False))
        | EXPR_OP_OR \<Rightarrow>
            if tag_of l \<noteq> BOOL_VALUE then Inr (Bool_V False)
            else bind (read_boolean l) (\<lambda>a. if a then Inr (Bool_V True) else bind (read_boolean r) (\<lambda>b. Inr (Bool_V b)))
        | _ \<Rightarrow> Inr (Bool_V False))"

text \<open>The call through \<^verbatim>\<open>expr->evaluate\<close>: both operands are evaluated, the left one first.\<close>

fun evaluate :: "filter_expr \<Rightarrow> event_data \<Rightarrow> expr_value res" where
  "evaluate (Value_Expr m f) d = value_expr_evaluate m f d"
| "evaluate (Const_Expr v) d = Inr (const_expr_evaluate v)"
| "evaluate (Binary_Expr p l r) d =
     bind (evaluate l d) (\<lambda>x. bind (evaluate r d) (\<lambda>y. binary_expr_evaluate (expr_op p) x y))"

section \<open>Printing\<close>

definition print_value_expr :: "field_meta \<Rightarrow> tmq_str option \<Rightarrow> string" where
  "print_value_expr m f =
     ''${'' @ (if meta_type m \<noteq> JSON_VALUE then cstr (field_name m)
               else ''payload.'' @ (case f of None \<Rightarrow> ''(null)'' | Some t \<Rightarrow> cstr t)) @ ''}''"

text \<open>Of a truth value only one byte of the union is set, but all eight are printed.\<close>

definition print_const_expr :: "expr_value \<Rightarrow> string res" where
  "print_const_expr v =
     (case v of
        Str_V s \<Rightarrow> Inr (cstr s)
      | Int_V i \<Rightarrow> Inr ((if i < 0 then ''-'' else []) @ (if i = 0 then ''0'' else rev (digits 10 (nat \<bar>i\<bar>))))
      | _ \<Rightarrow> Inl Uninit_Read)"

fun print_binary_expr :: "binary_expr_op \<Rightarrow> string" where
  "print_binary_expr EXPR_OP_EQ = ''==''"
| "print_binary_expr EXPR_OP_GT = ''>''"
| "print_binary_expr EXPR_OP_GTE = ''>=''"
| "print_binary_expr EXPR_OP_LT = ''<''"
| "print_binary_expr EXPR_OP_LTE = ''<=''"
| "print_binary_expr EXPR_OP_AND = ''and''"
| "print_binary_expr EXPR_OP_OR = ''or''"
| "print_binary_expr _ = []"

definition spaced :: "string res \<Rightarrow> string res" where
  "spaced r = bind r (\<lambda>t. Inr (t @ '' ''))"

definition appended :: "string res \<Rightarrow> string res \<Rightarrow> string res" where
  "appended r q = bind r (\<lambda>s. bind q (\<lambda>t. Inr (s @ t)))"

fun tmq_print_filter_inorder :: "filter_expr \<Rightarrow> string res" where
  "tmq_print_filter_inorder (Value_Expr m f) = spaced (Inr (print_value_expr m f))"
| "tmq_print_filter_inorder (Const_Expr v) = spaced (print_const_expr v)"
| "tmq_print_filter_inorder (Binary_Expr p l r) =
     appended (tmq_print_filter_inorder l)
       (appended (spaced (Inr (print_binary_expr (expr_op p)))) (tmq_print_filter_inorder r))"

fun tmq_print_filter_preorder :: "filter_expr \<Rightarrow> string res" where
  "tmq_print_filter_preorder (Value_Expr m f) = spaced (Inr (print_value_expr m f))"
| "tmq_print_filter_preorder (Const_Expr v) = spaced (print_const_expr v)"
| "tmq_print_filter_preorder (Binary_Expr p l r) =
     appended (spaced (Inr (print_binary_expr (expr_op p))))
       (appended (tmq_print_filter_preorder l) (tmq_print_filter_preorder r))"

section \<open>What expressions mean\<close>

text \<open>
  The value of a member by its name, without offsets, sizes and pointers. A rule on \<^verbatim>\<open>topic\<close> is registered for the events of devices, and what it
  calls the topic is the client identifier.
\<close>

definition str_value :: "tmq_str option \<Rightarrow> expr_value" where
  "str_value s = (case s of None \<Rightarrow> Null_V | Some t \<Rightarrow> Str_V (cstr t))"

definition item_value :: "json_item option \<Rightarrow> expr_value" where
  "item_value it =
     (case it of
        Some (JString s) \<Rightarrow> Str_V (cstr s)
      | Some (JNumber n) \<Rightarrow> Int_V n
      | Some (JBool b) \<Rightarrow> Bool_V b
      | Some JOther \<Rightarrow> Json_V
      | _ \<Rightarrow> Null_V)"

fun member_value :: "event_data \<Rightarrow> tmq_str \<Rightarrow> tmq_str option \<Rightarrow> expr_value" where
  "member_value (Device_Data a c u) n f =
     (if n = ''action'' then Int_V (int a) else if n = ''username'' then str_value u else str_value c)"
| "member_value (Topic_Data a t) n f = (if n = ''action'' then Int_V (int a) else str_value t)"
| "member_value (Subscription_Data a c u t q) n f =
     (if n = ''action'' then Int_V (int a) else if n = ''client_id'' then str_value c else if n = ''username'' then str_value u
      else if n = ''topic'' then str_value t else Int_V (uint q))"
| "member_value (Pub_Data c u q r j) n f =
     (if n = ''client_id'' then str_value c else if n = ''username'' then str_value u else if n = ''qos'' then Int_V (uint q)
      else if n = ''retain'' then Int_V r
      else item_value (case (j, f) of (Some obj, Some name) \<Rightarrow> map_of obj name | _ \<Rightarrow> None))"

text \<open>
  Operators on values: operands of different types, or of no type, satisfy nothing; strings are ordered lexicographically by their bytes.
\<close>

definition bytes_less :: "tmq_str \<Rightarrow> tmq_str \<Rightarrow> bool" where
  "bytes_less s t \<longleftrightarrow> ord_class.lexordp (map of_char (cstr s) :: int list) (map of_char (cstr t))"

definition op_holds :: "binary_expr_op \<Rightarrow> expr_value \<Rightarrow> expr_value \<Rightarrow> bool" where
  "op_holds p l r =
     (case (l, r) of
        (Int_V i, Int_V j) \<Rightarrow>
          (case p of EXPR_OP_EQ \<Rightarrow> i = j | EXPR_OP_GT \<Rightarrow> j < i | EXPR_OP_GTE \<Rightarrow> j \<le> i | EXPR_OP_LT \<Rightarrow> i < j | EXPR_OP_LTE \<Rightarrow> i \<le> j | _ \<Rightarrow> False)
      | (Str_V s, Str_V t) \<Rightarrow>
          (case p of EXPR_OP_EQ \<Rightarrow> cstr s = cstr t | EXPR_OP_GT \<Rightarrow> bytes_less t s | EXPR_OP_GTE \<Rightarrow> \<not> bytes_less s t
           | EXPR_OP_LT \<Rightarrow> bytes_less s t | EXPR_OP_LTE \<Rightarrow> \<not> bytes_less t s | _ \<Rightarrow> False)
      | (Bool_V a, Bool_V b) \<Rightarrow> (case p of EXPR_OP_EQ \<Rightarrow> a = b | EXPR_OP_AND \<Rightarrow> a \<and> b | EXPR_OP_OR \<Rightarrow> a \<or> b | _ \<Rightarrow> False)
      | _ \<Rightarrow> False)"

fun denotes :: "filter_expr \<Rightarrow> event_data \<Rightarrow> expr_value" where
  "denotes (Value_Expr m f) d = member_value d (field_name m) f"
| "denotes (Const_Expr v) d = (case v of Str_V s \<Rightarrow> Str_V (cstr s) | _ \<Rightarrow> v)"
| "denotes (Binary_Expr p l r) d = Bool_V (op_holds (expr_op p) (denotes l d) (denotes r d))"

section \<open>Typing\<close>

text \<open>
  The structure that is passed with an event. Numbers in a payload have to be in the range of \<^verbatim>\<open>int64_t\<close>, the other numbers in the range of their member
  (of a quality of service read as \<^verbatim>\<open>int8_t\<close>).
\<close>

definition item_ok :: "json_item \<Rightarrow> bool" where
  "item_ok it = (case it of JNumber n \<Rightarrow> - (2 ^ 63) \<le> n \<and> n < 2 ^ 63 | _ \<Rightarrow> True)"

fun data_of :: "event_type \<Rightarrow> event_data \<Rightarrow> bool" where
  "data_of DEVICE (Device_Data a _ _) \<longleftrightarrow> a < 2 ^ 31"
| "data_of TOPIC (Topic_Data a _) \<longleftrightarrow> a < 2 ^ 31"
| "data_of SUBSCRIPTION (Subscription_Data a _ _ _ q) \<longleftrightarrow> a < 2 ^ 31 \<and> uint q < 128"
| "data_of MESSAGE (Pub_Data _ _ q r j) \<longleftrightarrow> uint q < 128 \<and> - (2 ^ 31) \<le> r \<and> r < 2 ^ 31 \<and>
     list_all (item_ok \<circ> snd) (case j of None \<Rightarrow> [] | Some obj \<Rightarrow> obj)"
| "data_of _ _ \<longleftrightarrow> False"

text \<open>The tags that the value of an expression may have.\<close>

fun expr_tags :: "filter_expr \<Rightarrow> expr_value_type list" where
  "expr_tags (Value_Expr m f) =
     (case meta_type m of STR_VALUE \<Rightarrow> [STR_VALUE, NULL_VALUE]
      | JSON_VALUE \<Rightarrow> [STR_VALUE, INT_VALUE, BOOL_VALUE, JSON_VALUE, NULL_VALUE]
      | t \<Rightarrow> [t])"
| "expr_tags (Const_Expr v) = [tag_of v]"
| "expr_tags (Binary_Expr p l r) = [BOOL_VALUE]"

text \<open>An expression over the fields of a source.\<close>

fun expr_over :: "event_source_info \<Rightarrow> filter_expr \<Rightarrow> bool" where
  "expr_over src (Value_Expr m f) = (m \<in> snd ` set (fields_meta src))"
| "expr_over src (Const_Expr v) = True"
| "expr_over src (Binary_Expr p l r) = (expr_over src l \<and> expr_over src r)"

lemma sources_eq:
  "tmq_event_sources_init =
     [(''device'', \<lparr>source = DEVICE, source_name = ''device'', fields_meta =
         [(''action'', get_field_descriptor ''action'' INT_VALUE 4 0),
          (''client_id'', get_field_descriptor ''client_id'' STR_VALUE 8 8),
          (''username'', get_field_descriptor ''username'' STR_VALUE 8 16)]\<rparr>),
      (''topic'', \<lparr>source = DEVICE, source_name = ''topic'', fields_meta =
         [(''action'', get_field_descriptor ''action'' INT_VALUE 4 0),
          (''topic'', get_field_descriptor ''topic'' STR_VALUE 8 8)]\<rparr>),
      (''subscription'', \<lparr>source = SUBSCRIPTION, source_name = ''subscription'', fields_meta =
         [(''action'', get_field_descriptor ''action'' INT_VALUE 4 0),
          (''client_id'', get_field_descriptor ''client_id'' STR_VALUE 8 8),
          (''username'', get_field_descriptor ''username'' STR_VALUE 8 16),
          (''topic'', get_field_descriptor ''topic'' STR_VALUE 8 24),
          (''sub_qos'', get_field_descriptor ''sub_qos'' INT_VALUE 1 32)]\<rparr>),
      (''message'', \<lparr>source = MESSAGE, source_name = ''message'', fields_meta =
         [(''client_id'', get_field_descriptor ''client_id'' STR_VALUE 8 0),
          (''username'', get_field_descriptor ''username'' STR_VALUE 8 8),
          (''qos'', get_field_descriptor ''qos'' INT_VALUE 1 16),
          (''retain'', get_field_descriptor ''retain'' INT_VALUE 4 20),
          (''payload'', get_field_descriptor ''payload'' JSON_VALUE 8 24)]\<rparr>)]"
  by code_simp

lemma json_value_ok: "item_ok it \<Longrightarrow> json_value it = Inr (item_value (Some it))"
  by (cases it) (auto simp: item_ok_def json_value_def item_value_def)

lemma signed_read: "0 < n \<Longrightarrow> - (2 ^ (n - 1)) \<le> i \<Longrightarrow> i < 2 ^ (n - 1) \<Longrightarrow> signed_take_bit (n - 1) i = (i :: int)"
  by (simp add: signed_take_bit_int_eq_self_iff)

lemmas signed_reads = signed_read [of 8, simplified] signed_read [of 32, simplified]

lemma items_ok: "data_of ty (Pub_Data c u q r (Some obj)) \<Longrightarrow> map_of obj name = Some it \<Longrightarrow> item_ok it"
  by (cases ty) (auto simp: list_all_iff dest: bspec [OF _ map_of_SomeD])

text \<open>Reading a member of the right type.\<close>

lemma read_member:
  "map_of (event_cells d) off = Some (Scalar sz v) \<Longrightarrow> sz \<in> {1, 4} \<Longrightarrow> - (2 ^ (8 * sz - 1)) \<le> v \<Longrightarrow> v < 2 ^ (8 * sz - 1) \<Longrightarrow>
     value_expr_evaluate (get_field_descriptor n INT_VALUE sz off) f d = Inr (Int_V v)"
  "map_of (event_cells d) off = Some (Str_Ptr s) \<Longrightarrow>
     value_expr_evaluate (get_field_descriptor n STR_VALUE 8 off) f d = Inr (str_value s)"
  "map_of (event_cells d) off = Some (Json_Ptr j) \<Longrightarrow> (\<And>obj name it. j = Some obj \<Longrightarrow> map_of obj name = Some it \<Longrightarrow> item_ok it) \<Longrightarrow>
     value_expr_evaluate (get_field_descriptor n JSON_VALUE 8 off) f d =
       Inr (item_value (case (j, f) of (Some obj, Some name) \<Rightarrow> map_of obj name | _ \<Rightarrow> None))"
    apply (auto simp: value_expr_evaluate_def get_field_descriptor_def signed_reads) [1]
   apply (simp add: value_expr_evaluate_def get_field_descriptor_def str_value_def)
  apply (auto simp: value_expr_evaluate_def get_field_descriptor_def json_value_ok item_value_def split: option.splits) [1]
  done

lemma read_byte:
  assumes "map_of (event_cells d) off = Some (Scalar (Suc 0) (uint (q :: u8)))" and "uint q < 128"
  shows "value_expr_evaluate (get_field_descriptor n INT_VALUE (Suc 0) off) f d = Inr (Int_V (uint q))"
proof -
  have "- (2 ^ (8 * Suc 0 - 1)) \<le> uint q" by (rule order_trans [of _ 0]) simp_all
  then show ?thesis using assms by (intro read_member(1)) simp_all
qed

lemma descriptor_name [simp]: "field_name (get_field_descriptor n ty sz off) = n"
  by (simp add: get_field_descriptor_def)

lemma field_evaluates:
  assumes "src \<in> snd ` set tmq_event_sources_init" and "m \<in> snd ` set (fields_meta src)" and "data_of (source src) d"
  shows "value_expr_evaluate m f d = Inr (member_value d (field_name m) f)"
proof (cases d)
  case (Device_Data a c u)
  show ?thesis using assms unfolding sources_eq Device_Data by (auto simp: read_member read_byte)
next
  case (Topic_Data a t)
  show ?thesis using assms unfolding sources_eq Topic_Data by auto
next
  case (Subscription_Data a c u t q)
  show ?thesis using assms unfolding sources_eq Subscription_Data by (auto simp: read_member read_byte)
next
  case (Pub_Data c u q r j)
  have item: "item_ok it" if "j = Some obj" "map_of obj name = Some it" for obj name it
    using items_ok [of "source src" c u q r obj] assms(3) that Pub_Data by blast
  have "data_of (source src) d \<Longrightarrow> uint q < 128 \<and> - (2 ^ 31) \<le> r \<and> r < 2 ^ 31 \<and> source src = MESSAGE"
    unfolding Pub_Data by (cases "source src") auto
  then show ?thesis using assms(1,2,3) item unfolding sources_eq Pub_Data by (auto simp: read_member read_byte)
qed

lemma of_char_pos: "c \<noteq> NUL \<Longrightarrow> 0 < (of_char c :: int)"
proof -
  assume "c \<noteq> NUL"
  then have "(of_char c :: int) \<noteq> of_char NUL" by (metis of_char_eq_iff)
  moreover have "of_char NUL = (0 :: int)" by (simp add: of_char_def)
  moreover have "0 \<le> (of_char c :: int)" by (metis of_nat_0_le_iff of_nat_of_char)
  ultimately show "0 < (of_char c :: int)" by linarith
qed

lemma strcmp_order:
  "(strcmp s t = 0 \<longleftrightarrow> s = t) \<and> (strcmp s t < 0 \<longleftrightarrow> ord_class.lexordp (map of_char s :: int list) (map of_char t)) \<and>
   (0 < strcmp s t \<longleftrightarrow> ord_class.lexordp (map of_char t :: int list) (map of_char s))"
  if "NUL \<notin> set s" "NUL \<notin> set t"
  using that
proof (induction s t rule: strcmp.induct)
  case (2 c t)
  have "0 < (of_char c :: int)" by (rule of_char_pos) (use 2 in auto)
  then show ?case by simp
next
  case (3 c s)
  have "0 < (of_char c :: int)" by (rule of_char_pos) (use 3 in auto)
  then show ?case by simp
next
  case (4 c s d t)
  consider "c = d" | "(of_char c :: int) < of_char d" "c \<noteq> d" | "(of_char d :: int) < of_char c" "c \<noteq> d"
    by (meson linorder_neqE of_char_eq_iff)
  then show ?case using 4 by cases auto
qed simp

lemma bytes_order:
  "strcmp (cstr s) (cstr t) < 0 \<longleftrightarrow> bytes_less s t" "strcmp (cstr s) (cstr t) > 0 \<longleftrightarrow> bytes_less t s"
  using strcmp_order [of "cstr s" "cstr t"] by (simp_all add: bytes_less_def)

lemma bytes_order_eq:
  "strcmp (cstr s) (cstr t) \<ge> 0 \<longleftrightarrow> \<not> bytes_less s t" "strcmp (cstr s) (cstr t) \<le> 0 \<longleftrightarrow> \<not> bytes_less t s"
  using bytes_order [of s t] by linarith+

text \<open>No member of the union is misread, and the result is what the operator means.\<close>

lemma binary_evaluates: "binary_expr_evaluate p l r = Inr (Bool_V (op_holds p l r))"
proof (cases "tag_of l = tag_of r")
  case True
  then show ?thesis
    by (cases l; cases r; cases p)
      (simp_all add: binary_expr_evaluate_def compare_values_def op_holds_def tmq_str_equal_def bytes_order bytes_order_eq)
next
  case False
  then show ?thesis by (cases l; cases r) (simp_all add: binary_expr_evaluate_def op_holds_def)
qed

lemma evaluate_denotes:
  assumes "src \<in> snd ` set tmq_event_sources_init" and "data_of (source src) d" and "expr_over src e"
  shows "evaluate e d = Inr (denotes e d)"
  using assms(3)
proof (induction e)
  case (Value_Expr m f)
  then show ?case using field_evaluates [OF assms(1) _ assms(2)] by simp
next
  case (Const_Expr v)
  then show ?case by (simp add: const_expr_evaluate_def)
next
  case (Binary_Expr p l r)
  then show ?case by (simp add: binary_evaluates)
qed

lemma boolean_expr:
  assumes "src \<in> snd ` set tmq_event_sources_init" and "data_of (source src) d" and "expr_over src e" and "expr_tags e = [BOOL_VALUE]"
  shows "\<exists>b. denotes e d = Bool_V b"
proof (cases e)
  case (Value_Expr m f)
  then show ?thesis using assms(1,3,4) by (auto simp: sources_eq get_field_descriptor_def)
next
  case (Const_Expr v)
  then show ?thesis using assms(4) by (cases v) simp_all
qed simp

end
