(* ===== verification/Rule_Parser.thy ===== *)
theory Rule_Parser
  imports Rule_Expr
begin

text \<open>
  The parser of rules, \<^verbatim>\<open>rule_engine/mqtt_rule_parser.c\<close>. A rule reads
  \<^verbatim>\<open>select column as name, ... from topic where expression\<close>. A pointer into the rule is the text from there on (without the
  terminating NUL), so that \<^verbatim>\<open>ptr - rule\<close> is a difference of lengths. The operator stack and the operand stack
  are lists with their top first; the nodes of operators are built when they are taken from the stack, which is when
  the code links their operands.
\<close>

section \<open>Characters and errors\<close>

definition skip_blank :: "tmq_str \<Rightarrow> tmq_str" where
  "skip_blank p = dropWhile isblank p"

definition operator_char :: "char \<Rightarrow> bool" where
  "operator_char c \<longleftrightarrow> c \<in> set ''=&|<>()''"

definition is_operator :: "tmq_str \<Rightarrow> bool" where
  "is_operator p = (case p of [] \<Rightarrow> False | c # _ \<Rightarrow> operator_char c)"

definition get_operator :: "tmq_str \<Rightarrow> tmq_str" where
  "get_operator p =
     (case p of
        [] \<Rightarrow> ''$end''
      | c # r \<Rightarrow>
          if c = CHR ''('' \<or> c = CHR '')'' \<or> (c = CHR ''>'' \<or> c = CHR ''<'') \<and> (r = [] \<or> hd r \<noteq> CHR ''='') then [c]
          else take 2 (c # r @ [NUL]))"

text \<open>
  \<^verbatim>\<open>error_info\<close> owns a string; after it has been freed the pointer keeps its value.
\<close>

datatype error_ptr = No_Info | Info tmq_str | Freed_Info

record rule_parser =
  event_source :: "event_source_info option"
  error_pos :: int
  error_info :: error_ptr

text \<open>The message is formatted into an array of 256 characters.\<close>

definition set_error_info :: "rule_parser \<Rightarrow> int \<Rightarrow> string \<Rightarrow> rule_parser res" where
  "set_error_info ps pos t =
     (if length t \<ge> 256 then Inl Out_Of_Bounds else Inr (ps\<lparr>error_pos := pos, error_info := Info t\<rparr>))"

definition syntax_error :: string where
  "syntax_error = ''Syntax error in expression''"

definition operators :: "(tmq_str, operator_info) alist" where
  "operators =
     [(''=='', \<lparr>expr_op = EXPR_OP_EQ, priority = 3\<rparr>), (''>'', \<lparr>expr_op = EXPR_OP_GT, priority = 3\<rparr>),
      (''>='', \<lparr>expr_op = EXPR_OP_GTE, priority = 3\<rparr>), (''<'', \<lparr>expr_op = EXPR_OP_LT, priority = 3\<rparr>),
      (''<='', \<lparr>expr_op = EXPR_OP_LTE, priority = 3\<rparr>), (''&&'', \<lparr>expr_op = EXPR_OP_AND, priority = 2\<rparr>),
      (''||'', \<lparr>expr_op = EXPR_OP_OR, priority = 2\<rparr>), (''('', \<lparr>expr_op = EXPR_OP_LP, priority = 1\<rparr>),
      ('')'', \<lparr>expr_op = EXPR_OP_RP, priority = 1\<rparr>), (''$end'', \<lparr>expr_op = EXPR_OP_EQ, priority = 0\<rparr>)]"

definition tmq_rule_parser_init :: rule_parser where
  "tmq_rule_parser_init = \<lparr>event_source = None, error_pos = 0, error_info = No_Info\<rparr>"

section \<open>Filter expressions\<close>

text \<open>The inner loop: operators of at least the given priority are taken from the stack, up to a parenthesis.\<close>

fun reduce_operators :: "nat \<Rightarrow> filter_expr list \<Rightarrow> operator_info list \<Rightarrow> (filter_expr list \<times> operator_info list) res" where
  "reduce_operators p es [] = Inr (es, [])"
| "reduce_operators p es (t # ts) =
     (if p \<le> priority t then
        if expr_op t = EXPR_OP_LP then Inr (es, ts)
        else (case es of r # l # es' \<Rightarrow> reduce_operators p (Binary_Expr t l r # es') ts | _ \<Rightarrow> Inl Null_Deref)
      else Inr (es, t # ts))"

text \<open>An operand: its node, and whether it needs the parsed payload. None when the source has no payload.\<close>

definition operand_expr :: "event_source_info \<Rightarrow> tmq_str \<Rightarrow> (filter_expr \<times> bool) option" where
  "operand_expr src value =
     (if tmq_str_startswith value ''payload.'' then
        (case map_of (fields_meta src) ''payload'' of
           None \<Rightarrow> None
         | Some m \<Rightarrow> Some (tmq_value_expr_new m (Some (drop 8 value)), True))
      else
        (case map_of (fields_meta src) value of
           Some m \<Rightarrow> Some (tmq_value_expr_new m None, False)
         | None \<Rightarrow> Some (tmq_const_expr_new value, False)))"

definition operand_char :: "char \<Rightarrow> bool" where
  "operand_char c \<longleftrightarrow> \<not> isblank c \<and> \<not> operator_char c"

text \<open>
  The loop. The result is the operand stack, or the position and the text of an error, and whether the payload is needed. An
  invalid operator is named in the error message after its string has been freed.
\<close>

datatype filter_state =
    Filter_Done "filter_expr list" bool
  | Filter_Error int string bool

function filter_loop :: "event_source_info \<Rightarrow> int \<Rightarrow> tmq_str \<Rightarrow> filter_expr list \<Rightarrow> operator_info list \<Rightarrow> bool \<Rightarrow>
    filter_state res" where
  "filter_loop src n str es ts json =
     (let ptr = skip_blank str in
      if ptr = [] \<or> is_operator ptr then
        (case map_of operators (cstr (get_operator ptr)) of
           None \<Rightarrow> Inl Use_After_Free
         | Some opr \<Rightarrow>
             bind (if ts \<noteq> [] \<and> expr_op opr \<noteq> EXPR_OP_LP then reduce_operators (priority opr) es ts else Inr (es, ts))
               (\<lambda>(es, ts).
                 if ptr = [] then Inr (Filter_Done es json)
                 else filter_loop src n (drop (length (get_operator ptr)) ptr) es
                        (if hd ptr \<noteq> CHR '')'' then tmq_binary_expr_new (expr_op opr) (priority opr) # ts else ts) json))
      else
        (case operand_expr src (takeWhile operand_char ptr) of
           None \<Rightarrow> Inr (Filter_Error (n - int (length ptr)) (''Event source '' @ source_name src @ '' has no payload'') json)
         | Some (e, j) \<Rightarrow> filter_loop src n (dropWhile operand_char ptr) (e # es) ts (j \<or> json)))"
  by pat_completeness auto
termination
proof (relation "measure (\<lambda>(src, n, str, es, ts, json). length str)", goal_cases)
  case (2 src n str es ts json ptr opr x)
  have "length ptr \<le> length str" using 2(1) by (simp add: skip_blank_def length_dropWhile_le)
  moreover have "ptr \<noteq> []" using 2 by simp
  moreover have "length (get_operator ptr) \<ge> 1" by (auto simp: get_operator_def split: list.splits)
  ultimately show ?case by (cases ptr) auto
next
  case (3 src n str es ts json ptr v e j)
  then have "ptr \<noteq> []" "\<not> operator_char (hd ptr)" by (auto simp: is_operator_def split: list.splits)
  moreover have "\<not> isblank (hd ptr)" using 3 \<open>ptr \<noteq> []\<close> by (metis hd_dropWhile skip_blank_def)
  ultimately have "dropWhile operand_char ptr = dropWhile operand_char (tl ptr)"
    by (cases ptr) (auto simp: operand_char_def)
  moreover have "length (dropWhile operand_char (tl ptr)) \<le> length (tl ptr)" by (rule length_dropWhile_le)
  moreover have "length ptr \<le> length str" using 3 by (simp add: skip_blank_def length_dropWhile_le)
  ultimately show ?case using \<open>ptr \<noteq> []\<close> by (cases ptr) auto
qed simp

declare filter_loop.simps [simp del]

text \<open>
  The position of an error is counted from the start of the expression, of length \<open>n\<close>; behind the loop the pointer is
  at its end. The flag is set even when the expression is refused.
\<close>

definition parse_filter_expression :: "rule_parser \<Rightarrow> event_source_info \<Rightarrow> tmq_str \<Rightarrow> bool \<Rightarrow>
    (rule_parser \<times> bool \<times> filter_expr option) res" where
  "parse_filter_expression ps src expr json =
     bind (filter_loop src (int (length expr)) expr [] [] json) (\<lambda>st.
       case st of
         Filter_Done [e] j \<Rightarrow> Inr (ps, j, Some e)
       | Filter_Done _ j \<Rightarrow> bind (set_error_info ps (int (length expr)) syntax_error) (\<lambda>ps. Inr (ps, j, None))
       | Filter_Error pos t j \<Rightarrow> bind (set_error_info ps pos t) (\<lambda>ps. Inr (ps, j, None)))"

section \<open>Columns\<close>

record select_item =
  source_col :: tmq_str
  target_col :: tmq_str

record mapping_item =
  value_expr :: filter_expr
  map_to_parameter :: bool
  mapping_name :: tmq_str
  mapping_type :: expr_value_type

record rule_parse_result =
  mappings :: "mapping_item list"
  adaptor :: "nat option"
  result_source :: event_type
  source_topic :: "tmq_str option"
  result_filter :: "filter_expr option"
  need_json :: bool

definition parse_parameter_column :: "tmq_str \<Rightarrow> (tmq_str \<times> tmq_str) option" where
  "parse_parameter_column column =
     (if length column \<le> 2 then None
      else case tmq_str_substr column 1 (length column - 2) of
        None \<Rightarrow> None
      | Some c \<Rightarrow>
          (case tmq_str_find c (CHR ''.'') of
             None \<Rightarrow> None
           | Some dot \<Rightarrow>
               if dot = 0 \<or> length c - dot - 1 = 0 then None
               else Some (take dot c, take (length c - dot - 1) (drop (dot + 1) c))))"

text \<open>\<^verbatim>\<open>strcpy\<close> into the 50 bytes of \<^verbatim>\<open>mapping_name\<close>.\<close>

definition mapping_name_of :: "tmq_str \<Rightarrow> tmq_str res" where
  "mapping_name_of t = (if length (cstr t) \<ge> 50 then Inl Out_Of_Bounds else Inr (cstr t))"

text \<open>
  The value of a column: a constant, or a field of the event. The text behind \<^verbatim>\<open>payload.\<close> is read at \<^verbatim>\<open>source_col + 8\<close>, which is
  behind the allocation when the column is \<^verbatim>\<open>payload\<close> itself. \<open>Inl\<close> is the text of an error.
\<close>

definition column_value :: "event_source_info \<Rightarrow> tmq_str \<Rightarrow> (string + (filter_expr \<times> expr_value_type \<times> bool)) res" where
  "column_value src col =
     (if tmq_str_is_string col then Inr (Inr (tmq_const_expr_new col, STR_VALUE, False))
      else if tmq_str_to_int col \<noteq> None then Inr (Inr (tmq_const_expr_new col, INT_VALUE, False))
      else
        let js = tmq_str_startswith col ''payload.''
        in case map_of (fields_meta src) (if js then ''payload'' else col) of
             None \<Rightarrow> Inr (Inl (''Event source \"'' @ source_name src @ ''\" has no field named \"'' @ col @ ''\"''))
           | Some m \<Rightarrow>
               if meta_type m \<noteq> JSON_VALUE then Inr (Inr (tmq_value_expr_new m None, meta_type m, js))
               else if length col < 8 then Inl Out_Of_Bounds
               else Inr (Inr (tmq_value_expr_new m (Some (drop 8 col)), meta_type m, js)))"

text \<open>The target of a column: the adaptor and its parameter, or a name in the payload.\<close>

definition column_target :: "(tmq_str, plugin_handle) alist \<Rightarrow> tmq_str \<Rightarrow>
    (string + (nat option \<times> bool \<times> tmq_str)) res" where
  "column_target plugins col =
     (if tmq_str_at col 0 = Some (CHR ''{'') \<and> tmq_str_at col (length col - 1) = Some (CHR ''}'') then
        (case parse_parameter_column col of
           None \<Rightarrow> Inr (Inl (''Invalid parameter: '' @ col))
         | Some (pn, par) \<Rightarrow>
             (case map_of plugins pn of
                None \<Rightarrow> Inr (Inl (''adaptor plugin \"'' @ pn @ ''\" is not loaded''))
              | Some h \<Rightarrow>
                  if par \<notin> set (adaptor_parameters h)
                  then Inr (Inl (''adaptor plugin \"'' @ pn @ ''\" has no parameter named \"'' @ par @ ''\"''))
                  else bind (mapping_name_of par) (\<lambda>name. Inr (Inr (Some (plugin_adaptor h), True, name)))))
      else
        bind (mapping_name_of (if tmq_str_startswith col ''payload.'' then drop 8 col else col))
          (\<lambda>name. Inr (Inr (None, False, name))))"

text \<open>
  The loop over the columns. The result tells whether all of them were accepted; the order of the tests is the
  field, then the parameter, then the copies.
\<close>

fun interpret_schema :: "(tmq_str, plugin_handle) alist \<Rightarrow> rule_parser \<Rightarrow> event_source_info \<Rightarrow> select_item list \<Rightarrow>
    rule_parse_result \<Rightarrow> (bool \<times> rule_parser \<times> rule_parse_result) res" where
  "interpret_schema plugins ps src [] r = Inr (True, ps, r)"
| "interpret_schema plugins ps src (it # items) r =
     (case column_value src (source_col it) of
        Inr (Inl t) \<Rightarrow> bind (set_error_info ps 0 t) (\<lambda>ps. Inr (False, ps, r))
      | cv \<Rightarrow>
          bind (column_target plugins (target_col it)) (\<lambda>tg.
            case tg of
              Inl t \<Rightarrow> bind (set_error_info ps 0 t) (\<lambda>ps. Inr (False, ps, r))
            | Inr (ad, par, name) \<Rightarrow>
                bind cv (\<lambda>v.
                  case v of
                    Inl t \<Rightarrow> bind (set_error_info ps 0 t) (\<lambda>ps. Inr (False, ps, r))
                  | Inr (e, ty, js) \<Rightarrow>
                      interpret_schema plugins ps src items
                        (r\<lparr>need_json := js \<or> need_json r,
                           adaptor := (case ad of None \<Rightarrow> adaptor r | Some a \<Rightarrow> Some a),
                           mappings := mappings r @
                             [\<lparr>value_expr = e, map_to_parameter = par, mapping_name = name, mapping_type = ty\<rparr>]\<rparr>))))"

section \<open>Rules\<close>

definition tolower :: "char \<Rightarrow> char" where
  "tolower c = (if 65 \<le> (of_char c :: nat) \<and> (of_char c :: nat) \<le> 90 then char_of ((of_char c :: nat) + 32) else c)"

text \<open>\<^verbatim>\<open>strncasecmp(p, k, strlen(k)) == 0\<close>, for a keyword in lower case.\<close>

definition keyword :: "tmq_str \<Rightarrow> tmq_str \<Rightarrow> bool" where
  "keyword k p \<longleftrightarrow> map tolower (take (length k) p) = k"

definition column_char :: "char \<Rightarrow> bool" where
  "column_char c \<longleftrightarrow> \<not> isblank c \<and> c \<noteq> CHR '',''"

lemma skip_le: "length (skip_blank p) \<le> length p"
  unfolding skip_blank_def by (rule length_dropWhile_le)

lemma shrinks: "p = skip_blank (dropWhile f q) \<Longrightarrow> length p \<le> length q"
  using skip_le [of "dropWhile f q"] length_dropWhile_le [of f q] by simp

lemma skip_drop: "p = skip_blank (drop n q) \<Longrightarrow> length p \<le> length q"
  using skip_le [of "drop n q"] by simp

lemma skip_tl: "p \<noteq> [] \<and> P \<Longrightarrow> length (skip_blank (tl p)) < length p"
  using skip_le [of "tl p"] by (cases p) auto

text \<open>The loop over the columns: the columns and the text behind \<^verbatim>\<open>from\<close>, or the text at an error.\<close>

function select_loop :: "tmq_str \<Rightarrow> select_item list \<Rightarrow> tmq_str + (select_item list \<times> tmq_str)" where
  "select_loop ptr items =
     (let col = takeWhile column_char ptr;
          ptr1 = skip_blank (dropWhile column_char ptr);
          plain = items @ [\<lparr>source_col = col, target_col = cstr col\<rparr>]
      in if ptr1 \<noteq> [] \<and> hd ptr1 = CHR '','' then select_loop (skip_blank (tl ptr1)) plain
         else if keyword ''as '' ptr1 then
           (let ptr2 = skip_blank (drop 3 ptr1);
                items' = items @ [\<lparr>source_col = col, target_col = takeWhile column_char ptr2\<rparr>];
                ptr3 = skip_blank (dropWhile column_char ptr2)
            in if ptr3 \<noteq> [] \<and> hd ptr3 = CHR '','' then select_loop (skip_blank (tl ptr3)) items'
               else if keyword ''from '' ptr3 then Inr (items', skip_blank (drop 5 ptr3))
               else Inl ptr3)
         else if keyword ''from '' ptr1 then Inr (plain, skip_blank (drop 5 ptr1))
         else Inl ptr1)"
  by pat_completeness auto
termination
proof (relation "measure (length \<circ> fst)", goal_cases)
  case (2 ptr items col ptr1 plain)
  have "length ptr1 \<le> length ptr" using 2(2) shrinks by blast
  moreover have "length (skip_blank (tl ptr1)) < length ptr1" using 2(4) skip_tl by blast
  ultimately show ?case by (simp only: in_measure comp_def fst_conv)
next
  case (3 ptr items col ptr1 plain ptr2 items' ptr3)
  have "length ptr3 \<le> length ptr" using 3(2,6,8) shrinks skip_drop by (meson le_trans)
  moreover have "length (skip_blank (tl ptr3)) < length ptr3" using 3(9) skip_tl by blast
  ultimately show ?case by (simp only: in_measure comp_def fst_conv)
qed simp

declare select_loop.simps [simp del]

text \<open>\<^verbatim>\<open>from {source}\<close> or \<^verbatim>\<open>from topic\<close>: the source, the topic and the text behind; or the text of an error.\<close>

definition parse_source :: "event_sources \<Rightarrow> tmq_str \<Rightarrow> string + (event_source_info \<times> event_type \<times> tmq_str option \<times> tmq_str)" where
  "parse_source srcs ptr =
     (if ptr \<noteq> [] \<and> hd ptr = CHR ''{'' then
        (let seg = takeWhile (\<lambda>c. \<not> isblank c \<and> c \<noteq> CHR ''}'') ptr;
             rest = dropWhile (\<lambda>c. \<not> isblank c \<and> c \<noteq> CHR ''}'') ptr
         in if rest = [] \<or> hd rest \<noteq> CHR ''}'' then Inl syntax_error
            else case map_of srcs (drop 1 seg) of
              None \<Rightarrow> Inl (''Invalid event source: '' @ drop 1 seg)
            | Some s \<Rightarrow> Inr (s, source s, None, skip_blank (tl rest)))
      else
        (case map_of srcs ''message'' of
           None \<Rightarrow> Inl ''Invalid event source: message''
         | Some s \<Rightarrow>
             Inr (s, MESSAGE, Some (takeWhile (\<lambda>c. \<not> isblank c) ptr), skip_blank (dropWhile (\<lambda>c. \<not> isblank c) ptr))))"

definition refused :: "rule_parser res \<Rightarrow> (rule_parser \<times> rule_parse_result option) res" where
  "refused r = bind r (\<lambda>ps. Inr (ps, None))"

definition parse_where :: "rule_parser \<Rightarrow> event_source_info \<Rightarrow> int \<Rightarrow> tmq_str \<Rightarrow> rule_parse_result \<Rightarrow>
    (rule_parser \<times> rule_parse_result option) res" where
  "parse_where ps src pos ptr r =
     (if ptr = [] then Inr (ps, Some r)
      else if \<not> keyword ''where '' ptr then refused (set_error_info ps pos syntax_error)
      else bind (parse_filter_expression ps src (skip_blank (drop 6 ptr)) (need_json r)) (\<lambda>(ps, j, f).
             case f of
               None \<Rightarrow> Inr (ps, None)
             | Some e \<Rightarrow> Inr (ps, Some (r\<lparr>need_json := j, result_filter := Some e\<rparr>))))"

definition tmq_rule_parse :: "event_sources \<Rightarrow> (tmq_str, plugin_handle) alist \<Rightarrow> rule_parser \<Rightarrow> tmq_str option \<Rightarrow>
    (rule_parser \<times> rule_parse_result option) res" where
  "tmq_rule_parse srcs plugins ps rl =
     (case rl of
        None \<Rightarrow> Inr (ps, None)
      | Some tx \<Rightarrow>
          let rule = cstr tx; ptr = skip_blank rule; offs = (\<lambda>p. int (length rule) - int (length p))
          in if \<not> keyword ''select '' ptr then refused (set_error_info ps (offs ptr) syntax_error)
             else case select_loop (skip_blank (drop 7 ptr)) [] of
               Inl p \<Rightarrow> refused (set_error_info ps (offs p) syntax_error)
             | Inr (items, p) \<Rightarrow>
                 (case parse_source srcs p of
                    Inl t \<Rightarrow> refused (set_error_info ps (offs p) t)
                  | Inr (src, ty, tp, q) \<Rightarrow>
                      bind (interpret_schema plugins (ps\<lparr>event_source := Some src\<rparr>) src items
                              \<lparr>mappings = [], adaptor = None, result_source = ty, source_topic = tp, result_filter = None,
                               need_json = False\<rparr>)
                        (\<lambda>(ok, ps, r).
                          if \<not> ok then Inr (ps, None)
                          else if adaptor r = None then refused (set_error_info ps (offs q) ''Adaptor is not specified'')
                          else parse_where ps src (offs q) q r)))"

section \<open>The grammar of filter expressions\<close>

text \<open>
  The reference: expressions with their parentheses. Comparisons bind tighter than \<^verbatim>\<open>&&\<close> and \<^verbatim>\<open>||\<close>, which have the same priority;
  all operators associate to the left, so that only a parenthesised expression of the same priority may stand on the right.
\<close>

datatype ast = Operand tmq_str | Binop tmq_str ast ast | Paren ast

definition binary_op :: "tmq_str \<Rightarrow> operator_info option" where
  "binary_op name = (if name \<in> set [''=='', ''>'', ''>='', ''<'', ''<='', ''&&'', ''||''] then map_of operators name else None)"

fun precedence :: "ast \<Rightarrow> nat" where
  "precedence (Binop name _ _) = priority (the (binary_op name))"
| "precedence _ = 4"

fun grammatical :: "event_source_info \<Rightarrow> ast \<Rightarrow> bool" where
  "grammatical src (Operand v) \<longleftrightarrow> v \<noteq> [] \<and> list_all operand_char v \<and> NUL \<notin> set v \<and> operand_expr src v \<noteq> None"
| "grammatical src (Binop name a b) \<longleftrightarrow> binary_op name \<noteq> None \<and> grammatical src a \<and> grammatical src b \<and>
     precedence (Binop name a b) \<le> precedence a \<and> precedence (Binop name a b) < precedence b"
| "grammatical src (Paren a) \<longleftrightarrow> grammatical src a"

fun ast_expr :: "event_source_info \<Rightarrow> ast \<Rightarrow> filter_expr" where
  "ast_expr src (Operand v) = fst (the (operand_expr src v))"
| "ast_expr src (Binop name a b) = Binary_Expr (the (binary_op name)) (ast_expr src a) (ast_expr src b)"
| "ast_expr src (Paren a) = ast_expr src a"

fun ast_json :: "event_source_info \<Rightarrow> ast \<Rightarrow> bool" where
  "ast_json src (Operand v) = snd (the (operand_expr src v))"
| "ast_json src (Binop name a b) \<longleftrightarrow> ast_json src a \<or> ast_json src b"
| "ast_json src (Paren a) = ast_json src a"

text \<open>The texts of an expression, with any blanks between its tokens.\<close>

inductive writes :: "ast \<Rightarrow> tmq_str \<Rightarrow> bool" where
  operand: "writes (Operand v) v"
| binop: "writes a s \<Longrightarrow> writes b t \<Longrightarrow> list_all isblank u \<Longrightarrow> list_all isblank w \<Longrightarrow>
    writes (Binop name a b) (s @ u @ name @ w @ t)"
| paren: "writes a s \<Longrightarrow> list_all isblank u \<Longrightarrow> list_all isblank w \<Longrightarrow> writes (Paren a) (''('' @ u @ s @ w @ '')'')"

text \<open>What may follow a token of the expression.\<close>

definition boundary :: "tmq_str \<Rightarrow> bool" where
  "boundary s \<longleftrightarrow> s = [] \<or> \<not> operand_char (hd s)"

lemma skip_blanks [simp]: "list_all isblank u \<Longrightarrow> skip_blank (u @ s) = skip_blank s"
  by (induction u) (auto simp: skip_blank_def)

lemma loop_blanks: "list_all isblank u \<Longrightarrow> filter_loop src n (u @ s) es ts j = filter_loop src n s es ts j"
  by (subst (1 2) filter_loop.simps) (simp add: Let_def)

lemma boundary_blanks: "list_all isblank u \<Longrightarrow> boundary s \<Longrightarrow> boundary (u @ s)"
  by (cases u) (auto simp: boundary_def operand_char_def)

lemma skip_nonblank [simp]: "\<not> isblank c \<Longrightarrow> skip_blank (c # s) = c # s"
  by (simp add: skip_blank_def)

lemma loop_operand:
  assumes "v \<noteq> []" and "list_all operand_char v" and "boundary s" and "operand_expr src v = Some (e, j')"
  shows "filter_loop src n (v @ s) es ts j = filter_loop src n s (e # es) ts (j' \<or> j)"
proof -
  obtain c r where v: "v = c # r" using assms(1) by (cases v) auto
  have w: "takeWhile operand_char (v @ s) = v" "dropWhile operand_char (v @ s) = s"
    using assms(2,3) by (auto simp: boundary_def list_all_iff takeWhile_append2 dropWhile_append2)
      (cases s; simp)+
  then show ?thesis using assms v
    by (subst filter_loop.simps) (simp add: Let_def is_operator_def operand_char_def)
qed

lemma loop_lparen: "filter_loop src n (CHR ''('' # s) es ts j = filter_loop src n s es (the (map_of operators ''('') # ts) j"
  by (subst filter_loop.simps)
     (simp add: Let_def is_operator_def operator_char_def isblank_def get_operator_def cstr_def operators_def
        tmq_binary_expr_new_def)

lemma loop_rparen:
  "reduce_operators 1 es ts = Inr (es', ts') \<Longrightarrow>
   filter_loop src n (CHR '')'' # s) es ts j = filter_loop src n s es' ts' j"
  by (subst filter_loop.simps)
     (cases ts; simp add: Let_def is_operator_def operator_char_def isblank_def get_operator_def cstr_def operators_def)

text \<open>What the right operand begins with.\<close>

lemma writes_head: "writes a s \<Longrightarrow> grammatical src a \<Longrightarrow> s \<noteq> [] \<and> \<not> isblank (hd s) \<and> hd s \<noteq> CHR ''=''"
  by (induction rule: writes.induct)
     (auto simp: operand_char_def operator_char_def isblank_def neq_Nil_conv)

lemma binary_expr_new_id [simp]: "tmq_binary_expr_new (expr_op p) (priority p) = p"
  by (simp add: tmq_binary_expr_new_def)

lemma loop_binop:
  assumes "binary_op name = Some p" and "reduce_operators (priority p) es ts = Inr (es', ts')"
    and "s \<noteq> []" and "hd s \<noteq> CHR ''=''"
  shows "filter_loop src n (name @ s) es ts j = filter_loop src n s es' (p # ts') j"
proof -
  have "name \<in> set [''=='', ''>'', ''>='', ''<'', ''<='', ''&&'', ''||'']" "map_of operators name = Some p"
    using assms(1) by (auto simp: binary_op_def split: if_splits)
  then have "get_operator (name @ s) = name" "is_operator (name @ s)" "skip_blank (name @ s) = name @ s" "NUL \<notin> set name"
      "hd (name @ s) \<noteq> CHR '')''" "expr_op p \<noteq> EXPR_OP_LP" "name \<noteq> []"
    using assms(3,4) by (auto simp: get_operator_def is_operator_def operator_char_def isblank_def operators_def)
  then show ?thesis using assms(2) \<open>map_of operators name = Some p\<close>
    by (subst filter_loop.simps) (cases ts; simp add: Let_def)
qed

text \<open>The operators on the stack bind less than what is read next.\<close>

definition below :: "nat \<Rightarrow> operator_info list \<Rightarrow> bool" where
  "below k ts \<longleftrightarrow> (case ts of [] \<Rightarrow> True | t # _ \<Rightarrow> priority t < k)"

lemma reduce_below: "below k ts \<Longrightarrow> reduce_operators k es ts = Inr (es, ts)"
  by (cases ts) (auto simp: below_def)

lemma below_mono: "below k ts \<Longrightarrow> k \<le> l \<Longrightarrow> below l ts"
  by (cases ts) (auto simp: below_def)

lemma binary_op_priority: "binary_op name = Some p \<Longrightarrow> priority p \<in> {2, 3} \<and> expr_op p \<noteq> EXPR_OP_LP"
  by (auto simp: binary_op_def operators_def split: if_splits)

lemma precedence_ge: "grammatical src a \<Longrightarrow> 2 \<le> precedence a"
  using binary_op_priority by (cases a) fastforce+

text \<open>
  Reading an expression leaves stacks that a later operator of at most its precedence reduces as if the tree of the expression had
  been pushed.
\<close>

lemma loop_writes:
  assumes "writes a s" and "grammatical src a" and "below (precedence a) ts"
  shows "\<exists>es' ts'. (\<forall>r n j. boundary r \<longrightarrow>
             filter_loop src n (s @ r) es ts j = filter_loop src n r es' ts' (ast_json src a \<or> j)) \<and>
           (\<forall>p \<le> precedence a. reduce_operators p es' ts' = reduce_operators p (ast_expr src a # es) ts)"
  using assms
proof (induction arbitrary: es ts rule: writes.induct)
  case (operand v)
  then obtain e j' where "operand_expr src v = Some (e, j')" by auto
  then show ?case using operand loop_operand [of v] by (intro exI [of _ "e # es"] exI [of _ ts]) auto
next
  case (binop a s b t u w name)
  obtain p where p: "binary_op name = Some p" using binop.prems by auto
  have g: "grammatical src a" "grammatical src b" "priority p \<le> precedence a" "priority p < precedence b"
    using binop.prems p by auto
  have bp: "below (priority p) ts" using binop.prems p by simp
  obtain es1 ts1 where 1: "\<And>r n j. boundary r \<Longrightarrow>
        filter_loop src n (s @ r) es ts j = filter_loop src n r es1 ts1 (ast_json src a \<or> j)"
      "\<And>q. q \<le> precedence a \<Longrightarrow> reduce_operators q es1 ts1 = reduce_operators q (ast_expr src a # es) ts"
    using binop.IH(1) [OF g(1) below_mono [OF bp g(3)]] by metis
  have r1: "reduce_operators (priority p) es1 ts1 = Inr (ast_expr src a # es, ts)"
    using 1(2) [OF g(3)] reduce_below [OF bp] by simp
  have "below (precedence b) (p # ts)" using g(4) by (simp add: below_def)
  from binop.IH(2) [OF g(2) this] obtain es2 ts2 where 2: "\<And>r n j. boundary r \<Longrightarrow>
        filter_loop src n (t @ r) (ast_expr src a # es) (p # ts) j = filter_loop src n r es2 ts2 (ast_json src b \<or> j)"
      "\<And>q. q \<le> precedence b \<Longrightarrow>
        reduce_operators q es2 ts2 = reduce_operators q (ast_expr src b # ast_expr src a # es) (p # ts)"
    by metis
  have head: "t \<noteq> []" "\<not> isblank (hd t)" "hd t \<noteq> CHR ''=''" using writes_head [OF binop.hyps(2) g(2)] by auto
  have nm: "name \<noteq> []" "operator_char (hd name)"
    using p by (auto simp: binary_op_def operator_char_def split: if_splits)
  have "filter_loop src n ((s @ u @ name @ w @ t) @ r) es ts j = filter_loop src n r es2 ts2 (ast_json src (Binop name a b) \<or> j)"
    if "boundary r" for r n j
  proof -
    have b: "boundary (u @ name @ w @ t @ r)"
      by (rule boundary_blanks [OF binop.hyps(3)]) (use nm in \<open>simp add: boundary_def operand_char_def\<close>)
    have h: "w @ t @ r \<noteq> []" "hd (w @ t @ r) \<noteq> CHR ''=''"
      using head binop.hyps(4) by (cases w; auto simp: isblank_def)+
    show ?thesis
      using 1(1) [OF b] loop_binop [OF p r1 h] 2(1) [OF that] binop.hyps(3,4)
      by (simp add: loop_blanks disj_ac)
  qed
  moreover have "reduce_operators q es2 ts2 = reduce_operators q (ast_expr src (Binop name a b) # es) ts"
    if "q \<le> precedence (Binop name a b)" for q
    using that p g(4) 2(2) binary_op_priority [OF p] by simp
  ultimately show ?case by blast
next
  case (paren a s u w)
  let ?lp = "the (map_of operators ''('')"
  have lp: "priority ?lp = 1" "expr_op ?lp = EXPR_OP_LP" by (simp_all add: operators_def)
  have g: "grammatical src a" using paren.prems by simp
  have "below (precedence a) (?lp # ts)" using precedence_ge [OF g] lp by (simp add: below_def)
  from paren.IH [OF g this] obtain es1 ts1 where 1: "\<And>r n j. boundary r \<Longrightarrow>
        filter_loop src n (s @ r) es (?lp # ts) j = filter_loop src n r es1 ts1 (ast_json src a \<or> j)"
      "\<And>q. q \<le> precedence a \<Longrightarrow> reduce_operators q es1 ts1 = reduce_operators q (ast_expr src a # es) (?lp # ts)"
    by metis
  have r1: "reduce_operators 1 es1 ts1 = Inr (ast_expr src a # es, ts)"
    using 1(2) [of 1] precedence_ge [OF g] lp by simp
  have "filter_loop src n ((''('' @ u @ s @ w @ '')'') @ r) es ts j =
      filter_loop src n r (ast_expr src a # es) ts (ast_json src a \<or> j)" for r n j
  proof -
    have b: "boundary (w @ CHR '')'' # r)"
      by (rule boundary_blanks [OF paren.hyps(3)]) (simp add: boundary_def operand_char_def operator_char_def)
    show ?thesis
      using 1(1) [OF b] loop_rparen [OF r1] paren.hyps(2,3) by (simp add: loop_lparen loop_blanks)
  qed
  then show ?case by (intro exI [of _ "ast_expr src a # es"] exI [of _ ts]) simp
qed

lemma loop_end: "reduce_operators 0 es ts = Inr (es', ts') \<Longrightarrow> filter_loop src n [] es ts j = Inr (Filter_Done es' j)"
  by (subst filter_loop.simps) (cases ts; simp add: Let_def skip_blank_def get_operator_def cstr_def operators_def)

text \<open>
  C37. The stack parser of filter expressions agrees with their grammar: for every expression, written with any blanks between its
  tokens, it returns the tree of the expression, with comparisons below logical operators, grouped to the left and by parentheses. It
  notices whether a field of the payload occurs, and leaves the parser's error alone.
\<close>

theorem filter_parser_agrees_with_grammar:
  assumes "grammatical src a" and "writes a s" and "list_all isblank u" and "list_all isblank w"
  shows "parse_filter_expression ps src (u @ s @ w) j = Inr (ps, ast_json src a \<or> j, Some (ast_expr src a))"
proof -
  have "below (precedence a) []" by (simp add: below_def)
  from loop_writes [OF assms(2,1) this] obtain es' ts' where l: "\<And>r n j. boundary r \<Longrightarrow>
        filter_loop src n (s @ r) [] [] j = filter_loop src n r es' ts' (ast_json src a \<or> j)"
      "reduce_operators 0 es' ts' = reduce_operators 0 [ast_expr src a] []"
    by (metis le0)
  have "boundary w" using boundary_blanks [OF assms(4), of "[]"] by (simp add: boundary_def)
  then have "filter_loop src n (u @ s @ w) [] [] j = filter_loop src n [] es' ts' (ast_json src a \<or> j)" for n
    using l(1) loop_blanks [OF assms(3)] loop_blanks [OF assms(4), of src n "[]"] by simp
  then show ?thesis using loop_end l(2) by (simp add: parse_filter_expression_def)
qed

definition example_source :: event_source_info where
  "example_source = snd (tmq_event_sources_init ! 3)"

definition example_ast :: ast where
  "example_ast =
     Binop ''&&'' (Binop ''=='' (Operand ''qos'') (Operand ''1''))
       (Paren (Binop ''||'' (Operand ''payload.on'') (Binop ''>='' (Operand ''client_id'') (Operand ''m''))))"

lemma example_writes: "writes example_ast ''qos==1 && (payload.on || client_id >= m)''"
proof -
  have "writes example_ast ((''qos'' @ [] @ ''=='' @ [] @ ''1'') @ '' '' @ ''&&'' @ '' '' @
      ''('' @ [] @ (''payload.on'' @ '' '' @ ''||'' @ '' '' @ (''client_id'' @ '' '' @ ''>='' @ '' '' @ ''m'')) @ [] @ '')'')"
    unfolding example_ast_def by (intro writes.intros) (simp_all add: isblank_def)
  then show ?thesis by simp
qed

theorem filter_parser_agrees_with_grammar_witness:
  "parse_filter_expression tmq_rule_parser_init example_source ''  qos==1 && (payload.on || client_id >= m) '' False =
     Inr (tmq_rule_parser_init, True, Some (ast_expr example_source example_ast))"
proof -
  have "grammatical example_source example_ast" "ast_json example_source example_ast" by code_simp+
  then show ?thesis
    using filter_parser_agrees_with_grammar [OF _ example_writes, of example_source "''  ''" "'' ''" tmq_rule_parser_init False]
    by (simp add: isblank_def)
qed

section \<open>Accepted rules are over the fields of their source\<close>

lemma value_new_over: "map_of (fields_meta src) k = Some m \<Longrightarrow> expr_over src (tmq_value_expr_new m f)"
  by (force simp: tmq_value_expr_new_def dest: map_of_SomeD)

lemma const_new_over: "expr_over src (tmq_const_expr_new v)"
  by (simp add: tmq_const_expr_new_def split: option.splits)

lemma operand_over: "operand_expr src v = Some (e, j) \<Longrightarrow> expr_over src e"
  by (auto simp: operand_expr_def value_new_over const_new_over split: if_splits option.splits)

lemma reduce_over:
  "reduce_operators p es ts = Inr (es', ts') \<Longrightarrow> list_all (expr_over src) es \<Longrightarrow> list_all (expr_over src) es'"
  by (induction p es ts rule: reduce_operators.induct) (auto split: if_splits list.splits)

lemma loop_over:
  "filter_loop src n s es ts j = Inr (Filter_Done es' j') \<Longrightarrow> list_all (expr_over src) es \<Longrightarrow> list_all (expr_over src) es'"
proof (induction src n s es ts j rule: filter_loop.induct)
  case (1 src n s es ts j)
  let ?p = "skip_blank s"
  show ?case
  proof (cases "?p = [] \<or> is_operator ?p")
    case True
    from 1(3) True obtain opr es1 ts1 where o: "map_of operators (cstr (get_operator ?p)) = Some opr"
      and r: "(if ts \<noteq> [] \<and> expr_op opr \<noteq> EXPR_OP_LP then reduce_operators (priority opr) es ts else Inr (es, ts)) = Inr (es1, ts1)"
      and e: "(if ?p = [] then Inr (Filter_Done es1 j)
                 else filter_loop src n (drop (length (get_operator ?p)) ?p) es1
                        (if hd ?p \<noteq> CHR '')'' then tmq_binary_expr_new (expr_op opr) (priority opr) # ts1 else ts1) j)
               = Inr (Filter_Done es' j')"
      by (subst (asm) filter_loop.simps) (auto simp: Let_def bind_eq_Inr split: option.splits)
    have "list_all (expr_over src) es1" using r reduce_over 1(4) by (auto split: if_splits)
    then show ?thesis using e 1(1) [OF refl True o] by (auto split: if_splits)
  next
    case False
    from 1(3) False obtain e k where "operand_expr src (takeWhile operand_char ?p) = Some (e, k)"
        "filter_loop src n (dropWhile operand_char ?p) (e # es) ts (k \<or> j) = Inr (Filter_Done es' j')"
      by (subst (asm) filter_loop.simps) (auto simp: Let_def split: option.splits)
    then show ?thesis using 1(2) [OF refl False] 1(4) operand_over by simp
  qed
qed

lemma filter_over:
  "parse_filter_expression ps src s j = Inr (ps', j', Some e) \<Longrightarrow> expr_over src e"
  using loop_over [of src "int (length s)" s "[]" "[]" j]
  by (cases "filter_loop src (int (length s)) s [] [] j")
     (auto simp: parse_filter_expression_def bind_eq_Inr split: filter_state.splits list.splits)

lemma column_over: "column_value src c = Inr (Inr (e, ty, js)) \<Longrightarrow> expr_over src e"
  by (auto simp: column_value_def Let_def value_new_over const_new_over split: if_splits option.splits)

definition result_over :: "event_source_info \<Rightarrow> rule_parse_result \<Rightarrow> bool" where
  "result_over src r \<longleftrightarrow> result_source r = source src \<and> list_all (expr_over src \<circ> value_expr) (mappings r) \<and>
     (case result_filter r of None \<Rightarrow> True | Some e \<Rightarrow> expr_over src e)"

lemma filter_keeps_parser: "parse_filter_expression ps src s j = Inr (ps', j', Some e) \<Longrightarrow> ps' = ps"
  by (cases "filter_loop src (int (length s)) s [] [] j")
     (auto simp: parse_filter_expression_def bind_eq_Inr split: filter_state.splits list.splits)

lemma where_keeps_parser: "parse_where ps src pos p r = Inr (ps', Some r') \<Longrightarrow> ps' = ps"
  by (auto simp: parse_where_def refused_def bind_eq_Inr dest: filter_keeps_parser split: if_splits option.splits)

lemma schema_over:
  "interpret_schema plugins ps src items r = Inr (ok, ps', r') \<Longrightarrow> result_over src r \<Longrightarrow>
   result_over src r' \<and> source_topic r' = source_topic r \<and> result_filter r' = result_filter r \<and> (ok \<longrightarrow> ps' = ps)"
proof (induction items arbitrary: r)
  case (Cons it items)
  let ?v = "column_value src (source_col it)" and ?t = "column_target plugins (target_col it)"
  consider (fine) e ty js ad par name where "?v = Inr (Inr (e, ty, js))" "?t = Inr (Inr (ad, par, name))"
    | (bad) "\<exists>t. ?v = Inr (Inl t)" | (stop) "\<exists>f. ?v = Inl f" | (bad_t) "\<exists>t. ?t = Inr (Inl t)" | (stop_t) "\<exists>f. ?t = Inl f"
    by (cases ?v; cases ?t; metis obj_sumE prod_cases3)
  then show ?case
  proof cases
    case fine
    then show ?thesis using Cons.prems column_over [OF fine(1)]
      by simp (drule Cons.IH, auto simp: result_over_def)
  next
    case stop
    then obtain f where "?v = Inl f" ..
    then show ?thesis using Cons.prems by (cases ?t) (auto simp: bind_eq_Inr split: sum.splits)
  next
    case bad_t
    then obtain t where "?t = Inr (Inl t)" ..
    then show ?thesis using Cons.prems by (cases ?v; cases "set_error_info ps 0 t") (auto simp: bind_eq_Inr split: sum.splits)
  next
    case stop_t
    then obtain f where "?t = Inl f" ..
    then show ?thesis using Cons.prems by (cases ?v) (auto simp: bind_eq_Inr split: sum.splits)
  qed (use Cons.prems in \<open>auto simp: bind_eq_Inr\<close>)
qed simp

lemma source_over:
  "parse_source tmq_event_sources_init p = Inr (src, ty, tp, q) \<Longrightarrow>
   src \<in> snd ` set tmq_event_sources_init \<and> ty = source src \<and> (tp = None \<or> ty = MESSAGE)"
proof -
  have m: "map_of tmq_event_sources_init ''message'' = Some (snd (tmq_event_sources_init ! 3)) \<and>
      source (snd (tmq_event_sources_init ! 3)) = MESSAGE" by (simp add: sources_eq)
  assume "parse_source tmq_event_sources_init p = Inr (src, ty, tp, q)"
  then show ?thesis using m
    by (auto simp: parse_source_def Let_def image_iff dest!: map_of_SomeD split: if_splits option.splits)
       (metis snd_conv)+
qed

lemma where_over:
  "parse_where ps src pos p r = Inr (ps', Some r') \<Longrightarrow> result_over src r \<Longrightarrow> result_over src r' \<and> adaptor r' = adaptor r"
  by (auto simp: parse_where_def refused_def bind_eq_Inr result_over_def dest: filter_over split: if_splits option.splits)

lemma parse_over:
  assumes "tmq_rule_parse tmq_event_sources_init plugins ps rule = Inr (ps', Some r)"
  shows "\<exists>src. src \<in> snd ` set tmq_event_sources_init \<and> result_over src r \<and> adaptor r \<noteq> None \<and>
    ps' = ps\<lparr>event_source := Some src\<rparr>"
proof -
  from assms obtain items src ty tp p q pos ps1 r1 where
    s: "parse_source tmq_event_sources_init p = Inr (src, ty, tp, q)" and
    i: "interpret_schema plugins (ps\<lparr>event_source := Some src\<rparr>) src items
          \<lparr>mappings = [], adaptor = None, result_source = ty, source_topic = tp, result_filter = None, need_json = False\<rparr>
        = Inr (True, ps1, r1)" and
    w: "parse_where ps1 src pos q r1 = Inr (ps', Some r)" and a: "adaptor r1 \<noteq> None"
    by (auto simp: tmq_rule_parse_def Let_def refused_def bind_eq_Inr split: option.splits if_splits sum.splits)
  have "result_over src r1" "ps1 = ps\<lparr>event_source := Some src\<rparr>"
    using schema_over [OF i] source_over [OF s] by (simp_all add: result_over_def)
  then show ?thesis using where_over [OF w] where_keeps_parser [OF w] source_over [OF s] a by auto
qed

end
