(* ===== verification/Topic_Tree.thy ===== *)
theory Topic_Tree
  imports Dict
begin

text \<open>
  The topic tree of \<^verbatim>\<open>mqtt/mqtt_topic.c\<close>: subscriptions, event listeners, cluster routes and retained
  messages are stored under the levels of their topic filter, and publishing walks the tree. A node
  is the datatype \<open>topic_node\<close> with the fields of \<^verbatim>\<open>topic_tree_node_t\<close>; the level name is the key
  under which the parent holds the node, and parent pointers are the path from the root. The child
  and subscriber tables are association lists (the interface \<open>dict\<close>; their order, which depends on
  the hash function in the source, is never observed by the theorems). The back pointer of the cluster's
  route table (\<^verbatim>\<open>route_table_item\<close>) is not part of a node. Topics and filters are C
  strings.

  Callbacks into the broker (\<^verbatim>\<open>client_on_match\<close>, the rule engine's listeners, \<^verbatim>\<open>route_on_match\<close>) are
  events of the result. The specification is the matching of levels \<open>filter_matches\<close> and the
  abstract table \<open>subs_at\<close> from filters to subscribers.
\<close>

record mqtt_message =
  message :: tmq_str
  msg_qos :: u8

record retain_message =
  retain_msg :: mqtt_message
  retain_topic :: tmq_str

record subscribe_info =
  sub_session :: nat
  sub_qos :: u8
  is_session_closed :: bool

type_synonym subscribe_map = "(tmq_str, subscribe_info) alist"

record event_listener =
  listener_id :: nat
  need_json_payload :: bool

datatype topic_node = Topic_Node
  (children: "(tmq_str \<times> topic_node) list")
  (subscribers: "subscribe_map option")
  (listeners: "event_listener list")
  (subscribe_members: "tmq_str list")
  (node_retain: "retain_message option")

record publish_req =
  req_topic :: tmq_str
  req_message :: mqtt_message
  req_retain :: bool
  is_tunneled_pub :: bool
  publisher_username :: tmq_str
  publisher_client_id :: tmq_str

text \<open>The data of a publish event for the rule engine; the parsed payload is represented by its text.\<close>

record pub_event_data =
  ev_username :: tmq_str
  ev_client_id :: tmq_str
  ev_qos :: u8
  ev_retain :: bool
  payload_as_json :: "tmq_str option"

section \<open>Splitting a topic into levels\<close>

function tmq_topic_split :: "string \<Rightarrow> string list" where
  "tmq_topic_split s =
     (let level = takeWhile (\<lambda>c. c \<noteq> CHR ''/'') s
      in case dropWhile (\<lambda>c. c \<noteq> CHR ''/'') s of
           [] \<Rightarrow> [level]
         | _ # rest \<Rightarrow> level # (if rest = [] then [''''] else tmq_topic_split rest))"
  by pat_completeness auto
termination
proof (relation "measure length")
  fix s :: string and x21 x22
  assume "dropWhile (\<lambda>c. c \<noteq> CHR ''/'') s = x21 # x22"
  then have "length (x21 # x22) \<le> length s" by (metis length_dropWhile_le)
  then show "(x22, s) \<in> measure length" by simp
qed simp

declare tmq_topic_split.simps [simp del]

section \<open>Building the tree\<close>

definition topic_tree_node_new :: topic_node where
  "topic_tree_node_new = Topic_Node [] None [] [] None"

definition set_child :: "topic_node \<Rightarrow> tmq_str \<Rightarrow> topic_node \<Rightarrow> topic_node" where
  "set_child n l c =
     Topic_Node (al_put (children n) l c) (subscribers n) (listeners n) (subscribe_members n) (node_retain n)"

definition erase_child :: "topic_node \<Rightarrow> tmq_str \<Rightarrow> topic_node" where
  "erase_child n l =
     Topic_Node (al_erase (children n) l) (subscribers n) (listeners n) (subscribe_members n) (node_retain n)"

definition set_subscribers :: "subscribe_map option \<Rightarrow> topic_node \<Rightarrow> topic_node" where
  "set_subscribers m n = Topic_Node (children n) m (listeners n) (subscribe_members n) (node_retain n)"

definition set_retain :: "retain_message \<Rightarrow> topic_node \<Rightarrow> topic_node" where
  "set_retain r n = Topic_Node (children n) (subscribers n) (listeners n) (subscribe_members n) (Some r)"

text \<open>
  \<^verbatim>\<open>find_or_create(cur, level, create)\<close>: the child at a level, new if it does not exist.
\<close>

definition find_or_create :: "topic_node \<Rightarrow> tmq_str \<Rightarrow> topic_node" where
  "find_or_create n l = (case map_of (children n) l of Some c \<Rightarrow> c | None \<Rightarrow> topic_tree_node_new)"

text \<open>
  \<^verbatim>\<open>add_topic_or_find(topics, filter, add, path)\<close> walks the levels of the filter. With \<^verbatim>\<open>add\<close> set it
  creates what is missing, and the caller then changes the node it returns: \<open>add_topic f\<close> does both,
  \<open>f\<close> being the change. Without \<^verbatim>\<open>add\<close> it is the lookup \<open>find_topic\<close>.
\<close>

fun add_topic :: "(topic_node \<Rightarrow> topic_node) \<Rightarrow> tmq_str list \<Rightarrow> topic_node \<Rightarrow> topic_node" where
  "add_topic f [] n = f n"
| "add_topic f (l # ls) n = set_child n l (add_topic f ls (find_or_create n l))"

fun find_topic :: "topic_node \<Rightarrow> tmq_str list \<Rightarrow> topic_node option" where
  "find_topic n [] = Some n"
| "find_topic n (l # ls) =
     (case map_of (children n) l of None \<Rightarrow> None | Some c \<Rightarrow> find_topic c ls)"

section \<open>Retained messages\<close>

abbreviation PLUS :: tmq_str where "PLUS \<equiv> ''+''"
abbreviation HASH :: tmq_str where "HASH \<equiv> ''#''"

definition wildcard :: "tmq_str \<Rightarrow> bool" where
  "wildcard l \<longleftrightarrow> l = PLUS \<or> l = HASH"

definition retain_list :: "topic_node \<Rightarrow> retain_message list" where
  "retain_list n = (case node_retain n of None \<Rightarrow> [] | Some r \<Rightarrow> [r])"

function get_all_retain :: "topic_node \<Rightarrow> retain_message list" where
  "get_all_retain n =
     retain_list n @
     concat (map (\<lambda>(l, c). if wildcard l then [] else get_all_retain c) (children n))"
  by pat_completeness auto
termination
proof (relation "measure size")
  fix n :: topic_node and x l c
  assume "x \<in> set (children n)" "(l, c) = x"
  then have "(l, c) \<in> set (children n)" by simp
  then have "size_prod (\<lambda>_. 0) size (l, c) \<le> size_list (size_prod (\<lambda>_. 0) size) (children n)"
    by (rule size_list_estimation') simp
  then show "(c, n) \<in> measure size" by (cases n) simp
qed simp

declare get_all_retain.simps [simp del]

fun find_retain_messages :: "topic_node \<Rightarrow> tmq_str list \<Rightarrow> retain_message list" where
  "find_retain_messages n [] = retain_list n"
| "find_retain_messages n (l # ls) =
     (if l = PLUS then
        concat (map (\<lambda>(l, c). if wildcard l then [] else find_retain_messages c ls) (children n))
      else if l = HASH then get_all_retain n
      else (case map_of (children n) l of None \<Rightarrow> [] | Some c \<Rightarrow> find_retain_messages c ls))"

text \<open>
  The search for retained messages on subscription: first down the literal levels of the path just
  created, then \<open>find_retain_messages\<close> from the first wildcard on.
\<close>

fun retain_from_path :: "topic_node \<Rightarrow> tmq_str list \<Rightarrow> retain_message list" where
  "retain_from_path n [] = retain_list n"
| "retain_from_path n (l # ls) =
     (if wildcard l then find_retain_messages n (l # ls)
      else (case map_of (children n) l of None \<Rightarrow> [] | Some c \<Rightarrow> retain_from_path c ls))"

section \<open>Subscriptions, listeners and routes\<close>

definition add_subscriber :: "tmq_str \<Rightarrow> subscribe_info \<Rightarrow> topic_node \<Rightarrow> topic_node" where
  "add_subscriber cid info n =
     set_subscribers (Some (al_put (case subscribers n of None \<Rightarrow> [] | Some m \<Rightarrow> m) (cstr cid) info)) n"

text \<open>
  The result: the retained messages, the out-parameter \<^verbatim>\<open>topic_exist\<close> (not written for an empty
  filter), and the tree.
\<close>

definition tmq_topics_add_subscription ::
    "topic_node \<Rightarrow> tmq_str \<Rightarrow> tmq_str \<Rightarrow> subscribe_info \<Rightarrow> retain_message list \<times> bool option \<times> topic_node" where
  "tmq_topics_add_subscription root tf cid info =
     (if cstr tf = [] then ([], None, root)
      else
        let levels = tmq_topic_split (cstr tf);
            topic_exist = (case find_topic root levels of Some n \<Rightarrow> subscribers n \<noteq> None | None \<Rightarrow> False);
            root' = add_topic (add_subscriber cid info) levels root
        in (retain_from_path root' levels, Some topic_exist, root'))"

definition tmq_topics_add_listener :: "topic_node \<Rightarrow> tmq_str \<Rightarrow> event_listener \<Rightarrow> topic_node" where
  "tmq_topics_add_listener root tf li =
     add_topic (\<lambda>n. Topic_Node (children n) (subscribers n) (li # listeners n) (subscribe_members n) (node_retain n))
       (tmq_topic_split (cstr tf)) root"

definition tmq_topics_add_route :: "topic_node \<Rightarrow> tmq_str \<Rightarrow> tmq_str \<Rightarrow> topic_node" where
  "tmq_topics_add_route root tf addr =
     add_topic (\<lambda>n. Topic_Node (children n) (subscribers n) (listeners n) (addr # subscribe_members n) (node_retain n))
       (tmq_topic_split (cstr tf)) root"

text \<open>
  \<^verbatim>\<open>try_remove_topic\<close> climbs from the changed node towards the root as long as the node has no
  subscribers, no children and no retained message. Along the path this removes exactly the nodes
  that satisfy the test when their child's turn is over: a node whose child stays has a child.
\<close>

definition removable :: "topic_node \<Rightarrow> bool" where
  "removable n \<longleftrightarrow> subscribers n = None \<and> children n = [] \<and> node_retain n = None"

fun remove_path :: "(topic_node \<Rightarrow> topic_node) \<Rightarrow> tmq_str list \<Rightarrow> topic_node \<Rightarrow> topic_node" where
  "remove_path f [] n = f n"
| "remove_path f (l # ls) n =
     (case map_of (children n) l of
        None \<Rightarrow> n
      | Some c \<Rightarrow>
          let c' = remove_path f ls c
          in if removable c' then erase_child n l else set_child n l c')"

definition drop_subscriber :: "tmq_str \<Rightarrow> subscribe_map \<Rightarrow> topic_node \<Rightarrow> topic_node" where
  "drop_subscriber cid m n =
     (let m' = al_erase m (cstr cid) in set_subscribers (if m' = [] then None else Some m') n)"

definition tmq_topics_remove_subscription ::
    "topic_node \<Rightarrow> tmq_str \<Rightarrow> tmq_str \<Rightarrow> topic_node res" where
  "tmq_topics_remove_subscription root tf cid =
     (let levels = tmq_topic_split (cstr tf)
      in case find_topic root levels of
           None \<Rightarrow> Inr root
         | Some n \<Rightarrow>
             (case subscribers n of
                None \<Rightarrow> Inl Null_Deref
              | Some m \<Rightarrow> Inr (remove_path (drop_subscriber cid m) levels root)))"

section \<open>Publishing\<close>

datatype topic_event =
    Trigger event_listener pub_event_data
  | Client_Match subscribe_map
  | Member_Match tmq_str

text \<open>
  \<^verbatim>\<open>trigger_event\<close> skips a listener that wants a JSON payload when \<^verbatim>\<open>cJSON_Parse\<close> rejects the message;
  the parser is the argument \<open>json_ok\<close>.
\<close>

definition pub_event :: "publish_req \<Rightarrow> event_listener \<Rightarrow> pub_event_data" where
  "pub_event req l =
     \<lparr>ev_username = publisher_username req, ev_client_id = publisher_client_id req,
      ev_qos = msg_qos (req_message req), ev_retain = req_retain req,
      payload_as_json = (if need_json_payload l then Some (cstr (message (req_message req))) else None)\<rparr>"

definition trigger_event :: "(tmq_str \<Rightarrow> bool) \<Rightarrow> publish_req \<Rightarrow> topic_node \<Rightarrow> topic_event list" where
  "trigger_event json_ok req n =
     map (\<lambda>l. Trigger l (pub_event req l))
       (filter (\<lambda>l. need_json_payload l \<longrightarrow> json_ok (cstr (message (req_message req)))) (listeners n))"

definition visit :: "(tmq_str \<Rightarrow> bool) \<Rightarrow> publish_req \<Rightarrow> topic_node \<Rightarrow> topic_event list" where
  "visit json_ok req n =
     (if is_tunneled_pub req then [] else trigger_event json_ok req n)
     @ (case subscribers n of None \<Rightarrow> [] | Some m \<Rightarrow> [Client_Match m])
     @ map Member_Match (subscribe_members n)"

definition retain_of :: "publish_req \<Rightarrow> retain_message" where
  "retain_of req =
     \<lparr>retain_msg = \<lparr>message = cstr (message (req_message req)), msg_qos = msg_qos (req_message req)\<rparr>,
      retain_topic = cstr (req_topic req)\<rparr>"

text \<open>
  \<^verbatim>\<open>match\<close>: the remaining levels \<open>ls\<close> stand for the index \<open>n\<close> into the level vector. The node is
  returned because a retained message is stored during the walk, creating the missing levels.
\<close>

fun topic_match :: "(tmq_str \<Rightarrow> bool) \<Rightarrow> publish_req \<Rightarrow> bool \<Rightarrow> bool \<Rightarrow> tmq_str list \<Rightarrow> topic_node \<Rightarrow>
    topic_event list \<times> topic_node" where
  "topic_match json_ok req multi retain [] n =
     (let n' = (if retain then set_retain (retain_of req) n else n)
      in (visit json_ok req n @
          (case map_of (children n) HASH of None \<Rightarrow> [] | Some c \<Rightarrow> visit json_ok req c), n'))"
| "topic_match json_ok req multi retain (l # ls) n =
     (if multi then (visit json_ok req n, n)
      else
        let (ev1, n1) =
              (case map_of (children n) l of
                 Some c \<Rightarrow> (let (ev, c') = topic_match json_ok req False retain ls c in (ev, set_child n l c'))
               | None \<Rightarrow>
                   if retain then
                     (let (ev, c') = topic_match json_ok req False retain ls topic_tree_node_new
                      in (ev, set_child n l c'))
                   else ([], n));
            (ev2, n2) =
              (case map_of (children n1) PLUS of
                 Some c \<Rightarrow> (let (ev, c') = topic_match json_ok req False False ls c in (ev, set_child n1 PLUS c'))
               | None \<Rightarrow> ([], n1));
            (ev3, n3) =
              (case map_of (children n2) HASH of
                 Some c \<Rightarrow> (let (ev, c') = topic_match json_ok req True False ls c in (ev, set_child n2 HASH c'))
               | None \<Rightarrow> ([], n2))
        in (ev1 @ ev2 @ ev3, n3))"

text \<open>The addresses collected in \<^verbatim>\<open>matched_members\<close>, a map and so without repetition.\<close>

fun matched_members :: "topic_event list \<Rightarrow> (tmq_str, int) alist \<Rightarrow> (tmq_str, int) alist" where
  "matched_members [] m = m"
| "matched_members (Member_Match a # evs) m = matched_members evs (al_put m a 1)"
| "matched_members (_ # evs) m = matched_members evs m"

definition tmq_topics_publish :: "(tmq_str \<Rightarrow> bool) \<Rightarrow> topic_node \<Rightarrow> publish_req \<Rightarrow>
    topic_event list \<times> (tmq_str, int) alist option \<times> topic_node" where
  "tmq_topics_publish json_ok root req =
     (let (evs, root') = topic_match json_ok req False (req_retain req) (tmq_topic_split (cstr (req_topic req))) root;
          members = matched_members evs []
      in (evs, if members \<noteq> [] \<and> \<not> is_tunneled_pub req then Some members else None, root'))"

section \<open>Levels\<close>

lemma split_ne [simp]: "tmq_topic_split s \<noteq> []"
  by (subst tmq_topic_split.simps) (simp add: Let_def split: list.splits)

fun join :: "string list \<Rightarrow> string" where
  "join [] = []"
| "join [l] = l"
| "join (l # ls) = l @ ''/'' @ join ls"

lemma join_Cons: "ls \<noteq> [] \<Longrightarrow> join (l # ls) = l @ ''/'' @ join ls"
  by (cases ls) auto

lemma join_split: "join (tmq_topic_split s) = s"
proof (induction s rule: tmq_topic_split.induct)
  case (1 s)
  let ?l = "takeWhile (\<lambda>c. c \<noteq> CHR ''/'') s"
  show ?case
  proof (cases "dropWhile (\<lambda>c. c \<noteq> CHR ''/'') s")
    case Nil
    then have "?l = s" by (metis append_Nil2 takeWhile_dropWhile_id)
    then show ?thesis using Nil by (subst tmq_topic_split.simps) (simp only: Let_def list.case join.simps)
  next
    case (Cons c rest)
    have c: "c = CHR ''/''" using Cons hd_dropWhile [of "\<lambda>c. c \<noteq> CHR ''/''" s] by auto
    have s: "s = ?l @ c # rest" using Cons by (metis takeWhile_dropWhile_id)
    have "join (tmq_topic_split s) = ?l @ ''/'' @ rest"
    proof (cases "rest = []")
      case True
      then show ?thesis using Cons by (subst tmq_topic_split.simps) simp
    next
      case False
      then have "join (tmq_topic_split rest) = rest"
        using "1.IH" [OF refl Cons] by simp
      then show ?thesis using Cons False
        by (subst tmq_topic_split.simps) (simp add: join_Cons)
    qed
    then show ?thesis using s c by simp
  qed
qed

lemma split_no_slash: "l \<in> set (tmq_topic_split s) \<Longrightarrow> CHR ''/'' \<notin> set l"
proof (induction s rule: tmq_topic_split.induct)
  case (1 s)
  then show ?case
    by (subst (asm) (2) tmq_topic_split.simps)
       (auto simp: Let_def dest: set_takeWhileD split: list.splits if_splits)
qed

section \<open>Looking up a field along a path\<close>

definition node_at :: "topic_node \<Rightarrow> tmq_str list \<Rightarrow> topic_node" where
  "node_at n p = (case find_topic n p of None \<Rightarrow> topic_tree_node_new | Some m \<Rightarrow> m)"

lemma node_at_simps [simp]:
  "node_at n [] = n"
  "node_at n (l # ls) = node_at (find_or_create n l) ls"
  "find_topic topic_tree_node_new (l # ls) = None"
  "find_or_create topic_tree_node_new l = topic_tree_node_new"
  by (auto simp: node_at_def find_or_create_def topic_tree_node_new_def split: option.splits)
     (cases ls; simp)

lemma node_at_new [simp]: "node_at topic_tree_node_new ls = topic_tree_node_new"
  by (cases ls) (simp_all add: node_at_def topic_tree_node_new_def)

lemma fields_set_child [simp]:
  "children (set_child n l c) = al_put (children n) l c"
  "subscribers (set_child n l c) = subscribers n"
  "listeners (set_child n l c) = listeners n"
  "subscribe_members (set_child n l c) = subscribe_members n"
  "node_retain (set_child n l c) = node_retain n"
  by (simp_all add: set_child_def)

lemma fields_erase_child [simp]:
  "children (erase_child n l) = al_erase (children n) l"
  "subscribers (erase_child n l) = subscribers n"
  "listeners (erase_child n l) = listeners n"
  "subscribe_members (erase_child n l) = subscribe_members n"
  "node_retain (erase_child n l) = node_retain n"
  by (simp_all add: erase_child_def)

lemma find_or_create_set_child [simp]:
  "find_or_create (set_child n l c) l' = (if l' = l then c else find_or_create n l')"
  by (simp add: find_or_create_def map_of_al_put)

lemma find_or_create_erase_child [simp]:
  "find_or_create (erase_child n l) l' = (if l' = l then topic_tree_node_new else find_or_create n l')"
  by (simp add: find_or_create_def map_of_al_erase)

lemma find_or_create_children: "children n = children m \<Longrightarrow> find_or_create n = find_or_create m"
  by (rule ext) (simp add: find_or_create_def)

text \<open>
  A field of the node at every path, after a change of one node. \<open>own g\<close>: the field does not depend
  on the children.
\<close>

definition own :: "(topic_node \<Rightarrow> 'a) \<Rightarrow> bool" where
  "own g \<longleftrightarrow> (\<forall>n l c. g (set_child n l c) = g n \<and> g (erase_child n l) = g n)"

lemma own_fields:
  "own subscribers" "own listeners" "own subscribe_members" "own node_retain"
  by (simp_all add: own_def)

lemma field_add_topic:
  assumes "own g" and "\<And>n. children (f n) = children n"
  shows "g (node_at (add_topic f ls n) p) = (if p = ls then g (f (node_at n ls)) else g (node_at n p))"
proof (induction ls arbitrary: n p)
  case Nil
  have "node_at (f n) p = node_at n p" if "p \<noteq> []"
    using that find_or_create_children [OF assms(2) [of n]] by (cases p) simp_all
  then show ?case by auto
next
  case (Cons l ls)
  show ?case
  proof (cases p)
    case Nil
    then show ?thesis using assms(1) by (simp add: own_def)
  qed (simp add: Cons.IH)
qed

lemma field_remove_path:
  assumes "own g" and "\<And>n. children (f n) = children n" and "\<And>n. removable n \<Longrightarrow> g n = g topic_tree_node_new"
    and "find_topic n ls = Some m"
  shows "g (node_at (remove_path f ls n) p) = (if p = ls then g (f m) else g (node_at n p))"
  using assms(4)
proof (induction ls arbitrary: n p)
  case Nil
  have "node_at (f n) p = node_at n p" if "p \<noteq> []"
    using that find_or_create_children [OF assms(2) [of n]] by (cases p) simp_all
  then show ?case using Nil by auto
next
  case (Cons l ls)
  then obtain c where c: "map_of (children n) l = Some c" "find_topic c ls = Some m"
    by (auto split: option.splits)
  then have fc: "find_or_create n l = c" by (simp add: find_or_create_def)
  let ?c = "remove_path f ls c"
  have IH: "g (node_at ?c q) = (if q = ls then g (f m) else g (node_at c q))" for q
    by (rule Cons.IH [OF c(2)])
  show ?case
  proof (cases p)
    case Nil
    then show ?thesis using assms(1) c by (simp add: own_def Let_def)
  next
    case (Cons l' q)
    have "g topic_tree_node_new = g (node_at ?c q)" if r: "removable ?c"
    proof (cases q)
      case Nil
      then show ?thesis using assms(3) [OF r] by simp
    next
      case (Cons a b)
      have "find_or_create ?c a = topic_tree_node_new"
        using r by (simp add: removable_def find_or_create_def)
      then show ?thesis using Cons by simp
    qed
    then show ?thesis using Cons c fc IH by (auto simp: Let_def)
  qed
qed

lemma node_at_Some: "find_topic n p = Some m \<Longrightarrow> node_at n p = m"
  by (simp add: node_at_def)

section \<open>Matching\<close>

text \<open>
  Matching level by level: \<open>+\<close> stands for one level, \<open>#\<close> for the rest, also none. The rule of MQTT that filters starting with a wildcard do not match topics
  starting with \<open>$\<close> is not part of it, since the code does not have it.
\<close>

fun filter_matches :: "tmq_str list \<Rightarrow> tmq_str list \<Rightarrow> bool" where
  "filter_matches [] [] \<longleftrightarrow> True"
| "filter_matches [] (t # ts) \<longleftrightarrow> False"
| "filter_matches (f # fs) [] \<longleftrightarrow> f = HASH \<and> fs = []"
| "filter_matches (f # fs) (t # ts) \<longleftrightarrow>
     (if f = HASH then fs = [] else (f = PLUS \<or> f = t) \<and> filter_matches fs ts)"

text \<open>The paths of the tree that the walk visits, in order.\<close>

fun matching :: "tmq_str list \<Rightarrow> topic_node \<Rightarrow> tmq_str list list" where
  "matching [] n = [] # (case map_of (children n) HASH of None \<Rightarrow> [] | Some _ \<Rightarrow> [[HASH]])"
| "matching (l # ls) n =
     (case map_of (children n) l of None \<Rightarrow> [] | Some c \<Rightarrow> map ((#) l) (matching ls c))
     @ (case map_of (children n) PLUS of None \<Rightarrow> [] | Some c \<Rightarrow> map ((#) PLUS) (matching ls c))
     @ (case map_of (children n) HASH of None \<Rightarrow> [] | Some _ \<Rightarrow> [[HASH]])"

definition plain :: "tmq_str list \<Rightarrow> bool" where
  "plain ls \<longleftrightarrow> (\<forall>l\<in>set ls. \<not> wildcard l)"

lemma plain_simps [simp]: "plain []" "plain (l # ls) \<longleftrightarrow> l \<noteq> PLUS \<and> l \<noteq> HASH \<and> plain ls"
  by (auto simp: plain_def wildcard_def)

lemma in_matching:
  "plain ts \<Longrightarrow> p \<in> set (matching ts n) \<longleftrightarrow> filter_matches p ts \<and> find_topic n p \<noteq> None"
proof (induction ts arbitrary: n p)
  case Nil
  show ?case by (cases p) (auto split: option.splits)
next
  case (Cons t ts)
  show ?case
    using Cons by (cases p) (auto split: option.splits)
qed

lemma distinct_matching: "plain ts \<Longrightarrow> distinct (matching ts n)"
  by (induction ts arbitrary: n) (auto split: option.splits simp: distinct_map inj_on_def)

text \<open>
  \<open>#\<close> is only meaningful as the last level of a filter; \<open>hash_leaf\<close> says that no stored path has two
  of them in a row, the one case in which the walk would go on below a \<open>#\<close>.
\<close>

definition hash_leaf :: "topic_node \<Rightarrow> bool" where
  "hash_leaf n \<longleftrightarrow> (\<forall>p. find_topic n (p @ [HASH, HASH]) = None)"

lemma hash_leaf_child: "hash_leaf n \<Longrightarrow> map_of (children n) l = Some c \<Longrightarrow> hash_leaf c"
  unfolding hash_leaf_def by (metis append_Cons find_topic.simps(2) option.simps(5))

lemma hash_leaf_hash:
  "hash_leaf n \<Longrightarrow> map_of (children n) HASH = Some c \<Longrightarrow> map_of (children c) HASH = None"
  unfolding hash_leaf_def
  by (drule spec [of _ "[]"]) (auto split: option.splits)

lemma visit_new [simp]: "visit j req topic_tree_node_new = []"
  by (simp add: visit_def trigger_event_def topic_tree_node_new_def)

lemma visit_own: "visit j req (set_child n l c) = visit j req n"
  by (simp add: visit_def trigger_event_def)

lemma children_new [simp]: "children topic_tree_node_new = []"
  by (simp add: topic_tree_node_new_def)

lemma match_new: "plain ls \<Longrightarrow> fst (topic_match j req False retain ls topic_tree_node_new) = []"
  by (induction ls) (auto simp: Let_def split_beta map_of_al_put)

lemma match_events:
  "plain ls \<Longrightarrow> hash_leaf n \<Longrightarrow>
   fst (topic_match j req False retain ls n) = concat (map (\<lambda>p. visit j req (node_at n p)) (matching ls n))"
proof (induction ls arbitrary: n retain)
  case Nil
  then show ?case by (auto simp: Let_def find_or_create_def split: option.splits)
next
  case (Cons l ls)
  have l: "l \<noteq> PLUS" "l \<noteq> HASH" and pl: "plain ls" using Cons.prems(1) by auto
  have sub: "fst (topic_match j req False r ls c) = concat (map (\<lambda>p. visit j req (node_at c p)) (matching ls c))"
    if "map_of (children n) k = Some c" for k c r
    using Cons.IH [OF pl hash_leaf_child [OF Cons.prems(2) that]] .
  have node: "node_at n (k # p) = node_at c p" if "map_of (children n) k = Some c" for k c p
    using that by (simp add: find_or_create_def)
  have hash: "fst (topic_match j req True r ls c) = visit j req c" if "map_of (children n) HASH = Some c" for c r
    using hash_leaf_hash [OF Cons.prems(2) that] by (cases ls) (auto simp: Let_def)
  show ?case
    using l sub node hash match_new [OF pl]
    by (auto simp: Let_def split_beta map_of_al_put comp_def find_or_create_def split: option.splits)
qed

lemma al_put_id: "map_of xs k = Some v \<Longrightarrow> al_put xs k v = xs"
  by (induction xs) auto

lemma set_child_id: "map_of (children n) l = Some c \<Longrightarrow> set_child n l c = n"
  by (cases n) (simp add: set_child_def al_put_id)

lemma match_no_retain: "snd (topic_match j req multi False ls n) = n"
proof (induction ls arbitrary: n multi)
  case (Cons l ls)
  show ?case
    by (auto simp: Let_def split_beta Cons.IH set_child_id split: option.splits)
qed (simp add: Let_def)

lemma match_retain:
  "plain ls \<Longrightarrow> snd (topic_match j req False True ls n) = add_topic (set_retain (retain_of req)) ls n"
proof (induction ls arbitrary: n)
  case Nil
  show ?case by (simp add: Let_def)
next
  case (Cons l ls)
  then show ?case
    by (auto simp: Let_def split_beta match_no_retain set_child_id find_or_create_def split: option.splits)
qed

section \<open>Retained messages of matching topics\<close>

definition tree_ok :: "topic_node \<Rightarrow> bool" where
  "tree_ok n \<longleftrightarrow> (\<forall>p m. find_topic n p = Some m \<longrightarrow> al_ok (children m))"

lemma tree_okD: "tree_ok n \<Longrightarrow> al_ok (children n)"
  unfolding tree_ok_def by (metis find_topic.simps(1))

lemma tree_ok_child: "tree_ok n \<Longrightarrow> map_of (children n) l = Some c \<Longrightarrow> tree_ok c"
  unfolding tree_ok_def by (metis find_topic.simps(2) option.simps(5))

lemma al_ok_in: "al_ok xs \<Longrightarrow> (k, v) \<in> set xs \<longleftrightarrow> map_of xs k = Some v"
  by (rule al.in_entries_iff)

lemma in_retain_list: "r \<in> set (retain_list n) \<longleftrightarrow> node_retain n = Some r"
  by (auto simp: retain_list_def split: option.splits)

lemma node_retain_new [simp]: "node_retain topic_tree_node_new = None"
  by (simp add: topic_tree_node_new_def)

lemma in_get_all_retain:
  "tree_ok n \<Longrightarrow> r \<in> set (get_all_retain n) \<longleftrightarrow> (\<exists>p. plain p \<and> node_retain (node_at n p) = Some r)"
proof (induction n rule: get_all_retain.induct)
  case (1 n)
  have IH: "r \<in> set (get_all_retain c) \<longleftrightarrow> (\<exists>p. plain p \<and> node_retain (node_at c p) = Some r)"
    if "map_of (children n) l = Some c" "\<not> wildcard l" for l c
    using "1.IH" [OF _ refl that(2)] that tree_ok_child [OF "1.prems"] map_of_SomeD by metis
  have "r \<in> set (get_all_retain n) \<longleftrightarrow> node_retain n = Some r \<or>
      (\<exists>l c. map_of (children n) l = Some c \<and> \<not> wildcard l \<and> r \<in> set (get_all_retain c))"
    using al_ok_in [OF tree_okD [OF "1.prems"]]
    by (subst get_all_retain.simps) (fastforce simp: in_retain_list split: if_splits)
  also have "\<dots> \<longleftrightarrow> (\<exists>p. plain p \<and> node_retain (node_at n p) = Some r)"
  proof
    assume "node_retain n = Some r \<or>
      (\<exists>l c. map_of (children n) l = Some c \<and> \<not> wildcard l \<and> r \<in> set (get_all_retain c))"
    then show "\<exists>p. plain p \<and> node_retain (node_at n p) = Some r"
    proof
      assume "node_retain n = Some r"
      then show ?thesis by (intro exI [of _ "[]"]) simp
    next
      assume "\<exists>l c. map_of (children n) l = Some c \<and> \<not> wildcard l \<and> r \<in> set (get_all_retain c)"
      then obtain l c p where "map_of (children n) l = Some c" "\<not> wildcard l" "plain p"
          "node_retain (node_at c p) = Some r" using IH by blast
      then show ?thesis by (intro exI [of _ "l # p"]) (simp add: find_or_create_def wildcard_def)
    qed
  next
    assume "\<exists>p. plain p \<and> node_retain (node_at n p) = Some r"
    then obtain p where p: "plain p" "node_retain (node_at n p) = Some r" by blast
    show "node_retain n = Some r \<or>
      (\<exists>l c. map_of (children n) l = Some c \<and> \<not> wildcard l \<and> r \<in> set (get_all_retain c))"
    proof (cases p)
      case (Cons l q)
      then obtain c where "map_of (children n) l = Some c"
        using p(2) by (cases "map_of (children n) l") (auto simp: find_or_create_def)
      then show ?thesis using p Cons IH by (auto simp: find_or_create_def wildcard_def)
    qed (use p in simp)
  qed
  finally show ?case .
qed

definition valid_filter :: "tmq_str list \<Rightarrow> bool" where
  "valid_filter fs \<longleftrightarrow> HASH \<notin> set (butlast fs)"

lemma valid_filter_Cons: "valid_filter (f # fs) \<longleftrightarrow> fs = [] \<or> f \<noteq> HASH \<and> valid_filter fs"
  by (auto simp: valid_filter_def)

lemma hash_matches_all [simp]: "filter_matches [HASH] p"
  by (cases p) simp_all

lemma node_at_child: "map_of (children n) l = Some c \<Longrightarrow> node_at n (l # p) = node_at c p"
  by (simp add: find_or_create_def)

lemma retain_step:
  assumes "f \<noteq> HASH"
  shows "(\<exists>p. plain p \<and> filter_matches (f # fs) p \<and> node_retain (node_at n p) = Some r) \<longleftrightarrow>
    (\<exists>l c. map_of (children n) l = Some c \<and> \<not> wildcard l \<and> (f = PLUS \<or> f = l) \<and>
       (\<exists>q. plain q \<and> filter_matches fs q \<and> node_retain (node_at c q) = Some r))"
proof
  assume "\<exists>p. plain p \<and> filter_matches (f # fs) p \<and> node_retain (node_at n p) = Some r"
  then obtain p where p: "plain p" "filter_matches (f # fs) p" "node_retain (node_at n p) = Some r" by blast
  then obtain l q where lq: "p = l # q" using assms by (cases p) auto
  then obtain c where "map_of (children n) l = Some c"
    using p(3) by (cases "map_of (children n) l") (auto simp: find_or_create_def)
  then show "\<exists>l c. map_of (children n) l = Some c \<and> \<not> wildcard l \<and> (f = PLUS \<or> f = l) \<and>
       (\<exists>q. plain q \<and> filter_matches fs q \<and> node_retain (node_at c q) = Some r)"
    using p lq assms by (auto simp: find_or_create_def wildcard_def)
next
  assume "\<exists>l c. map_of (children n) l = Some c \<and> \<not> wildcard l \<and> (f = PLUS \<or> f = l) \<and>
       (\<exists>q. plain q \<and> filter_matches fs q \<and> node_retain (node_at c q) = Some r)"
  then obtain l c q where "map_of (children n) l = Some c" "\<not> wildcard l" "f = PLUS \<or> f = l"
      "plain q" "filter_matches fs q" "node_retain (node_at c q) = Some r" by blast
  then show "\<exists>p. plain p \<and> filter_matches (f # fs) p \<and> node_retain (node_at n p) = Some r"
    using assms by (intro exI [of _ "l # q"]) (auto simp: find_or_create_def wildcard_def)
qed

lemma in_find_retain:
  "tree_ok n \<Longrightarrow> valid_filter fs \<Longrightarrow>
   r \<in> set (find_retain_messages n fs) \<longleftrightarrow>
     (\<exists>p. plain p \<and> filter_matches fs p \<and> node_retain (node_at n p) = Some r)"
proof (induction fs arbitrary: n)
  case Nil
  have "filter_matches [] p \<longleftrightarrow> p = []" for p by (cases p) auto
  then show ?case by (simp add: in_retain_list)
next
  case (Cons f fs)
  have IH: "r \<in> set (find_retain_messages c fs) \<longleftrightarrow>
      (\<exists>p. plain p \<and> filter_matches fs p \<and> node_retain (node_at c p) = Some r)"
    if "map_of (children n) l = Some c" "f \<noteq> HASH" for l c
    using Cons.IH [OF tree_ok_child [OF Cons.prems(1) that(1)]] Cons.prems(2) that(2)
    by (cases fs) (auto simp: valid_filter_Cons valid_filter_def)
  consider "f = HASH" "fs = []" | "f = PLUS" | "f \<noteq> HASH" "f \<noteq> PLUS"
    using Cons.prems(2) by (auto simp: valid_filter_Cons)
  then show ?case
  proof cases
    case 1
    then show ?thesis by (simp add: in_get_all_retain [OF Cons.prems(1)])
  next
    case 2
    then have "r \<in> set (find_retain_messages n (f # fs)) \<longleftrightarrow>
        (\<exists>l c. map_of (children n) l = Some c \<and> \<not> wildcard l \<and> r \<in> set (find_retain_messages c fs))"
      using al_ok_in [OF tree_okD [OF Cons.prems(1)]] by (fastforce split: if_splits)
    then show ?thesis using 2 IH retain_step [of f fs n r] by (simp cong: conj_cong)
  next
    case 3
    have "r \<in> set (find_retain_messages n (f # fs)) \<longleftrightarrow>
        (\<exists>c. map_of (children n) f = Some c \<and> r \<in> set (find_retain_messages c fs))"
      using 3 by (cases "map_of (children n) f") auto
    then show ?thesis using 3 IH retain_step [of f fs n r] by (simp add: wildcard_def cong: conj_cong)
  qed
qed

lemma retain_from_path_eq: "retain_from_path n fs = find_retain_messages n fs"
  by (induction n fs rule: retain_from_path.induct) (auto simp: wildcard_def split: option.splits)

section \<open>Invariants of the tree\<close>

lemma tree_ok_iff:
  "tree_ok n \<longleftrightarrow> al_ok (children n) \<and> (\<forall>l c. map_of (children n) l = Some c \<longrightarrow> tree_ok c)"
proof
  assume "tree_ok n"
  then show "al_ok (children n) \<and> (\<forall>l c. map_of (children n) l = Some c \<longrightarrow> tree_ok c)"
    using tree_okD tree_ok_child by blast
next
  assume a: "al_ok (children n) \<and> (\<forall>l c. map_of (children n) l = Some c \<longrightarrow> tree_ok c)"
  show "tree_ok n" unfolding tree_ok_def
  proof (intro allI impI)
    fix p m
    assume "find_topic n p = Some m"
    then show "al_ok (children m)" using a by (cases p) (auto simp: tree_ok_def split: option.splits)
  qed
qed

lemma tree_ok_new [simp]: "tree_ok topic_tree_node_new"
  by (subst tree_ok_iff) simp

lemma tree_ok_find_or_create: "tree_ok n \<Longrightarrow> tree_ok (find_or_create n l)"
  by (auto simp: find_or_create_def intro: tree_ok_child split: option.splits)

lemma tree_ok_set_child: "tree_ok n \<Longrightarrow> tree_ok c \<Longrightarrow> tree_ok (set_child n l c)"
  by (subst tree_ok_iff) (auto simp: al_ok_put map_of_al_put tree_okD intro: tree_ok_child)

lemma tree_ok_erase_child: "tree_ok n \<Longrightarrow> tree_ok (erase_child n l)"
  by (subst tree_ok_iff) (auto simp: al_ok_erase map_of_al_erase tree_okD intro: tree_ok_child split: if_splits)

lemma tree_ok_children: "tree_ok n \<Longrightarrow> children m = children n \<Longrightarrow> tree_ok m"
  by (subst tree_ok_iff, subst (asm) tree_ok_iff) simp

lemma tree_ok_add_topic:
  assumes "\<And>n. children (f n) = children n"
  shows "tree_ok n \<Longrightarrow> tree_ok (add_topic f ls n)"
  by (induction ls arbitrary: n)
     (simp_all add: tree_ok_children [OF _ assms] tree_ok_set_child tree_ok_find_or_create)

lemma tree_ok_remove_path:
  assumes "\<And>n. children (f n) = children n"
  shows "tree_ok n \<Longrightarrow> tree_ok (remove_path f ls n)"
  by (induction ls arbitrary: n)
     (auto simp: Let_def tree_ok_children [OF _ assms] tree_ok_erase_child
        intro: tree_ok_set_child tree_ok_child split: option.splits)

lemma find_topic_new: "find_topic topic_tree_node_new q = None \<longleftrightarrow> q \<noteq> []"
  by (cases q) simp_all

lemma find_topic_children:
  "children m = children n \<Longrightarrow> q \<noteq> [] \<Longrightarrow> find_topic m q = find_topic n q"
  by (cases q) auto

lemma find_topic_add_topic:
  assumes "\<And>n. children (f n) = children n"
  shows "find_topic (add_topic f ls n) q = None \<longleftrightarrow> \<not> (\<exists>r. ls = q @ r) \<and> find_topic n q = None"
proof (induction ls arbitrary: n q)
  case Nil
  show ?case using find_topic_children [OF assms] by (cases "q = []") auto
next
  case (Cons l ls)
  have "find_topic (find_or_create n l) q' = None \<longleftrightarrow>
      (case map_of (children n) l of None \<Rightarrow> q' \<noteq> [] | Some c \<Rightarrow> find_topic c q' = None)" for q'
    by (auto simp: find_or_create_def find_topic_new split: option.splits)
  then show ?case
    by (cases q) (auto simp: map_of_al_put Cons.IH split: option.splits)
qed

lemma find_topic_remove_path:
  assumes "\<And>n. children (f n) = children n"
  shows "find_topic n q = None \<Longrightarrow> find_topic (remove_path f ls n) q = None"
proof (induction ls arbitrary: n q)
  case Nil
  then show ?case using find_topic_children [OF assms] by (cases "q = []") auto
next
  case (Cons l ls)
  then show ?case
    by (cases q) (auto simp: Let_def map_of_al_put map_of_al_erase split: option.splits)
qed

lemma hash_leaf_new: "hash_leaf topic_tree_node_new"
  by (simp add: hash_leaf_def find_topic_new)

lemma valid_no_double: "valid_filter ls \<Longrightarrow> ls \<noteq> (p @ [HASH, HASH]) @ r"
  by (auto simp: valid_filter_def butlast_append)

lemma hash_leaf_add_topic:
  assumes "\<And>n. children (f n) = children n" and "valid_filter ls" and "hash_leaf n"
  shows "hash_leaf (add_topic f ls n)"
  unfolding hash_leaf_def find_topic_add_topic [OF assms(1)]
  using assms(3) valid_no_double [OF assms(2)] by (auto simp: hash_leaf_def)

lemma hash_leaf_remove_path:
  assumes "\<And>n. children (f n) = children n" and "hash_leaf n"
  shows "hash_leaf (remove_path f ls n)"
  using assms(2) find_topic_remove_path [OF assms(1)] by (auto simp: hash_leaf_def)

lemma children_changes [simp]:
  "children (add_subscriber cid info n) = children n"
  "children (set_subscribers m n) = children n"
  "children (drop_subscriber cid m' n) = children n"
  "children (set_retain r n) = children n"
  by (simp_all add: add_subscriber_def set_subscribers_def drop_subscriber_def set_retain_def Let_def)

section \<open>The table of subscriptions\<close>

definition subs_at :: "topic_node \<Rightarrow> tmq_str list \<Rightarrow> tmq_str \<Rightarrow> subscribe_info option" where
  "subs_at n p = (case subscribers (node_at n p) of None \<Rightarrow> Map.empty | Some m \<Rightarrow> map_of m)"

definition retained_at :: "topic_node \<Rightarrow> tmq_str list \<Rightarrow> retain_message option" where
  "retained_at n p = node_retain (node_at n p)"

text \<open>Subscriber tables have unique keys and are never empty: the last removal frees the table.\<close>

definition subs_ok :: "topic_node \<Rightarrow> bool" where
  "subs_ok n \<longleftrightarrow> (\<forall>p m. subscribers (node_at n p) = Some m \<longrightarrow> al_ok m \<and> m \<noteq> [])"

lemma subscribers_changes [simp]:
  "subscribers (set_subscribers m n) = m" "node_retain (set_subscribers m n) = node_retain n"
  "subscribers (set_retain r n) = subscribers n" "node_retain (set_retain r n) = Some r"
  by (simp_all add: set_subscribers_def set_retain_def)

lemma subscribers_new [simp]: "subscribers topic_tree_node_new = None"
  by (simp add: topic_tree_node_new_def)

lemma subs_add:
  "subscribers (node_at (add_topic (add_subscriber cid info) ls n) p) =
     (if p = ls then Some (al_put (case subscribers (node_at n ls) of None \<Rightarrow> [] | Some m \<Rightarrow> m) (cstr cid) info)
      else subscribers (node_at n p))"
  by (subst field_add_topic [OF own_fields(1)]) (simp_all add: add_subscriber_def)

lemma al_put_ne [simp]: "al_put xs k v \<noteq> []"
  by (cases xs) (auto split: if_splits)

lemma subs_remove:
  assumes "find_topic n ls = Some m" and "subscribers m = Some s"
  shows "subscribers (node_at (remove_path (drop_subscriber cid s) ls n) p) =
     (if p = ls then (if al_erase s (cstr cid) = [] then None else Some (al_erase s (cstr cid)))
      else subscribers (node_at n p))"
  by (subst field_remove_path [OF own_fields(1) _ _ assms(1)])
     (simp_all add: drop_subscriber_def removable_def Let_def)

lemma retained_remove:
  assumes "find_topic n ls = Some m"
  shows "retained_at (remove_path (drop_subscriber cid s) ls n) = retained_at n"
proof
  fix p
  show "retained_at (remove_path (drop_subscriber cid s) ls n) p = retained_at n p"
    unfolding retained_at_def
    by (subst field_remove_path [OF own_fields(4) _ _ assms])
       (simp_all add: drop_subscriber_def removable_def Let_def node_at_Some [OF assms])
qed

lemma retained_add:
  assumes "\<And>n. children (f n) = children n" and "\<And>n. node_retain (f n) = node_retain n"
  shows "retained_at (add_topic f ls n) = retained_at n"
  unfolding retained_at_def
  by (rule ext) (subst field_add_topic [OF own_fields(4) assms(1)]; simp add: assms(2))

lemma subs_keep:
  assumes "\<And>n. children (f n) = children n" and "\<And>n. subscribers (f n) = subscribers n"
  shows "subscribers (node_at (add_topic f ls n) p) = subscribers (node_at n p)"
  by (subst field_add_topic [OF own_fields(1) assms(1)]; simp add: assms(2))

section \<open>Refinement of a table of subscriptions and retained messages\<close>

datatype topic_op =
    Op_Subscribe tmq_str tmq_str subscribe_info
  | Op_Unsubscribe tmq_str tmq_str
  | Op_Publish publish_req
  | Op_Listener tmq_str event_listener
  | Op_Route tmq_str tmq_str

fun topic_step :: "(tmq_str \<Rightarrow> bool) \<Rightarrow> topic_op \<Rightarrow> topic_node \<Rightarrow> topic_node res" where
  "topic_step j (Op_Subscribe tf cid info) n = Inr (snd (snd (tmq_topics_add_subscription n tf cid info)))"
| "topic_step j (Op_Unsubscribe tf cid) n = tmq_topics_remove_subscription n tf cid"
| "topic_step j (Op_Publish req) n = Inr (snd (snd (tmq_topics_publish j n req)))"
| "topic_step j (Op_Listener tf li) n = Inr (tmq_topics_add_listener n tf li)"
| "topic_step j (Op_Route tf a) n = Inr (tmq_topics_add_route n tf a)"

fun topic_run :: "(tmq_str \<Rightarrow> bool) \<Rightarrow> topic_op list \<Rightarrow> topic_node \<Rightarrow> topic_node res" where
  "topic_run j [] n = Inr n"
| "topic_run j (op # ops) n = bind (topic_step j op n) (topic_run j ops)"

type_synonym topic_table =
  "(tmq_str list \<Rightarrow> tmq_str \<Rightarrow> subscribe_info option) \<times> (tmq_str list \<Rightarrow> retain_message option)"

fun table_step :: "topic_op \<Rightarrow> topic_table \<Rightarrow> topic_table" where
  "table_step (Op_Subscribe tf cid info) (s, r) =
     (if cstr tf = [] then (s, r)
      else (s(tmq_topic_split (cstr tf) := (s (tmq_topic_split (cstr tf)))(cstr cid \<mapsto> info)), r))"
| "table_step (Op_Unsubscribe tf cid) (s, r) =
     (s(tmq_topic_split (cstr tf) := (s (tmq_topic_split (cstr tf)))(cstr cid := None)), r)"
| "table_step (Op_Publish req) (s, r) =
     (s, if req_retain req then r(tmq_topic_split (cstr (req_topic req)) \<mapsto> retain_of req) else r)"
| "table_step _ t = t"

text \<open>
  The operations the theorem is about: \<open>#\<close> only at the end of a filter, no wildcards in a published
  topic, and unsubscribing only from a filter somebody has subscribed to.
\<close>

fun op_ok :: "topic_op \<Rightarrow> topic_table \<Rightarrow> bool" where
  "op_ok (Op_Subscribe tf cid info) t \<longleftrightarrow> valid_filter (tmq_topic_split (cstr tf))"
| "op_ok (Op_Unsubscribe tf cid) (s, r) \<longleftrightarrow> s (tmq_topic_split (cstr tf)) \<noteq> Map.empty"
| "op_ok (Op_Publish req) t \<longleftrightarrow> plain (tmq_topic_split (cstr (req_topic req)))"
| "op_ok (Op_Listener tf li) t \<longleftrightarrow> valid_filter (tmq_topic_split (cstr tf))"
| "op_ok (Op_Route tf a) t \<longleftrightarrow> valid_filter (tmq_topic_split (cstr tf))"

fun ops_ok :: "topic_op list \<Rightarrow> topic_table \<Rightarrow> bool" where
  "ops_ok [] t \<longleftrightarrow> True"
| "ops_ok (op # ops) t \<longleftrightarrow> op_ok op t \<and> ops_ok ops (table_step op t)"

definition topics_inv :: "topic_node \<Rightarrow> bool" where
  "topics_inv n \<longleftrightarrow> tree_ok n \<and> hash_leaf n \<and> subs_ok n"

definition table_of :: "topic_node \<Rightarrow> topic_table" where
  "table_of n = (subs_at n, retained_at n)"

lemma plain_valid: "plain ls \<Longrightarrow> valid_filter ls"
  by (auto simp: plain_def valid_filter_def wildcard_def dest: in_set_butlastD)

lemma publish_tree:
  assumes "plain (tmq_topic_split (cstr (req_topic req)))"
  shows "snd (snd (tmq_topics_publish j n req)) =
    (if req_retain req then add_topic (set_retain (retain_of req)) (tmq_topic_split (cstr (req_topic req))) n else n)"
  using assms by (simp add: tmq_topics_publish_def Let_def split_beta match_retain match_no_retain)

lemma subs_ok_keep:
  "subs_ok n \<Longrightarrow> (\<And>p. subscribers (node_at n' p) = subscribers (node_at n p)) \<Longrightarrow> subs_ok n'"
  by (simp add: subs_ok_def)

lemma subs_at_keep:
  "(\<And>p. subscribers (node_at n' p) = subscribers (node_at n p)) \<Longrightarrow> subs_at n' = subs_at n"
  by (rule ext) (simp add: subs_at_def)

lemma add_other_ok:
  assumes "\<And>n. children (f n) = children n" and "\<And>n. subscribers (f n) = subscribers n"
    and "valid_filter ls" and "topics_inv n"
  shows "topics_inv (add_topic f ls n)" and "subs_at (add_topic f ls n) = subs_at n"
  using assms(4) tree_ok_add_topic [OF assms(1)] hash_leaf_add_topic [OF assms(1,3)]
    subs_keep [OF assms(1,2), of ls n]
  by (auto simp: topics_inv_def intro: subs_ok_keep subs_at_keep)

lemma subscribe_ok:
  assumes "topics_inv n" and "valid_filter ls"
  shows "topics_inv (add_topic (add_subscriber cid info) ls n)"
    and "subs_at (add_topic (add_subscriber cid info) ls n) =
      (subs_at n)(ls := (subs_at n ls)(cstr cid \<mapsto> info))"
    and "retained_at (add_topic (add_subscriber cid info) ls n) = retained_at n"
proof -
  have "subs_ok (add_topic (add_subscriber cid info) ls n)"
    using assms(1) by (auto simp: topics_inv_def subs_ok_def subs_add al_ok_put split: option.splits)
  then show "topics_inv (add_topic (add_subscriber cid info) ls n)"
    using assms by (simp add: topics_inv_def tree_ok_add_topic hash_leaf_add_topic)
  show "subs_at (add_topic (add_subscriber cid info) ls n) =
      (subs_at n)(ls := (subs_at n ls)(cstr cid \<mapsto> info))"
    by (intro ext) (auto simp: subs_at_def subs_add map_of_al_put split: option.splits)
  show "retained_at (add_topic (add_subscriber cid info) ls n) = retained_at n"
    by (rule retained_add) (simp_all add: add_subscriber_def)
qed

lemma unsubscribe_ok:
  assumes "topics_inv n" and "subs_at n (tmq_topic_split (cstr tf)) \<noteq> Map.empty"
  shows "\<exists>n'. tmq_topics_remove_subscription n tf cid = Inr n' \<and> topics_inv n' \<and>
    subs_at n' = (subs_at n)(tmq_topic_split (cstr tf) := (subs_at n (tmq_topic_split (cstr tf)))(cstr cid := None)) \<and>
    retained_at n' = retained_at n"
proof -
  let ?ls = "tmq_topic_split (cstr tf)"
  obtain s where s: "subscribers (node_at n ?ls) = Some s"
    using assms(2) by (auto simp: subs_at_def split: option.splits)
  then obtain m where m: "find_topic n ?ls = Some m" "subscribers m = Some s"
    by (auto simp: node_at_def split: option.splits)
  let ?n = "remove_path (drop_subscriber cid s) ?ls n"
  note sub = subs_remove [OF m, of cid]
  have e: "tmq_topics_remove_subscription n tf cid = Inr ?n"
    by (simp add: tmq_topics_remove_subscription_def m)
  have ok: "al_ok s" using assms(1) s by (auto simp: topics_inv_def subs_ok_def)
  have "subs_ok ?n"
    using assms(1) ok by (auto simp: topics_inv_def subs_ok_def sub al_ok_erase split: if_splits)
  then have inv: "topics_inv ?n"
    using assms(1) by (simp add: topics_inv_def tree_ok_remove_path hash_leaf_remove_path)
  have em: "map_of s x = None" if "al_erase s (cstr cid) = []" "x \<noteq> cstr cid" for x
    using that map_of_al_erase [of s "cstr cid" x] by simp
  have "subs_at ?n = (subs_at n)(?ls := (subs_at n ?ls)(cstr cid := None))"
    by (intro ext) (use s in \<open>auto simp: subs_at_def sub map_of_al_erase em\<close>)
  then show ?thesis using e inv retained_remove [OF m(1)] by auto
qed

lemma topic_step_refines:
  assumes "topics_inv n" and "op_ok op (table_of n)"
  shows "\<exists>n'. topic_step j op n = Inr n' \<and> topics_inv n' \<and> table_of n' = table_step op (table_of n)"
proof (cases op)
  case (Op_Subscribe tf cid info)
  then show ?thesis
    using assms subscribe_ok [OF assms(1), of "tmq_topic_split (cstr tf)" cid info]
    by (auto simp: table_of_def tmq_topics_add_subscription_def Let_def)
next
  case (Op_Unsubscribe tf cid)
  then show ?thesis
    using assms(2) unsubscribe_ok [OF assms(1), of tf cid] by (auto simp: table_of_def)
next
  case (Op_Publish req)
  let ?ls = "tmq_topic_split (cstr (req_topic req))"
  let ?n = "add_topic (set_retain (retain_of req)) ?ls n"
  have pl: "plain ?ls" using assms(2) Op_Publish by (simp add: table_of_def)
  have "topics_inv ?n" "subs_at ?n = subs_at n"
    by (rule add_other_ok; use assms(1) plain_valid [OF pl] in simp)+
  moreover have "retained_at ?n = (retained_at n)(?ls \<mapsto> retain_of req)"
    unfolding retained_at_def
    by (rule ext) (subst field_add_topic [OF own_fields(4)]; simp)
  ultimately show ?thesis
    using assms(1) Op_Publish by (simp add: publish_tree [OF pl] table_of_def)
next
  case (Op_Listener tf li)
  then have v: "valid_filter (tmq_topic_split (cstr tf))" using assms(2) by simp
  show ?thesis
    unfolding Op_Listener topic_step.simps tmq_topics_add_listener_def
    using add_other_ok [OF _ _ v assms(1)] retained_add by (simp add: table_of_def)
next
  case (Op_Route tf a)
  then have v: "valid_filter (tmq_topic_split (cstr tf))" using assms(2) by simp
  show ?thesis
    unfolding Op_Route topic_step.simps tmq_topics_add_route_def
    using add_other_ok [OF _ _ v assms(1)] retained_add by (simp add: table_of_def)
qed

lemma topic_run_refines:
  "topics_inv n \<Longrightarrow> ops_ok ops (table_of n) \<Longrightarrow>
   \<exists>n'. topic_run j ops n = Inr n' \<and> topics_inv n' \<and> table_of n' = fold table_step ops (table_of n)"
proof (induction ops arbitrary: n)
  case (Cons op ops)
  then obtain n1 where n1: "topic_step j op n = Inr n1" "topics_inv n1" "table_of n1 = table_step op (table_of n)"
    using topic_step_refines [of n op j] by auto
  then show ?case using Cons.IH [of n1] Cons.prems(2) by simp
qed simp

abbreviation empty_table :: topic_table where
  "empty_table \<equiv> (\<lambda>_. Map.empty, Map.empty)"

lemma topics_inv_new: "topics_inv topic_tree_node_new"
  by (simp add: topics_inv_def hash_leaf_new subs_ok_def)

lemma table_of_new: "table_of topic_tree_node_new = empty_table"
  by (auto simp: table_of_def subs_at_def retained_at_def fun_eq_iff)

lemmas topic_run_init = topic_run_refines [OF topics_inv_new, unfolded table_of_new]

section \<open>Properties\<close>

lemma split_slash:
  assumes "CHR ''/'' \<notin> set l"
  shows "tmq_topic_split (l @ ''/'' @ s) = l # (if s = [] then [''''] else tmq_topic_split s)"
proof -
  have a: "\<And>c. c \<in> set l \<Longrightarrow> c \<noteq> CHR ''/''" using assms by blast
  have "takeWhile (\<lambda>c. c \<noteq> CHR ''/'') (l @ ''/'' @ s) = l"
    using takeWhile_append2 [of l "\<lambda>c. c \<noteq> CHR ''/''" "''/'' @ s"] a by simp
  moreover have "dropWhile (\<lambda>c. c \<noteq> CHR ''/'') (l @ ''/'' @ s) = CHR ''/'' # s"
    using dropWhile_append2 [of l "\<lambda>c. c \<noteq> CHR ''/''" "''/'' @ s"] a by simp
  ultimately show ?thesis by (subst tmq_topic_split.simps) (simp only: Let_def list.case)
qed

lemma split_level: "CHR ''/'' \<notin> set l \<Longrightarrow> tmq_topic_split l = [l]"
proof -
  assume "CHR ''/'' \<notin> set l"
  then have "\<forall>c\<in>set l. c \<noteq> CHR ''/''" by blast
  then have "takeWhile (\<lambda>c. c \<noteq> CHR ''/'') l = l" "dropWhile (\<lambda>c. c \<noteq> CHR ''/'') l = []"
    by (rule takeWhile_eq_all_conv [THEN iffD2], rule dropWhile_eq_Nil_conv [THEN iffD2])
  then show ?thesis by (subst tmq_topic_split.simps) (simp only: Let_def list.case)
qed

lemma split_join:
  "ls \<noteq> [] \<Longrightarrow> list_all (\<lambda>l. CHR ''/'' \<notin> set l) ls \<Longrightarrow> tmq_topic_split (join ls) = ls"
proof (induction ls rule: join.induct)
  case (3 l l' ls)
  have "join (l' # ls) = [] \<Longrightarrow> l' = [] \<and> ls = []" by (cases ls) auto
  then show ?case using 3 split_slash [of l "join (l' # ls)"] by (cases "join (l' # ls) = []") auto
qed (simp_all add: split_level)

text \<open>
  C27. Splitting a topic at its slashes: the levels are the unique non-empty list of slash-free strings
  that joined by slashes give the topic back, so leading, trailing and doubled slashes are levels of
  their own.
\<close>

theorem topic_split_correct:
  "tmq_topic_split s = ls \<longleftrightarrow> ls \<noteq> [] \<and> list_all (\<lambda>l. CHR ''/'' \<notin> set l) ls \<and> join ls = s"
  using split_join split_no_slash [of _ s] by (auto simp: join_split list_all_iff)

fun client_matches :: "topic_event list \<Rightarrow> subscribe_map list" where
  "client_matches [] = []"
| "client_matches (Client_Match m # evs) = m # client_matches evs"
| "client_matches (_ # evs) = client_matches evs"

lemma client_matches_append [simp]: "client_matches (xs @ ys) = client_matches xs @ client_matches ys"
  by (induction xs rule: client_matches.induct) auto

lemma client_matches_trigger [simp]: "client_matches (map (\<lambda>l. Trigger l (f l)) ls) = []"
  by (induction ls) simp_all

lemma client_matches_member [simp]: "client_matches (map Member_Match as) = []"
  by (induction as) simp_all

lemma client_matches_visit:
  "client_matches (visit j req n) = (case subscribers n of None \<Rightarrow> [] | Some m \<Rightarrow> [m])"
  by (simp add: visit_def trigger_event_def split: option.splits)

lemma client_matches_visits:
  "map map_of (client_matches (concat (map (\<lambda>p. visit j req (node_at n p)) ps))) =
   map (subs_at n) (filter (\<lambda>p. subscribers (node_at n p) \<noteq> None) ps)"
  by (induction ps) (auto simp: client_matches_visit subs_at_def)

lemma subs_at_ne:
  assumes "subs_ok n"
  shows "subs_at n p \<noteq> Map.empty \<longleftrightarrow> subscribers (node_at n p) \<noteq> None"
  using assms by (auto simp: subs_at_def subs_ok_def split: option.splits)

lemma node_at_ne: "subscribers (node_at n p) \<noteq> None \<Longrightarrow> find_topic n p \<noteq> None"
  by (auto simp: node_at_def split: option.splits)

lemma publish_matches:
  assumes "topics_inv n" and "plain ls" and "ls = tmq_topic_split (cstr (req_topic req))"
  shows "\<exists>fs. distinct fs \<and> set fs = {f. filter_matches f ls \<and> subs_at n f \<noteq> Map.empty} \<and>
    map map_of (client_matches (fst (tmq_topics_publish j n req))) = map (subs_at n) fs"
proof -
  let ?fs = "filter (\<lambda>p. subscribers (node_at n p) \<noteq> None) (matching ls n)"
  have inv: "hash_leaf n" "subs_ok n" using assms(1) by (simp_all add: topics_inv_def)
  have ev: "fst (tmq_topics_publish j n req) = concat (map (\<lambda>p. visit j req (node_at n p)) (matching ls n))"
    using match_events [OF assms(2) inv(1)] assms(3)
    by (simp add: tmq_topics_publish_def Let_def split_beta)
  have "set ?fs = {f. filter_matches f ls \<and> subs_at n f \<noteq> Map.empty}"
    using node_at_ne by (auto simp: in_matching [OF assms(2)] subs_at_ne [OF inv(2)])
  then show ?thesis
    using distinct_matching [OF assms(2), of n] client_matches_visits [of j req n "matching ls n"]
    by (intro exI [of _ ?fs]) (simp add: ev)
qed

text \<open>
  C6. Delivery. After any sequence of subscribing, unsubscribing, publishing and adding listeners and
  routes (with \<open>#\<close> only at the end of filters, no wildcards in published topics, and unsubscribing
  only from filters that have subscribers), nothing has faulted, and a publish to a topic without
  wildcards calls \<^verbatim>\<open>client_on_match\<close> exactly once for every filter that has subscribers and matches the topic level by level (\<open>+\<close> any
  level, \<open>#\<close> the rest; the code has no exception for topics that start with \<open>$\<close>), with the table of exactly those subscribers.
\<close>

theorem publish_reaches_matching_subscribers:
  assumes "ops_ok ops empty_table" and "plain (tmq_topic_split (cstr (req_topic req)))"
  shows "\<exists>n fs. topic_run j ops topic_tree_node_new = Inr n \<and>
    distinct fs \<and>
    set fs = {f. filter_matches f (tmq_topic_split (cstr (req_topic req))) \<and>
                 fst (fold table_step ops empty_table) f \<noteq> Map.empty} \<and>
    map map_of (client_matches (fst (tmq_topics_publish j n req))) =
      map (fst (fold table_step ops empty_table)) fs"
proof -
  obtain n where n: "topic_run j ops topic_tree_node_new = Inr n" "topics_inv n"
      "table_of n = fold table_step ops empty_table"
    using topic_run_init [OF assms(1)] by blast
  have "subs_at n = fst (fold table_step ops empty_table)"
    using n(3) by (metis fst_conv table_of_def)
  then show ?thesis using publish_matches [OF n(2) assms(2) refl, of j] n(1) by metis
qed

text \<open>
  C15. Retained messages. Subscribing with a non-empty filter that has \<open>#\<close> only at the end returns exactly the retained messages of the topics that the
  filter matches level by level, each as the last retained publish to that topic left it, after any sequence of operations in which
  filters have \<open>#\<close> only at the end, published topics have no wildcards and clients unsubscribe only from filters that have subscribers.
\<close>

theorem subscription_returns_matching_retained:
  assumes "ops_ok ops empty_table" and "cstr tf \<noteq> []" and "valid_filter (tmq_topic_split (cstr tf))"
  shows "\<exists>n. topic_run j ops topic_tree_node_new = Inr n \<and>
    set (fst (tmq_topics_add_subscription n tf cid info)) =
      {r. \<exists>t. plain t \<and> filter_matches (tmq_topic_split (cstr tf)) t \<and>
           snd (fold table_step ops empty_table) t = Some r}"
proof -
  let ?ls = "tmq_topic_split (cstr tf)"
  obtain n where n: "topic_run j ops topic_tree_node_new = Inr n" "topics_inv n"
      "table_of n = fold table_step ops empty_table"
    using topic_run_init [OF assms(1)] by blast
  let ?n = "add_topic (add_subscriber cid info) ?ls n"
  have r: "retained_at ?n = snd (fold table_step ops empty_table)"
    using subscribe_ok(3) [OF n(2) assms(3)] n(3) by (metis snd_conv table_of_def)
  have t: "tree_ok ?n" using subscribe_ok(1) [OF n(2) assms(3)] by (simp add: topics_inv_def)
  have "fst (tmq_topics_add_subscription n tf cid info) = find_retain_messages ?n ?ls"
    using assms(2) by (simp add: tmq_topics_add_subscription_def Let_def retain_from_path_eq)
  then show ?thesis
    using n(1) in_find_retain [OF t assms(3)] r by (auto simp: retained_at_def fun_eq_iff)
qed

lemma find_topic_prefix: "find_topic n (p @ q) \<noteq> None \<Longrightarrow> find_topic n p \<noteq> None"
  by (induction p arbitrary: n) (auto split: option.splits)

lemma topic_run_append: "topic_run j (xs @ ys) k = bind (topic_run j xs k) (topic_run j ys)"
proof (induction xs arbitrary: k)
  case (Cons x xs)
  then show ?case by (cases "topic_step j x k") simp_all
qed simp

text \<open>
  C28. Unsubscribing from a filter that nobody has subscribed to, but that is a proper prefix of one
  that has subscribers (as \<open>a\<close> is of \<open>a/b\<close>), dereferences the null pointer \<^verbatim>\<open>node->subscribers\<close>: the node
  exists, its table does not.
\<close>

theorem unsubscribe_from_prefix_faults:
  assumes "ops_ok ops empty_table"
    and "fst (fold table_step ops empty_table) (tmq_topic_split (cstr tf)) = Map.empty"
    and "fst (fold table_step ops empty_table) (tmq_topic_split (cstr tf) @ q) \<noteq> Map.empty"
  shows "topic_run j (ops @ [Op_Unsubscribe tf cid]) topic_tree_node_new = Inl Null_Deref"
proof -
  obtain n where n: "topic_run j ops topic_tree_node_new = Inr n" "topics_inv n"
      "table_of n = fold table_step ops empty_table"
    using topic_run_init [OF assms(1)] by blast
  have s: "subs_at n = fst (fold table_step ops empty_table)"
    using n(3) by (metis fst_conv table_of_def)
  let ?ls = "tmq_topic_split (cstr tf)"
  have ok: "subs_ok n" using n(2) by (simp add: topics_inv_def)
  obtain m where m: "find_topic n ?ls = Some m"
    using assms(3) s subs_at_ne [OF ok] node_at_ne find_topic_prefix by (metis not_None_eq)
  then have "subscribers m = None"
    using assms(2) s subs_at_ne [OF ok, of ?ls] by (simp add: node_at_Some)
  then have "topic_step j (Op_Unsubscribe tf cid) n = Inl Null_Deref"
    using m by (simp add: tmq_topics_remove_subscription_def)
  then show ?thesis using n(1) by (simp add: topic_run_append)
qed

section \<open>Instances\<close>

definition example_ops :: "topic_op list" where
  "example_ops =
     [Op_Subscribe ''a/b'' ''c1'' \<lparr>sub_session = 1, sub_qos = 1, is_session_closed = False\<rparr>,
      Op_Subscribe ''a/#'' ''c2'' \<lparr>sub_session = 2, sub_qos = 0, is_session_closed = False\<rparr>,
      Op_Publish \<lparr>req_topic = ''a/x'', req_message = \<lparr>message = ''on'', msg_qos = 0\<rparr>,
        req_retain = True, is_tunneled_pub = False,
        publisher_username = ''u'', publisher_client_id = ''p''\<rparr>]"

definition example_req :: publish_req where
  "example_req = \<lparr>req_topic = ''a/b'', req_message = \<lparr>message = ''off'', msg_qos = 0\<rparr>,
     req_retain = False, is_tunneled_pub = False,
        publisher_username = ''u'', publisher_client_id = ''p''\<rparr>"

lemma example_splits:
  "tmq_topic_split ''a/b'' = [''a'', ''b'']" "tmq_topic_split ''a/#'' = [''a'', HASH]"
  "tmq_topic_split ''a/x'' = [''a'', ''x'']" "tmq_topic_split ''a/+'' = [''a'', PLUS]"
  "tmq_topic_split ''a'' = [''a'']"
  by (simp_all add: tmq_topic_split.simps)

lemma example_ops_ok: "ops_ok example_ops empty_table"
  by (simp add: example_ops_def example_splits valid_filter_def)

theorem publish_reaches_matching_subscribers_witness:
  "\<exists>n fs. topic_run (\<lambda>_. True) example_ops topic_tree_node_new = Inr n \<and> distinct fs \<and>
    set fs = {f. filter_matches f [''a'', ''b''] \<and> fst (fold table_step example_ops empty_table) f \<noteq> Map.empty} \<and>
    map map_of (client_matches (fst (tmq_topics_publish (\<lambda>_. True) n example_req))) =
      map (fst (fold table_step example_ops empty_table)) fs"
  using publish_reaches_matching_subscribers [OF example_ops_ok, of example_req "\<lambda>_. True"]
  by (simp add: example_req_def example_splits)

theorem subscription_returns_matching_retained_witness:
  "\<exists>n. topic_run (\<lambda>_. True) example_ops topic_tree_node_new = Inr n \<and>
    retain_of \<lparr>req_topic = ''a/x'', req_message = \<lparr>message = ''on'', msg_qos = 0\<rparr>, req_retain = True, is_tunneled_pub = False,
        publisher_username = ''u'', publisher_client_id = ''p''\<rparr>
      \<in> set (fst (tmq_topics_add_subscription n ''a/+'' ''c3'' \<lparr>sub_session = 3, sub_qos = 0, is_session_closed = False\<rparr>))"
  using subscription_returns_matching_retained [OF example_ops_ok, of "''a/+''" "\<lambda>_. True" "''c3''"
      "\<lparr>sub_session = 3, sub_qos = 0, is_session_closed = False\<rparr>"]
  by (auto simp: example_splits valid_filter_def example_ops_def intro!: exI [of _ "[''a'', ''x'']"])

theorem unsubscribe_from_prefix_faults_witness:
  "topic_run (\<lambda>_. True) (example_ops @ [Op_Unsubscribe ''a'' ''c1'']) topic_tree_node_new = Inl Null_Deref"
  by (rule unsubscribe_from_prefix_faults [OF example_ops_ok, where q = "[''b'']"])
     (simp_all add: example_splits example_ops_def fun_eq_iff)

text \<open>MQTT 3.1.1, 4.7.2: a filter that starts with a wildcard must not match a topic that starts with \<open>$\<close>. Here it does.\<close>

theorem dollar_topic_reaches_wildcard:
  "client_matches (fst (tmq_topics_publish (\<lambda>_. False)
     (snd (snd (tmq_topics_add_subscription topic_tree_node_new ''#'' ''c'' \<lparr>sub_session = 1, sub_qos = 0, is_session_closed = False\<rparr>)))
     \<lparr>req_topic = ''$SYS/x'', req_message = \<lparr>message = ''on'', msg_qos = 0\<rparr>, req_retain = False, is_tunneled_pub = False,
      publisher_username = [], publisher_client_id = []\<rparr>)) = [[(''c'', \<lparr>sub_session = 1, sub_qos = 0, is_session_closed = False\<rparr>)]]"
  by code_simp

end
