(* ===== verification/Rule_Engine.thy ===== *)
theory Rule_Engine
  imports Rule_Parser Topic_Tree
begin

text \<open>
  The rule engine, \<^verbatim>\<open>rule_engine/mqtt_rule_engine.c\<close>: a rule becomes a listener, in a list by the type of its event or, for published
  messages, in the topic tree. Listeners live at addresses, the indices of \<open>listener_at\<close>; a list linked through \<^verbatim>\<open>next\<close> is the list
  of its addresses. What an adaptor does with the values it is handed is not part of these sources: a call is recorded as \<open>Handle_Event\<close>.
\<close>

record rule_listener =
  l_mappings :: "mapping_item list"
  l_filter :: "filter_expr option"
  l_need_json :: bool
  l_adaptor :: nat

record rule_engine =
  parser :: rule_parser
  type_listeners :: "(event_type, nat list) alist"
  listener_at :: "rule_listener list"

datatype adaptor_call = Handle_Event nat "(tmq_str, expr_value) alist" "(tmq_str \<times> expr_value) list"

definition tmq_rule_engine_init :: rule_engine where
  "tmq_rule_engine_init = \<lparr>parser = tmq_rule_parser_init, type_listeners = [], listener_at = []\<rparr>"

definition make_event_listener :: "event_sources \<Rightarrow> (tmq_str, plugin_handle) alist \<Rightarrow> rule_parser \<Rightarrow> tmq_str option \<Rightarrow>
    (rule_parser \<times> (rule_listener \<times> event_type \<times> tmq_str option) option) res" where
  "make_event_listener srcs plugins ps rule =
     bind (tmq_rule_parse srcs plugins ps rule) (\<lambda>(ps, ro).
       case ro of
         None \<Rightarrow> Inr (ps, None)
       | Some r \<Rightarrow>
           (case adaptor r of
              None \<Rightarrow> Inl Null_Deref
            | Some a \<Rightarrow>
                Inr (ps, Some (\<lparr>l_mappings = mappings r, l_filter = result_filter r, l_need_json = need_json r, l_adaptor = a\<rparr>,
                  result_source r,
                  if result_source r = MESSAGE then Some (case source_topic r of None \<Rightarrow> [] | Some t \<Rightarrow> cstr t) else None))))"

text \<open>\<^verbatim>\<open>tmq_str_free(engine->parser.error_info)\<close>: the pointer is not reset.\<close>

definition free_error_info :: "rule_parser \<Rightarrow> rule_parser res" where
  "free_error_info ps =
     (case error_info ps of
        No_Info \<Rightarrow> Inr ps
      | Info t \<Rightarrow> Inr (ps\<lparr>error_info := Freed_Info\<rparr>)
      | Freed_Info \<Rightarrow> Inl Use_After_Free)"

definition tmq_rule_engine_add_rule :: "event_sources \<Rightarrow> (tmq_str, plugin_handle) alist \<Rightarrow> tmq_str option \<Rightarrow>
    rule_engine \<times> topic_node \<Rightarrow> (rule_engine \<times> topic_node) res" where
  "tmq_rule_engine_add_rule srcs plugins rule st =
     (let (eng, tree) = st in
      bind (make_event_listener srcs plugins (parser eng) rule) (\<lambda>(ps, lo).
        let (eng, tree) =
          (case lo of
             None \<Rightarrow> (eng, tree)
           | Some (l, ty, tp) \<Rightarrow>
               let a = length (listener_at eng); eng = eng\<lparr>listener_at := listener_at eng @ [l]\<rparr>
               in if ty \<noteq> MESSAGE then
                    (eng\<lparr>type_listeners := al_put (type_listeners eng) ty
                       (case map_of (type_listeners eng) ty of None \<Rightarrow> [a] | Some ids \<Rightarrow> a # ids)\<rparr>, tree)
                  else (eng, tmq_topics_add_listener tree (the tp) \<lparr>listener_id = a, need_json_payload = l_need_json l\<rparr>))
        in bind (free_error_info ps) (\<lambda>ps. Inr (eng\<lparr>parser := ps\<lparr>error_pos := 0, event_source := None\<rparr>\<rparr>, tree))))"

fun mapping_values :: "mapping_item list \<Rightarrow> event_data \<Rightarrow> (tmq_str, expr_value) alist \<Rightarrow> (tmq_str \<times> expr_value) list \<Rightarrow>
    ((tmq_str, expr_value) alist \<times> (tmq_str \<times> expr_value) list) res" where
  "mapping_values [] d ps vs = Inr (ps, vs)"
| "mapping_values (it # its) d ps vs =
     bind (evaluate (value_expr it) d) (\<lambda>v.
       if map_to_parameter it then mapping_values its d (al_put ps (mapping_name it) v) vs
       else mapping_values its d ps (vs @ [(mapping_name it, v)]))"

text \<open>Of the filter's value the member \<^verbatim>\<open>boolean\<close> is read, whatever its tag is.\<close>

definition tmq_listener_publish_event :: "rule_listener \<Rightarrow> event_data \<Rightarrow> adaptor_call list res" where
  "tmq_listener_publish_event l d =
     bind (case l_filter l of
             None \<Rightarrow> Inr True
           | Some e \<Rightarrow> bind (evaluate e d) (\<lambda>v. case v of Bool_V b \<Rightarrow> Inr b | _ \<Rightarrow> Inl Type_Confusion))
       (\<lambda>pass.
         if \<not> pass then Inr []
         else bind (mapping_values (l_mappings l) d [] []) (\<lambda>(ps, vs). Inr [Handle_Event (l_adaptor l) ps vs]))"

fun publish_to :: "rule_listener list \<Rightarrow> nat list \<Rightarrow> event_data \<Rightarrow> adaptor_call list res" where
  "publish_to ls [] d = Inr []"
| "publish_to ls (a # ids) d =
     (if a \<ge> length ls then Inl Use_After_Free
      else bind (tmq_listener_publish_event (ls ! a) d) (\<lambda>c. bind (publish_to ls ids d) (\<lambda>cs. Inr (c @ cs))))"

definition tmq_rule_engine_publish_event :: "rule_engine \<Rightarrow> event_type \<Rightarrow> event_data \<Rightarrow> adaptor_call list res" where
  "tmq_rule_engine_publish_event eng ty d =
     (if ty \<noteq> MESSAGE then
        (case map_of (type_listeners eng) ty of None \<Rightarrow> Inr [] | Some ids \<Rightarrow> publish_to (listener_at eng) ids d)
      else Inr [])"

section \<open>Theorems\<close>

fun add_rules :: "(tmq_str, plugin_handle) alist \<Rightarrow> tmq_str list \<Rightarrow> rule_engine \<times> topic_node \<Rightarrow> (rule_engine \<times> topic_node) res" where
  "add_rules plugins [] st = Inr st"
| "add_rules plugins (r # rs) st =
     bind (tmq_rule_engine_add_rule tmq_event_sources_init plugins (Some r) st) (add_rules plugins rs)"



















definition example_plugins :: "(tmq_str, plugin_handle) alist" where
  "example_plugins = [(''mysql'', \<lparr>plugin_adaptor = 7, adaptor_parameters = [''table'']\<rparr>)]"




section \<open>What goes wrong\<close>

text \<open>A rule with a syntax error leaves a dangling pointer that the next valid rule frees again.\<close>

theorem rule_after_error_faults:
  "add_rules example_plugins [''nonsense'', ''select 1 as {mysql.table} from {device}''] (tmq_rule_engine_init, topic_tree_node_new) =
     Inl Use_After_Free"
  by code_simp

text \<open>The name of an unknown operator is freed before it is printed.\<close>

theorem unknown_operator_faults:
  "parse_filter_expression tmq_rule_parser_init example_source ''qos = 1'' False = Inl Use_After_Free"
  by code_simp

text \<open>An operator without operands takes from an empty stack.\<close>

theorem missing_operand_faults:
  "parse_filter_expression tmq_rule_parser_init example_source ''== 1'' False = Inl Null_Deref"
  by code_simp

text \<open>The column \<^verbatim>\<open>payload\<close> is read behind its end.\<close>

theorem payload_column_faults:
  "tmq_rule_parse tmq_event_sources_init example_plugins tmq_rule_parser_init (Some ''select payload as x from t'') = Inl Out_Of_Bounds"
  by code_simp

text \<open>A filter that is no truth value is read as one: the publisher of a message chooses the type of its fields.\<close>

theorem untyped_filter_faults:
  "tmq_listener_publish_event
     \<lparr>l_mappings = [], l_filter = Some (fst (the (operand_expr example_source ''payload.on''))), l_need_json = True, l_adaptor = 0\<rparr>
     (Pub_Data None None 0 0 (Some [(''on'', JNumber 1)])) = Inl Type_Confusion"
  by code_simp

text \<open>Rules on topic events are called for devices, with the client identifier as the topic.\<close>

theorem topic_rule_gets_devices:
  "(case add_rules example_plugins [''select 'x' as {mysql.table}, topic from {topic}''] (tmq_rule_engine_init, topic_tree_node_new) of
      Inr (eng, _) \<Rightarrow> tmq_rule_engine_publish_event eng DEVICE (Device_Data 0 (Some ''c1'') None) | Inl f \<Rightarrow> Inl f) =
     Inr [Handle_Event 7 [(''table'', Str_V ''x'')] [(''topic'', Str_V ''c1'')]]"
  by code_simp

end
