(* ===== verification/Vec.thy ===== *)
theory Vec
  imports Prelude
begin

text \<open>
  The growable array of \<^verbatim>\<open>base/mqtt_vec.c\<close>. A vector is its element count and the allocated
  cells behind \<^verbatim>\<open>data\<close>: the capacity is the number of cells, and a cell that has never been
  written is \<open>None\<close> (memory fresh from \<^verbatim>\<open>realloc\<close> is indeterminate). Writes through
  \<^verbatim>\<open>tmq_vec_end\<close> (\<^verbatim>\<open>memcpy\<close>, \<^verbatim>\<open>strcpy\<close>) go through \<open>vec_store\<close>, which faults outside the
  allocation. Allocation is taken to succeed; the NULL tests on the vector pointer itself have
  no counterpart, because a record is always there.

  \<open>vec_rep v xs\<close> says that the vector holds exactly the list \<open>xs\<close>; the locale \<open>array_list\<close>
  is the interface the rest of the program relies on, interpreted on the vector at the end.
\<close>

record 'a vec =
  vsize :: nat
  vmem :: "'a option list"

definition vcap :: "'a vec \<Rightarrow> nat" where
  "vcap v = length (vmem v)"

definition tmq_base_init :: "'a vec" where
  "tmq_base_init = \<lparr>vsize = 0, vmem = []\<rparr>"

definition vec_realloc :: "'a vec \<Rightarrow> nat \<Rightarrow> 'a vec" where
  "vec_realloc v c = v\<lparr>vmem := take c (vmem v) @ replicate (c - vcap v) None\<rparr>"

definition tmq_vec_grow :: "'a vec \<Rightarrow> 'a vec" where
  "tmq_vec_grow v = vec_realloc v (if vcap v < 8 then 8 else vcap v * 2)"

definition tmq_vec_push_back :: "'a vec \<Rightarrow> 'a \<Rightarrow> 'a vec" where
  "tmq_vec_push_back v x =
     (let v' = (if vsize v \<ge> vcap v then tmq_vec_grow v else v)
      in v'\<lparr>vmem := (vmem v')[vsize v' := Some x], vsize := Suc (vsize v')\<rparr>)"

definition tmq_vec_get :: "'a vec \<Rightarrow> nat \<Rightarrow> 'a option" where
  "tmq_vec_get v i = (if i \<ge> vsize v then None else vmem v ! i)"

definition tmq_vec_pop_back :: "'a vec \<Rightarrow> 'a option \<times> 'a vec" where
  "tmq_vec_pop_back v =
     (if vsize v = 0 then (None, v)
      else (tmq_vec_get v (vsize v - 1), v\<lparr>vsize := vsize v - 1\<rparr>))"

definition tmq_vec_insert :: "'a vec \<Rightarrow> nat \<Rightarrow> 'a \<Rightarrow> int \<times> 'a vec" where
  "tmq_vec_insert v i x =
     (if i > vsize v then (-1, v)
      else
        let v' = (if vsize v \<ge> vcap v then tmq_vec_grow v else v);
            moved = take (vsize v' - i) (drop i (vmem v'))
        in (0, v'\<lparr>vmem := take i (vmem v') @ [Some x] @ moved @ drop (Suc (vsize v')) (vmem v'),
                  vsize := Suc (vsize v')\<rparr>))"

definition tmq_vec_erase :: "'a vec \<Rightarrow> nat \<Rightarrow> 'a vec" where
  "tmq_vec_erase v i =
     (if i \<ge> vsize v then v
      else v\<lparr>vmem := take i (vmem v) @ take (vsize v - i - 1) (drop (i + 1) (vmem v))
                      @ drop (vsize v - 1) (vmem v),
             vsize := vsize v - 1\<rparr>)"

definition tmq_vec_set :: "'a vec \<Rightarrow> nat \<Rightarrow> 'a \<Rightarrow> int \<times> 'a vec" where
  "tmq_vec_set v i x =
     (if i \<ge> vsize v then (-1, v) else (0, v\<lparr>vmem := (vmem v)[i := Some x]\<rparr>))"

definition tmq_vec_clear :: "'a vec \<Rightarrow> 'a vec" where
  "tmq_vec_clear v = v\<lparr>vsize := 0\<rparr>"

definition tmq_vec_size :: "'a vec \<Rightarrow> nat" where
  "tmq_vec_size v = vsize v"

definition tmq_vec_empty :: "'a vec \<Rightarrow> bool" where
  "tmq_vec_empty v \<longleftrightarrow> vsize v = 0"

definition tmq_vec_reserve :: "'a vec \<Rightarrow> nat \<Rightarrow> 'a vec" where
  "tmq_vec_reserve v n = (if n > vcap v then vec_realloc v (2 * n) else v)"

definition tmq_vec_resize :: "'a vec \<Rightarrow> nat \<Rightarrow> 'a vec" where
  "tmq_vec_resize v n = (tmq_vec_reserve v n)\<lparr>vsize := n\<rparr>"

text \<open>
  A write of the cells \<open>xs\<close> at the address \<^verbatim>\<open>index_to_addr(v, i)\<close>, as \<^verbatim>\<open>memcpy\<close> and
  \<^verbatim>\<open>strcpy\<close> do it: defined only inside the allocation.
\<close>

definition vec_store :: "'a vec \<Rightarrow> nat \<Rightarrow> 'a option list \<Rightarrow> 'a vec res" where
  "vec_store v i xs =
     (if i + length xs > vcap v then Inl Out_Of_Bounds
      else Inr (v\<lparr>vmem := take i (vmem v) @ xs @ drop (i + length xs) (vmem v)\<rparr>))"

definition tmq_vec_swap :: "'a vec \<times> 'a vec \<Rightarrow> 'a vec \<times> 'a vec" where
  "tmq_vec_swap = (\<lambda>(v1, v2). (v2, v1))"

definition tmq_vec_extend :: "'a vec \<Rightarrow> 'a vec \<Rightarrow> 'a vec res" where
  "tmq_vec_extend v1 v2 =
     (let n = tmq_vec_size v1 + tmq_vec_size v2;
          v = tmq_vec_reserve v1 n
      in bind (vec_store v (vsize v) (take (vsize v2) (vmem v2)))
           (\<lambda>v'. Inr (tmq_vec_resize v' n)))"

section \<open>The vector as a list\<close>

definition vec_rep :: "'a vec \<Rightarrow> 'a list \<Rightarrow> bool" where
  "vec_rep v xs \<longleftrightarrow> vsize v \<le> vcap v \<and> take (vsize v) (vmem v) = map Some xs"

definition vec_list :: "'a vec \<Rightarrow> 'a list" where
  "vec_list v = map the (take (vsize v) (vmem v))"

definition vec_ok :: "'a vec \<Rightarrow> bool" where
  "vec_ok v \<longleftrightarrow> vsize v \<le> vcap v \<and> None \<notin> set (take (vsize v) (vmem v))"

lemma vec_rep_iff: "vec_rep v xs \<longleftrightarrow> vec_ok v \<and> vec_list v = xs"
proof
  assume "vec_rep v xs"
  then show "vec_ok v \<and> vec_list v = xs"
    by (auto simp: vec_rep_def vec_ok_def vec_list_def)
next
  assume a: "vec_ok v \<and> vec_list v = xs"
  have "map Some (map the ys) = ys" if "None \<notin> set ys" for ys :: "'a option list"
    using that by (induction ys) auto
  with a show "vec_rep v xs"
    by (auto simp: vec_rep_def vec_ok_def vec_list_def)
qed

lemma vec_rep_length: "vec_rep v xs \<Longrightarrow> vsize v = length xs"
  unfolding vec_rep_def vcap_def by (metis length_map length_take min.absorb2)

lemma vec_rep_cap: "vec_rep v xs \<Longrightarrow> length xs \<le> vcap v"
  by (metis vec_rep_def vec_rep_length)

lemma vcap_realloc [simp]: "vcap (vec_realloc v c) = c"
  by (simp add: vec_realloc_def vcap_def)

lemma vsize_realloc [simp]: "vsize (vec_realloc v c) = vsize v"
  by (simp add: vec_realloc_def)

lemma vec_rep_realloc: "vec_rep v xs \<Longrightarrow> vsize v \<le> c \<Longrightarrow> vec_rep (vec_realloc v c) xs"
  by (simp add: vec_rep_def) (simp add: vec_realloc_def vcap_def take_Cons' min_def)

lemma vec_rep_init: "vec_rep tmq_base_init []"
  by (simp add: vec_rep_def tmq_base_init_def)

lemma vec_rep_grow: "vec_rep v xs \<Longrightarrow> vec_rep (tmq_vec_grow v) xs"
  unfolding tmq_vec_grow_def by (rule vec_rep_realloc) (auto simp: vec_rep_def)

lemma vec_grow_room: "vec_rep v xs \<Longrightarrow> length xs < vcap (tmq_vec_grow v)"
  by (drule vec_rep_cap) (auto simp: tmq_vec_grow_def)

lemma vec_rep_room:
  assumes "vec_rep v xs"
  defines "v' \<equiv> if vsize v \<ge> vcap v then tmq_vec_grow v else v"
  shows "vec_rep v' xs \<and> length xs < length (vmem v') \<and> vsize v' = length xs"
proof (cases "vsize v \<ge> vcap v")
  case True
  have "vec_rep (tmq_vec_grow v) xs" using assms(1) by (rule vec_rep_grow)
  moreover have "length xs < vcap (tmq_vec_grow v)" using assms(1) by (rule vec_grow_room)
  ultimately show ?thesis using True by (simp add: v'_def vcap_def vec_rep_length)
next
  case False
  then show ?thesis using assms by (auto simp: vcap_def vec_rep_length)
qed

lemma vec_rep_push_back: "vec_rep v xs \<Longrightarrow> vec_rep (tmq_vec_push_back v x) (xs @ [x])"
  using vec_rep_room [of v xs]
  by (auto simp: tmq_vec_push_back_def Let_def vec_rep_def vcap_def take_update_Suc)

lemma vec_rep_get:
  assumes "vec_rep v xs"
  shows "tmq_vec_get v i = (if i < length xs then Some (xs ! i) else None)"
proof -
  have "vmem v ! i = Some (xs ! i)" if "i < length xs"
  proof -
    have "take (vsize v) (vmem v) ! i = map Some xs ! i"
      using assms by (simp add: vec_rep_def)
    with that assms show ?thesis by (simp add: vec_rep_length)
  qed
  then show ?thesis using assms by (simp add: tmq_vec_get_def vec_rep_length not_le)
qed

lemma vec_rep_pop_back:
  "vec_rep v xs \<Longrightarrow>
   fst (tmq_vec_pop_back v) = (if xs = [] then None else Some (last xs)) \<and>
   vec_rep (snd (tmq_vec_pop_back v)) (butlast xs)"
proof (cases "xs = []")
  case True
  assume "vec_rep v xs"
  with True show ?thesis by (simp add: tmq_vec_pop_back_def vec_rep_length)
next
  case False
  assume r: "vec_rep v xs"
  then have sz: "vsize v = length xs" and t: "take (length xs) (vmem v) = map Some xs"
    and le: "length xs \<le> length (vmem v)"
    using vec_rep_length [OF r] by (auto simp: vec_rep_def vcap_def)
  have "take (length xs - 1) (vmem v) = map Some (butlast xs)"
    using arg_cong [OF t, of "take (length xs - 1)"]
    by (simp add: butlast_conv_take take_map min_def)
  with False r sz le show ?thesis
    by (simp add: tmq_vec_pop_back_def vec_rep_get last_conv_nth)
       (simp add: vec_rep_def vcap_def)
qed

lemma vec_rep_set:
  "vec_rep v xs \<Longrightarrow> i < length xs \<Longrightarrow>
   fst (tmq_vec_set v i x) = 0 \<and> vec_rep (snd (tmq_vec_set v i x)) (xs[i := x])"
  by (auto simp: tmq_vec_set_def vec_rep_length)
     (simp add: vec_rep_def vcap_def take_update_swap map_update)

lemma vec_rep_insert:
  assumes "vec_rep v xs" and "i \<le> length xs"
  shows "fst (tmq_vec_insert v i x) = 0"
    and "vec_rep (snd (tmq_vec_insert v i x)) (take i xs @ x # drop i xs)"
proof -
  define v' where "v' = (if vsize v \<ge> vcap v then tmq_vec_grow v else v)"
  have v': "vec_rep v' xs" "length xs < length (vmem v')" "vsize v' = length xs"
    using vec_rep_room [OF assms(1)] by (auto simp: v'_def)
  then have t: "take (length xs) (vmem v') = map Some xs"
    by (simp add: vec_rep_def)
  have t1: "take i (vmem v') = map Some (take i xs)"
    using arg_cong [OF t, of "take i"] assms(2) by (simp add: take_map min_def)
  have t2: "take (length xs - i) (drop i (vmem v')) = map Some (drop i xs)"
    using arg_cong [OF t, of "drop i"] by (simp add: drop_take drop_map)
  have ins: "tmq_vec_insert v i x =
      (0, v'\<lparr>vmem := take i (vmem v') @ [Some x] @ take (vsize v' - i) (drop i (vmem v'))
                     @ drop (Suc (vsize v')) (vmem v'), vsize := Suc (vsize v')\<rparr>)"
    using assms(2) vec_rep_length [OF assms(1)]
    unfolding tmq_vec_insert_def Let_def v'_def [symmetric] by simp
  then show "fst (tmq_vec_insert v i x) = 0" by simp
  show "vec_rep (snd (tmq_vec_insert v i x)) (take i xs @ x # drop i xs)"
    using assms(2) v'(2,3) t1 t2
    by (simp add: ins vec_rep_def vcap_def Suc_diff_le)
qed

lemma vec_rep_erase:
  assumes "vec_rep v xs" and "i < length xs"
  shows "vec_rep (tmq_vec_erase v i) (take i xs @ drop (Suc i) xs)"
proof -
  have sz: "vsize v = length xs" and le: "length xs \<le> length (vmem v)"
    and t: "take (length xs) (vmem v) = map Some xs"
    using assms vec_rep_length [OF assms(1)] by (auto simp: vec_rep_def vcap_def)
  have t1: "take i (vmem v) = map Some (take i xs)"
    using arg_cong [OF t, of "take i"] assms(2) by (simp add: take_map min_def)
  have t2: "take (length xs - Suc i) (drop (Suc i) (vmem v)) = map Some (drop (Suc i) xs)"
    using arg_cong [OF t, of "drop (Suc i)"] by (simp add: drop_take drop_map)
  have "length (tl xs) = length xs - 1" by simp
  show ?thesis
    using assms sz le t1 t2
    by (simp add: tmq_vec_erase_def vec_rep_def vcap_def)
qed

lemma vec_rep_clear: "vec_rep (tmq_vec_clear v) []"
  by (simp add: vec_rep_def tmq_vec_clear_def)

lemma vec_rep_reserve: "vec_rep v xs \<Longrightarrow> vec_rep (tmq_vec_reserve v n) xs"
  using vec_rep_cap [of v xs] vec_rep_length [of v xs]
  by (auto simp: tmq_vec_reserve_def intro!: vec_rep_realloc)

lemma vcap_reserve: "n \<le> vcap (tmq_vec_reserve v n)" "vcap v \<le> vcap (tmq_vec_reserve v n)"
  by (auto simp: tmq_vec_reserve_def)

text \<open>
  The write idiom of the packet senders: copy to \<^verbatim>\<open>tmq_vec_end\<close> and then \<^verbatim>\<open>tmq_vec_resize\<close> over
  the copied cells. It appends, provided the copy fits into the reserved cells.
\<close>

lemma vec_rep_store_resize:
  assumes "vec_rep v xs" and "vsize v + length cells \<le> vcap v"
    and "take n cells = map Some ys" and "n \<le> length cells" and "length ys = n"
  shows "\<exists>v'. vec_store v (vsize v) cells = Inr v' \<and> vcap v' = vcap v
           \<and> vec_rep (tmq_vec_resize v' (vsize v' + n)) (xs @ ys)
           \<and> vcap (tmq_vec_resize v' (vsize v' + n)) = vcap v"
proof -
  define v' where "v' = v\<lparr>vmem := take (vsize v) (vmem v) @ cells @ drop (vsize v + length cells) (vmem v)\<rparr>"
  have le: "vsize v \<le> length (vmem v)" using assms(1) by (simp add: vec_rep_def vcap_def)
  have cap: "vcap v' = vcap v" using assms(2) le by (simp add: v'_def vcap_def)
  have res: "tmq_vec_resize v' (vsize v' + n) = v'\<lparr>vsize := vsize v + n\<rparr>"
    using assms(2,4) cap by (simp add: tmq_vec_resize_def tmq_vec_reserve_def v'_def)
  have "take (vsize v + n) (vmem v') = map Some (xs @ ys)"
    using assms le vec_rep_length [OF assms(1)] by (simp add: v'_def vec_rep_def)
  with assms(2,4) cap res have "vec_rep (tmq_vec_resize v' (vsize v' + n)) (xs @ ys)"
    by (simp add: vec_rep_def vcap_def)
  moreover have "vec_store v (vsize v) cells = Inr v'"
    using assms(2) by (simp add: vec_store_def v'_def)
  moreover have "vcap (tmq_vec_resize v' (vsize v' + n)) = vcap v"
    using res cap by (simp add: vcap_def)
  ultimately show ?thesis using cap by blast
qed

lemma vec_rep_extend:
  assumes "vec_rep v1 xs" and "vec_rep v2 ys"
  shows "\<exists>v. tmq_vec_extend v1 v2 = Inr v \<and> vec_rep v (xs @ ys)"
proof -
  let ?n = "length xs + length ys"
  let ?v = "tmq_vec_reserve v1 ?n"
  have r: "vec_rep ?v xs" and sz: "vsize ?v = length xs"
    using assms(1) vec_rep_reserve vec_rep_length by blast+
  have cells: "take (vsize v2) (vmem v2) = map Some ys"
    using assms(2) by (simp add: vec_rep_def)
  have "\<exists>v'. vec_store ?v (vsize ?v) (map Some ys) = Inr v' \<and> vcap v' = vcap ?v
           \<and> vec_rep (tmq_vec_resize v' (vsize v' + length ys)) (xs @ ys)
           \<and> vcap (tmq_vec_resize v' (vsize v' + length ys)) = vcap ?v"
    by (rule vec_rep_store_resize [OF r]) (use sz vcap_reserve in auto)
  then obtain v' where v': "vec_store ?v (vsize ?v) (map Some ys) = Inr v'"
      and rep: "vec_rep (tmq_vec_resize v' (vsize v' + length ys)) (xs @ ys)"
    by blast
  have "vsize v' = length xs" using v' sz by (auto simp: vec_store_def split: if_splits)
  with v' rep cells show ?thesis
    using vec_rep_length [OF assms(1)] vec_rep_length [OF assms(2)]
    by (simp add: tmq_vec_extend_def tmq_vec_size_def Let_def sz)
qed

section \<open>Interface\<close>

locale array_list =
  fixes empty :: "'v"
    and push :: "'v \<Rightarrow> 'a \<Rightarrow> 'v"
    and get :: "'v \<Rightarrow> nat \<Rightarrow> 'a option"
    and pop :: "'v \<Rightarrow> 'a option \<times> 'v"
    and size_of :: "'v \<Rightarrow> nat"
    and rep :: "'v \<Rightarrow> 'a list \<Rightarrow> bool"
  assumes rep_empty: "rep empty []"
    and rep_push: "rep v xs \<Longrightarrow> rep (push v x) (xs @ [x])"
    and get_nth: "rep v xs \<Longrightarrow> get v i = (if i < length xs then Some (xs ! i) else None)"
    and pop_last: "rep v xs \<Longrightarrow> fst (pop v) = (if xs = [] then None else Some (last xs))"
    and rep_pop: "rep v xs \<Longrightarrow> rep (snd (pop v)) (butlast xs)"
    and size_length: "rep v xs \<Longrightarrow> size_of v = length xs"
begin

lemma pop_push: "rep v xs \<Longrightarrow> fst (pop (push v x)) = Some x \<and> rep (snd (pop (push v x))) xs"
  using pop_last [OF rep_push] rep_pop [OF rep_push] by simp

lemma get_push:
  "rep v xs \<Longrightarrow> get (push v x) i = (if i = size_of v then Some x else get v i)"
  using get_nth [OF rep_push, of v xs x i] get_nth [of v xs i] size_length [of v xs]
  by (auto simp: nth_append)

lemma rep_fold_push: "rep v xs \<Longrightarrow> rep (fold (\<lambda>x v. push v x) ys v) (xs @ ys)"
proof (induction ys arbitrary: v xs)
  case (Cons y ys)
  show ?case using Cons.IH [OF rep_push [OF Cons.prems]] by simp
qed simp

lemma push_all_get:
  "i < length ys \<Longrightarrow> get (fold (\<lambda>x v. push v x) ys empty) i = Some (ys ! i)"
  using get_nth [OF rep_fold_push [OF rep_empty]] by simp

end

interpretation vec: array_list tmq_base_init tmq_vec_push_back tmq_vec_get tmq_vec_pop_back
  tmq_vec_size vec_rep
  by unfold_locales
     (auto simp: vec_rep_init vec_rep_push_back vec_rep_get vec_rep_pop_back vec_rep_length
        tmq_vec_size_def)

section \<open>Properties\<close>

datatype 'a vec_op =
    Push 'a
  | Pop
  | Insert nat 'a
  | Erase_At nat
  | Set_At nat 'a
  | Clear_All
  | Reserve nat

fun vec_step :: "'a vec_op \<Rightarrow> 'a vec \<Rightarrow> 'a vec" where
  "vec_step (Push x) v = tmq_vec_push_back v x"
| "vec_step Pop v = snd (tmq_vec_pop_back v)"
| "vec_step (Insert i x) v = snd (tmq_vec_insert v i x)"
| "vec_step (Erase_At i) v = tmq_vec_erase v i"
| "vec_step (Set_At i x) v = snd (tmq_vec_set v i x)"
| "vec_step Clear_All v = tmq_vec_clear v"
| "vec_step (Reserve n) v = tmq_vec_reserve v n"

fun list_step :: "'a vec_op \<Rightarrow> 'a list \<Rightarrow> 'a list" where
  "list_step (Push x) xs = xs @ [x]"
| "list_step Pop xs = butlast xs"
| "list_step (Insert i x) xs = (if i \<le> length xs then take i xs @ x # drop i xs else xs)"
| "list_step (Erase_At i) xs = take i xs @ drop (Suc i) xs"
| "list_step (Set_At i x) xs = xs[i := x]"
| "list_step Clear_All xs = []"
| "list_step (Reserve n) xs = xs"

lemma vec_step_refines: "vec_rep v xs \<Longrightarrow> vec_rep (vec_step op v) (list_step op xs)"
proof (cases op)
  case (Insert i x)
  assume r: "vec_rep v xs"
  show ?thesis
  proof (cases "i \<le> length xs")
    case True
    then show ?thesis using Insert vec_rep_insert(2) [OF r True] by simp
  next
    case False
    then show ?thesis using Insert r by (simp add: tmq_vec_insert_def vec_rep_length)
  qed
next
  case (Erase_At i)
  assume r: "vec_rep v xs"
  then show ?thesis
    using Erase_At vec_rep_erase [OF r, of i]
    by (cases "i < length xs") (simp_all add: tmq_vec_erase_def vec_rep_length)
next
  case (Set_At i x)
  assume r: "vec_rep v xs"
  then show ?thesis
    using Set_At vec_rep_set [OF r, of i x]
    by (cases "i < length xs") (simp_all add: tmq_vec_set_def vec_rep_length list_update_beyond)
qed (simp_all add: vec_rep_push_back vec_rep_pop_back vec_rep_clear vec_rep_reserve)

lemma vec_steps_refine: "vec_rep v xs \<Longrightarrow> vec_rep (fold vec_step ops v) (fold list_step ops xs)"
  by (induction ops arbitrary: v xs) (simp_all add: vec_step_refines)

text \<open>
  C25. Any sequence of push, pop, insert, erase, set, clear and reserve on an initially empty vector
  leaves it representing the list that the same operations give: every index below the size reads
  the list's element (never an uninitialised cell), every index beyond reads nothing, and the size
  never exceeds the allocated capacity.
\<close>

theorem vec_refines_list:
  fixes ops :: "'a vec_op list"
  defines "v \<equiv> fold vec_step ops tmq_base_init" and "xs \<equiv> fold list_step ops []"
  shows "tmq_vec_size v = length xs \<and> length xs \<le> vcap v \<and>
         tmq_vec_get v i = (if i < length xs then Some (xs ! i) else None) \<and>
         fst (tmq_vec_pop_back v) = (if xs = [] then None else Some (last xs))"
proof -
  have r: "vec_rep v xs" unfolding v_def xs_def by (rule vec_steps_refine [OF vec_rep_init])
  show ?thesis
    using vec.get_nth [OF r] vec.pop_last [OF r] vec.size_length [OF r] vec_rep_cap [OF r] by simp
qed

end
