(* ===== verification/Packet.thy ===== *)
theory Packet
  imports Vec
begin

text \<open>
  The control packets of \<^verbatim>\<open>mqtt/mqtt_packet.h\<close> and their flag macros. A pointer field that
  may be NULL (the optional strings of CONNECT) is an option. The packet identifier of a QoS 0
  PUBLISH is not set by the decoder and never read; it is 0 here.
\<close>

datatype packet_type =
    MQTT_CONNECT | MQTT_CONNACK | MQTT_PUBLISH | MQTT_PUBACK | MQTT_PUBREC | MQTT_PUBREL
  | MQTT_PUBCOMP | MQTT_SUBSCRIBE | MQTT_SUBACK | MQTT_UNSUBSCRIBE | MQTT_UNSUBACK
  | MQTT_PINGREQ | MQTT_PINGRESP | MQTT_DISCONNECT

fun packet_type_code :: "packet_type \<Rightarrow> u8" where
  "packet_type_code MQTT_CONNECT = 1"
| "packet_type_code MQTT_CONNACK = 2"
| "packet_type_code MQTT_PUBLISH = 3"
| "packet_type_code MQTT_PUBACK = 4"
| "packet_type_code MQTT_PUBREC = 5"
| "packet_type_code MQTT_PUBREL = 6"
| "packet_type_code MQTT_PUBCOMP = 7"
| "packet_type_code MQTT_SUBSCRIBE = 8"
| "packet_type_code MQTT_SUBACK = 9"
| "packet_type_code MQTT_UNSUBSCRIBE = 10"
| "packet_type_code MQTT_UNSUBACK = 11"
| "packet_type_code MQTT_PINGREQ = 12"
| "packet_type_code MQTT_PINGRESP = 13"
| "packet_type_code MQTT_DISCONNECT = 14"

record connect_pkt =
  conn_flags :: u8
  keep_alive :: u16
  client_id :: "tmq_str option"
  will_topic :: "tmq_str option"
  will_message :: "tmq_str option"
  username :: "tmq_str option"
  password :: "tmq_str option"

definition CONNECT_USERNAME_FLAG :: "u8 \<Rightarrow> bool" where
  "CONNECT_USERNAME_FLAG f \<longleftrightarrow> f AND 0x80 \<noteq> 0"

definition CONNECT_PASSWORD_FLAG :: "u8 \<Rightarrow> bool" where
  "CONNECT_PASSWORD_FLAG f \<longleftrightarrow> f AND 0x40 \<noteq> 0"

definition CONNECT_WILL_RETAIN :: "u8 \<Rightarrow> bool" where
  "CONNECT_WILL_RETAIN f \<longleftrightarrow> f AND 0x20 \<noteq> 0"

definition CONNECT_WILL_QOS :: "u8 \<Rightarrow> u8" where
  "CONNECT_WILL_QOS f = drop_bit 3 f AND 0x03"

definition CONNECT_WILL_FLAG :: "u8 \<Rightarrow> bool" where
  "CONNECT_WILL_FLAG f \<longleftrightarrow> f AND 0x04 \<noteq> 0"

definition CONNECT_CLEAN_SESSION :: "u8 \<Rightarrow> bool" where
  "CONNECT_CLEAN_SESSION f \<longleftrightarrow> f AND 0x02 \<noteq> 0"

definition CONNECT_RESERVED :: "u8 \<Rightarrow> bool" where
  "CONNECT_RESERVED f \<longleftrightarrow> f AND 0x01 \<noteq> 0"

datatype connack_return_code =
    CONNECTION_ACCEPTED | UNACCEPTABLE_PROTOCOL_VERSION | IDENTIFIER_REJECTED
  | SERVER_UNAVAILABLE | BAD_USERNAME_OR_PASSWORD | NOT_AUTHORIZED

fun connack_code :: "connack_return_code \<Rightarrow> u8" where
  "connack_code CONNECTION_ACCEPTED = 0"
| "connack_code UNACCEPTABLE_PROTOCOL_VERSION = 1"
| "connack_code IDENTIFIER_REJECTED = 2"
| "connack_code SERVER_UNAVAILABLE = 3"
| "connack_code BAD_USERNAME_OR_PASSWORD = 4"
| "connack_code NOT_AUTHORIZED = 5"

text \<open>The return code of a received CONNACK is any byte, so the field keeps the number.\<close>

record connack_pkt =
  ack_flags :: u8
  return_code :: u8

record publish_pkt =
  pub_flags :: u8
  topic :: tmq_str
  packet_id :: u16
  payload :: tmq_str

definition PUBLISH_QOS :: "u8 \<Rightarrow> u8" where
  "PUBLISH_QOS f = drop_bit 1 f AND 0x03"

definition PUBLISH_DUP :: "u8 \<Rightarrow> bool" where
  "PUBLISH_DUP f \<longleftrightarrow> f AND 0x08 \<noteq> 0"

definition PUBLISH_RETAIN :: "u8 \<Rightarrow> bool" where
  "PUBLISH_RETAIN f \<longleftrightarrow> f AND 0x01 \<noteq> 0"

record topic_filter_qos =
  topic_filter :: tmq_str
  tf_qos :: u8

record subscribe_pkt =
  sub_packet_id :: u16
  sub_topics :: "topic_filter_qos list"

record suback_pkt =
  suback_packet_id :: u16
  return_codes :: "u8 list"

record unsubscribe_pkt =
  unsub_packet_id :: u16
  unsub_topics :: "tmq_str list"

text \<open>\<^verbatim>\<open>tmq_any_packet_t\<close>: a packet type with the packet it points to.\<close>

datatype any_packet =
    CONNECT connect_pkt
  | CONNACK connack_pkt
  | PUBLISH publish_pkt
  | PUBACK u16
  | PUBREC u16
  | PUBREL u16
  | PUBCOMP u16
  | SUBSCRIBE subscribe_pkt
  | SUBACK suback_pkt
  | UNSUBSCRIBE unsubscribe_pkt
  | UNSUBACK u16
  | PINGREQ
  | PINGRESP
  | DISCONNECT

fun any_packet_type :: "any_packet \<Rightarrow> packet_type" where
  "any_packet_type (CONNECT _) = MQTT_CONNECT"
| "any_packet_type (CONNACK _) = MQTT_CONNACK"
| "any_packet_type (PUBLISH _) = MQTT_PUBLISH"
| "any_packet_type (PUBACK _) = MQTT_PUBACK"
| "any_packet_type (PUBREC _) = MQTT_PUBREC"
| "any_packet_type (PUBREL _) = MQTT_PUBREL"
| "any_packet_type (PUBCOMP _) = MQTT_PUBCOMP"
| "any_packet_type (SUBSCRIBE _) = MQTT_SUBSCRIBE"
| "any_packet_type (SUBACK _) = MQTT_SUBACK"
| "any_packet_type (UNSUBSCRIBE _) = MQTT_UNSUBSCRIBE"
| "any_packet_type (UNSUBACK _) = MQTT_UNSUBACK"
| "any_packet_type PINGREQ = MQTT_PINGREQ"
| "any_packet_type PINGRESP = MQTT_PINGRESP"
| "any_packet_type DISCONNECT = MQTT_DISCONNECT"

text \<open>
  Cloning a PUBLISH copies its strings with \<^verbatim>\<open>tmq_str_new\<close>, which measures them with
  \<^verbatim>\<open>strlen\<close>: a payload with a NUL byte is cut there.
\<close>

definition tmq_publish_pkt_clone :: "publish_pkt \<Rightarrow> publish_pkt" where
  "tmq_publish_pkt_clone p = p\<lparr>topic := cstr (topic p), payload := cstr (payload p)\<rparr>"

lemma publish_clone_id:
  "NUL \<notin> set (topic p) \<Longrightarrow> NUL \<notin> set (payload p) \<Longrightarrow> tmq_publish_pkt_clone p = p"
  by (simp add: tmq_publish_pkt_clone_def)

lemma PUBLISH_QOS_le: "PUBLISH_QOS f \<le> 3"
  by (simp add: PUBLISH_QOS_def word_and_le1)

end
