(* ===== verification/Encode.thy ===== *)
theory Encode
  imports Packet
begin

text \<open>
  The packet senders of \<^verbatim>\<open>codec/mqtt_proto_codec.c\<close>. Each builds a packet in a byte vector
  (theory \<open>Vec\<close>) and hands it to \<^verbatim>\<open>tmq_tcp_conn_write\<close>; the result is the bytes written,
  \<open>None\<close> when the sender gives up because the remaining length does not fit, or a fault: a
  \<^verbatim>\<open>strcpy\<close> or \<^verbatim>\<open>memcpy\<close> outside the vector's allocation, or a byte sent that was never written.
  Lengths are kept in 32 bits where the source keeps them so.
\<close>

type_synonym packet_buf = "u8 vec"
type_synonym send_result = "bytes option res"

text \<open>The loop that writes the remaining length, seven bits at a time, least significant first.\<close>

function encode_remain_length :: "u32 \<Rightarrow> packet_buf \<Rightarrow> nat \<Rightarrow> packet_buf \<times> nat" where
  "encode_remain_length n buf byte_cnt =
     (let byte = ucast (n mod 128); n' = n div 128;
          byte = (if n' > 0 then byte OR 0x80 else byte);
          buf = tmq_vec_push_back buf byte;
          byte_cnt = Suc byte_cnt
      in if n' > 0 then encode_remain_length n' buf byte_cnt else (buf, byte_cnt))"
  by pat_completeness auto
termination
  by (relation "measure (\<lambda>(n, _, _). unat n)") (auto simp: word_less_nat_alt unat_div)

declare encode_remain_length.simps [simp del]

definition make_fixed_header :: "packet_type \<Rightarrow> u8 \<Rightarrow> u32 \<Rightarrow> packet_buf \<Rightarrow> int \<times> packet_buf" where
  "make_fixed_header type flags remain_length buf =
     (let type_flags = push_bit 4 (packet_type_code type) OR (flags AND 0x0F);
          (buf, byte_cnt) = encode_remain_length remain_length (tmq_vec_push_back buf type_flags) 0
      in (if byte_cnt > 4 then -1 else 0, buf))"

text \<open>
  The host is little-endian: after \<^verbatim>\<open>htobe16\<close> the low byte of the value in memory order is the
  most significant one.
\<close>

definition htobe16 :: "u16 \<Rightarrow> u16" where
  "htobe16 v = push_bit 8 v OR drop_bit 8 v"

definition pack_uint16 :: "packet_buf \<Rightarrow> u16 \<Rightarrow> packet_buf" where
  "pack_uint16 buf v =
     (let v_be = htobe16 v
      in tmq_vec_push_back (tmq_vec_push_back buf (ucast (v_be AND 0xFF)))
           (ucast (drop_bit 8 v_be AND 0xFF)))"

text \<open>
  \<^verbatim>\<open>strcpy(tmq_vec_end(buf), s)\<close> copies up to and including the terminating NUL;
  \<^verbatim>\<open>tmq_vec_resize(buf, tmq_vec_size(buf) + tmq_str_len(s))\<close> then claims the string's length.
\<close>

definition put_strcpy :: "packet_buf \<Rightarrow> tmq_str \<Rightarrow> packet_buf res" where
  "put_strcpy buf s =
     bind (vec_store buf (vsize buf) (map Some (bytes_of_str (cstr s) @ [0])))
       (\<lambda>buf. Inr (tmq_vec_resize buf (tmq_vec_size buf + length s)))"

definition put_memcpy :: "packet_buf \<Rightarrow> tmq_str \<Rightarrow> packet_buf res" where
  "put_memcpy buf s =
     bind (vec_store buf (vsize buf) (map Some (bytes_of_str s)))
       (\<lambda>buf. Inr (tmq_vec_resize buf (tmq_vec_size buf + length s)))"

text \<open>A pointer that may be NULL.\<close>

definition tmq_str_len :: "tmq_str option \<Rightarrow> nat" where
  "tmq_str_len s = (case s of None \<Rightarrow> 0 | Some s \<Rightarrow> length s)"

definition put_lstr :: "packet_buf \<Rightarrow> tmq_str option \<Rightarrow> packet_buf res" where
  "put_lstr buf s =
     (let buf = pack_uint16 buf (of_nat (tmq_str_len s))
      in case s of None \<Rightarrow> Inl Null_Deref | Some s \<Rightarrow> put_strcpy buf s)"

text \<open>\<^verbatim>\<open>tmq_tcp_conn_write(conn, tmq_vec_begin(buf), tmq_vec_size(buf))\<close>\<close>

definition vec_write :: "packet_buf \<Rightarrow> send_result" where
  "vec_write buf =
     (let cells = take (vsize buf) (vmem buf)
      in if None \<in> set cells then Inl Uninit_Read else Inr (Some (map the cells)))"

definition connect_remain_len :: "connect_pkt \<Rightarrow> u32" where
  "connect_remain_len p =
     (let n = 10;
          n = n + of_nat (tmq_str_len (client_id p)) + 2;
          n = (if CONNECT_USERNAME_FLAG (conn_flags p)
               then n + of_nat (tmq_str_len (username p)) + 2 else n);
          n = (if CONNECT_PASSWORD_FLAG (conn_flags p)
               then n + of_nat (tmq_str_len (password p)) + 2 else n);
          n = (if CONNECT_WILL_FLAG (conn_flags p)
               then n + of_nat (tmq_str_len (will_topic p)) + 2
                      + of_nat (tmq_str_len (will_message p)) + 2 else n)
      in n)"

definition put_if :: "bool \<Rightarrow> tmq_str option \<Rightarrow> packet_buf \<Rightarrow> packet_buf res" where
  "put_if c s buf = (if c then put_lstr buf s else Inr buf)"

definition send_connect_packet :: "connect_pkt \<Rightarrow> send_result" where
  "send_connect_packet p =
     (let remain_len = connect_remain_len p;
          (r, buf) = make_fixed_header MQTT_CONNECT 0 remain_len tmq_base_init
      in if r < 0 then Inr None
         else
           let buf = tmq_vec_reserve buf (tmq_vec_size buf + unat remain_len);
               buf = pack_uint16 buf 4
           in bind (put_strcpy buf ''MQTT'') (\<lambda>buf.
              let buf = tmq_vec_push_back buf 4;
                  buf = tmq_vec_push_back buf (conn_flags p);
                  buf = pack_uint16 buf (keep_alive p);
                  buf = pack_uint16 buf (of_nat (tmq_str_len (client_id p)))
              in bind (case client_id p of
                         Some s \<Rightarrow> if s \<noteq> [] then put_strcpy buf s else Inr buf
                       | None \<Rightarrow> Inr buf) (\<lambda>buf.
                 bind (put_if (CONNECT_WILL_FLAG (conn_flags p)) (will_topic p) buf) (\<lambda>buf.
                 bind (put_if (CONNECT_WILL_FLAG (conn_flags p)) (will_message p) buf) (\<lambda>buf.
                 bind (put_if (CONNECT_USERNAME_FLAG (conn_flags p)) (username p) buf) (\<lambda>buf.
                 bind (put_if (CONNECT_PASSWORD_FLAG (conn_flags p)) (password p) buf)
                   vec_write))))))"

definition send_conn_ack_packet :: "connack_pkt \<Rightarrow> send_result" where
  "send_conn_ack_packet p =
     (let (r, buf) = make_fixed_header MQTT_CONNACK 0 2 tmq_base_init
      in if r < 0 then Inr None
         else vec_write (tmq_vec_push_back (tmq_vec_push_back buf (ack_flags p)) (return_code p)))"

definition pack_publish_packet :: "packet_buf \<Rightarrow> publish_pkt \<Rightarrow> packet_buf option res" where
  "pack_publish_packet buf p =
     (let topic_len = length (topic p);
          payload_len = length (payload p);
          remain_len = (of_nat (4 + topic_len + payload_len) :: u32);
          remain_len = (if PUBLISH_QOS (pub_flags p) = 0 then remain_len - 2 else remain_len);
          (r, buf) = make_fixed_header MQTT_PUBLISH (pub_flags p) remain_len buf
      in if r < 0 then Inr None
         else
           let buf = tmq_vec_reserve buf (tmq_vec_size buf + unat remain_len);
               buf = pack_uint16 buf (of_nat topic_len)
           in bind (put_memcpy buf (topic p)) (\<lambda>buf.
              let buf = (if PUBLISH_QOS (pub_flags p) > 0 then pack_uint16 buf (packet_id p) else buf)
              in bind (put_memcpy buf (payload p)) (\<lambda>buf. Inr (Some buf))))"

definition send_publish_packet :: "publish_pkt \<Rightarrow> send_result" where
  "send_publish_packet p =
     bind (pack_publish_packet tmq_base_init p) (\<lambda>r.
       case r of None \<Rightarrow> Inr None | Some buf \<Rightarrow> vec_write buf)"

text \<open>The five senders whose body is only a packet identifier differ in type and flags.\<close>

definition send_id_packet :: "packet_type \<Rightarrow> u8 \<Rightarrow> u16 \<Rightarrow> send_result" where
  "send_id_packet type flags i =
     (let (r, buf) = make_fixed_header type flags 2 tmq_base_init
      in if r < 0 then Inr None else vec_write (pack_uint16 buf i))"

definition send_pub_ack_packet :: "u16 \<Rightarrow> send_result" where
  "send_pub_ack_packet i = send_id_packet MQTT_PUBACK 0 i"

definition send_pub_rec_packet :: "u16 \<Rightarrow> send_result" where
  "send_pub_rec_packet i = send_id_packet MQTT_PUBREC 0 i"

definition send_pub_rel_packet :: "u16 \<Rightarrow> send_result" where
  "send_pub_rel_packet i = send_id_packet MQTT_PUBREL 2 i"

definition send_pub_comp_packet :: "u16 \<Rightarrow> send_result" where
  "send_pub_comp_packet i = send_id_packet MQTT_PUBCOMP 0 i"

definition send_unsub_ack_packet :: "u16 \<Rightarrow> send_result" where
  "send_unsub_ack_packet i = send_id_packet MQTT_UNSUBACK 0 i"

fun put_filters :: "topic_filter_qos list \<Rightarrow> packet_buf \<Rightarrow> packet_buf res" where
  "put_filters [] buf = Inr buf"
| "put_filters (tf # tfs) buf =
     (let buf = pack_uint16 buf (of_nat (length (topic_filter tf)))
      in bind (put_strcpy buf (topic_filter tf)) (\<lambda>buf.
           put_filters tfs (tmq_vec_push_back buf (tf_qos tf))))"

definition send_subscribe_packet :: "subscribe_pkt \<Rightarrow> send_result" where
  "send_subscribe_packet p =
     (let remain_length =
            fold (\<lambda>tf n. n + of_nat (length (topic_filter tf) + 3)) (sub_topics p) (2 :: u32);
          (r, buf) = make_fixed_header MQTT_SUBSCRIBE 2 remain_length tmq_base_init
      in if r < 0 then Inr None
         else
           let buf = tmq_vec_reserve buf (unat remain_length)
           in bind (put_filters (sub_topics p) (pack_uint16 buf (sub_packet_id p))) vec_write)"

definition send_sub_ack_packet :: "suback_pkt \<Rightarrow> send_result" where
  "send_sub_ack_packet p =
     (let payload_len = (of_nat (length (return_codes p)) :: u32);
          (r, buf) = make_fixed_header MQTT_SUBACK 0 (2 + payload_len) tmq_base_init
      in if r < 0 then Inr None
         else vec_write (fold (\<lambda>c buf. tmq_vec_push_back buf c) (return_codes p)
                           (pack_uint16 buf (suback_packet_id p))))"

fun put_topics :: "tmq_str list \<Rightarrow> packet_buf \<Rightarrow> packet_buf res" where
  "put_topics [] buf = Inr buf"
| "put_topics (t # ts) buf =
     bind (put_strcpy (pack_uint16 buf (of_nat (length t))) t) (put_topics ts)"

definition send_unsubscribe_packet :: "unsubscribe_pkt \<Rightarrow> send_result" where
  "send_unsubscribe_packet p =
     (let remain_length = fold (\<lambda>t n. n + of_nat (length t + 2)) (unsub_topics p) (2 :: u32);
          (r, buf) = make_fixed_header MQTT_UNSUBSCRIBE 2 remain_length tmq_base_init
      in if r < 0 then Inr None
         else
           let buf = tmq_vec_reserve buf (unat remain_length)
           in bind (put_topics (unsub_topics p) (pack_uint16 buf (unsub_packet_id p))) vec_write)"

definition send_empty_packet :: "packet_type \<Rightarrow> send_result" where
  "send_empty_packet type =
     (let (r, buf) = make_fixed_header type 0 0 tmq_base_init
      in if r < 0 then Inr None else vec_write buf)"

definition send_ping_req_packet :: send_result where
  "send_ping_req_packet = send_empty_packet MQTT_PINGREQ"

definition send_ping_resp_packet :: send_result where
  "send_ping_resp_packet = send_empty_packet MQTT_PINGRESP"

definition send_disconnect_packet :: send_result where
  "send_disconnect_packet = send_empty_packet MQTT_DISCONNECT"

text \<open>The dispatch table \<^verbatim>\<open>packet_senders\<close>.\<close>

fun packet_sender :: "any_packet \<Rightarrow> send_result" where
  "packet_sender (CONNECT p) = send_connect_packet p"
| "packet_sender (CONNACK p) = send_conn_ack_packet p"
| "packet_sender (PUBLISH p) = send_publish_packet p"
| "packet_sender (PUBACK i) = send_pub_ack_packet i"
| "packet_sender (PUBREC i) = send_pub_rec_packet i"
| "packet_sender (PUBREL i) = send_pub_rel_packet i"
| "packet_sender (PUBCOMP i) = send_pub_comp_packet i"
| "packet_sender (SUBSCRIBE p) = send_subscribe_packet p"
| "packet_sender (SUBACK p) = send_sub_ack_packet p"
| "packet_sender (UNSUBSCRIBE p) = send_unsubscribe_packet p"
| "packet_sender (UNSUBACK i) = send_unsub_ack_packet i"
| "packet_sender PINGREQ = send_ping_req_packet"
| "packet_sender PINGRESP = send_ping_resp_packet"
| "packet_sender DISCONNECT = send_disconnect_packet"

section \<open>The wire format\<close>

text \<open>
  \<open>packet_bytes\<close> is the reference: the MQTT encoding of a packet as a byte list, against which the
  senders (and, in theory \<open>Codec_Roundtrip\<close>, the decoder) are verified.
\<close>

fun len_bytes :: "nat \<Rightarrow> bytes" where
  "len_bytes n = (if n < 128 then [of_nat n] else of_nat (128 + n mod 128) # len_bytes (n div 128))"

declare len_bytes.simps [simp del]

definition be16 :: "u16 \<Rightarrow> bytes" where
  "be16 v = [ucast (drop_bit 8 v), ucast v]"

definition lstr :: "tmq_str \<Rightarrow> bytes" where
  "lstr s = be16 (of_nat (length s)) @ bytes_of_str s"

definition lstr_if :: "bool \<Rightarrow> tmq_str option \<Rightarrow> bytes" where
  "lstr_if c s = (if c then lstr (the s) else [])"

fun packet_flags :: "any_packet \<Rightarrow> u8" where
  "packet_flags (PUBLISH p) = pub_flags p"
| "packet_flags (PUBREL _) = 2"
| "packet_flags (SUBSCRIBE _) = 2"
| "packet_flags (UNSUBSCRIBE _) = 2"
| "packet_flags _ = 0"

fun packet_body :: "any_packet \<Rightarrow> bytes" where
  "packet_body (CONNECT p) =
     lstr ''MQTT'' @ [4, conn_flags p] @ be16 (keep_alive p)
     @ lstr (case client_id p of Some s \<Rightarrow> s | None \<Rightarrow> [])
     @ lstr_if (CONNECT_WILL_FLAG (conn_flags p)) (will_topic p)
     @ lstr_if (CONNECT_WILL_FLAG (conn_flags p)) (will_message p)
     @ lstr_if (CONNECT_USERNAME_FLAG (conn_flags p)) (username p)
     @ lstr_if (CONNECT_PASSWORD_FLAG (conn_flags p)) (password p)"
| "packet_body (CONNACK p) = [ack_flags p, return_code p]"
| "packet_body (PUBLISH p) =
     lstr (topic p) @ (if PUBLISH_QOS (pub_flags p) > 0 then be16 (packet_id p) else [])
     @ bytes_of_str (payload p)"
| "packet_body (PUBACK i) = be16 i"
| "packet_body (PUBREC i) = be16 i"
| "packet_body (PUBREL i) = be16 i"
| "packet_body (PUBCOMP i) = be16 i"
| "packet_body (SUBSCRIBE p) =
     be16 (sub_packet_id p) @ concat (map (\<lambda>tf. lstr (topic_filter tf) @ [tf_qos tf]) (sub_topics p))"
| "packet_body (SUBACK p) = be16 (suback_packet_id p) @ return_codes p"
| "packet_body (UNSUBSCRIBE p) = be16 (unsub_packet_id p) @ concat (map lstr (unsub_topics p))"
| "packet_body (UNSUBACK i) = be16 i"
| "packet_body PINGREQ = []"
| "packet_body PINGRESP = []"
| "packet_body DISCONNECT = []"

definition header_byte :: "any_packet \<Rightarrow> u8" where
  "header_byte p = push_bit 4 (packet_type_code (any_packet_type p)) OR (packet_flags p AND 0x0F)"

definition packet_bytes :: "any_packet \<Rightarrow> bytes" where
  "packet_bytes p = header_byte p # len_bytes (length (packet_body p)) @ packet_body p"

text \<open>A string that the protocol can carry, and one that \<^verbatim>\<open>strcpy\<close> copies entirely.\<close>

definition wire_str :: "tmq_str \<Rightarrow> bool" where
  "wire_str s \<longleftrightarrow> length s < 65536"

definition c_str :: "tmq_str \<Rightarrow> bool" where
  "c_str s \<longleftrightarrow> length s < 65536 \<and> NUL \<notin> set s"

definition opt_str :: "bool \<Rightarrow> tmq_str option \<Rightarrow> bool" where
  "opt_str c s \<longleftrightarrow> (if c then (case s of Some s \<Rightarrow> c_str s | None \<Rightarrow> False) else True)"

text \<open>
  The packets the senders are meant for. The last condition on SUBSCRIBE and UNSUBSCRIBE excludes
  the short packets for which \<^verbatim>\<open>tmq_vec_reserve(buf, remain_length)\<close> reserves too little.
\<close>

fun sendable :: "any_packet \<Rightarrow> bool" where
  "sendable (CONNECT p) \<longleftrightarrow>
     opt_str (client_id p \<noteq> None) (client_id p) \<and>
     opt_str (CONNECT_WILL_FLAG (conn_flags p)) (will_topic p) \<and>
     opt_str (CONNECT_WILL_FLAG (conn_flags p)) (will_message p) \<and>
     opt_str (CONNECT_USERNAME_FLAG (conn_flags p)) (username p) \<and>
     opt_str (CONNECT_PASSWORD_FLAG (conn_flags p)) (password p)"
| "sendable (PUBLISH p) \<longleftrightarrow> wire_str (topic p)"
| "sendable (SUBSCRIBE p) \<longleftrightarrow>
     (\<forall>tf\<in>set (sub_topics p). c_str (topic_filter tf)) \<and>
     (8 < length (packet_body (SUBSCRIBE p)) \<or>
      (\<exists>tf\<in>set (sub_topics p). sub_topics p = [tf] \<and> length (topic_filter tf) \<le> 1))"
| "sendable (UNSUBSCRIBE p) \<longleftrightarrow>
     (\<forall>t\<in>set (unsub_topics p). c_str t) \<and>
     (8 < length (packet_body (UNSUBSCRIBE p)) \<or>
      (\<exists>t\<in>set (unsub_topics p). unsub_topics p = [t] \<and> length t \<le> 1))"
| "sendable _ \<longleftrightarrow> True"

section \<open>The writing primitives\<close>

text \<open>\<open>vroom v xs k\<close>: the vector holds \<open>xs\<close> and has at least \<open>k\<close> allocated cells behind them.\<close>

definition vroom :: "'a vec \<Rightarrow> 'a list \<Rightarrow> nat \<Rightarrow> bool" where
  "vroom v xs k \<longleftrightarrow> vec_rep v xs \<and> length xs + k \<le> vcap v"

lemma vcap_push: "vcap v \<le> vcap (tmq_vec_push_back v x)"
  by (auto simp: tmq_vec_push_back_def Let_def vcap_def tmq_vec_grow_def vec_realloc_def)

lemma vroom_push: "vroom v xs k \<Longrightarrow> vroom (tmq_vec_push_back v x) (xs @ [x]) (k - 1)"
  using vcap_push [of v x] vec_rep_push_back [of v xs x] vec_rep_cap [of "tmq_vec_push_back v x" "xs @ [x]"]
  by (auto simp: vroom_def)

lemma htobe16_bytes:
  "ucast (htobe16 v AND 0xFF) = (ucast (drop_bit 8 v) :: u8)"
  "ucast (drop_bit 8 (htobe16 v) AND 0xFF) = (ucast v :: u8)"
proof -
  have m: "(0xFF :: u16) = mask 8" by (simp add: mask_eq_exp_minus_1)
  show "ucast (htobe16 v AND 0xFF) = (ucast (drop_bit 8 v) :: u8)"
    "ucast (drop_bit 8 (htobe16 v) AND 0xFF) = (ucast v :: u8)"
    unfolding htobe16_def m
    by (rule bit_eqI; auto simp: bit_simps possible_bit_def)+
qed

lemma vroom_pack16: "vroom v xs k \<Longrightarrow> vroom (pack_uint16 v i) (xs @ be16 i) (k - 2)"
  using vroom_push [OF vroom_push, of v xs k]
  by (simp add: pack_uint16_def Let_def htobe16_bytes be16_def numeral_2_eq_2)

lemma vroom_store:
  assumes "vroom v xs k" and "length s + j \<le> k" and "length cells = length s + j"
    and "take (length s) cells = map Some ys" and "length ys = length s"
  shows "\<exists>v'. bind (vec_store v (vsize v) cells)
       (\<lambda>v. Inr (tmq_vec_resize v (tmq_vec_size v + length s))) = Inr v' \<and>
     vroom v' (xs @ ys) (k - length s)"
proof -
  have r: "vec_rep v xs" and c: "length xs + k \<le> vcap v" using assms(1) by (auto simp: vroom_def)
  obtain v' where v': "vec_store v (vsize v) cells = Inr v'"
      "vec_rep (tmq_vec_resize v' (vsize v' + length s)) (xs @ ys)"
      "vcap (tmq_vec_resize v' (vsize v' + length s)) = vcap v"
    using vec_rep_store_resize [OF r _ assms(4) _ assms(5)] assms(2,3) c vec_rep_length [OF r]
    by fastforce
  then show ?thesis
    using c assms(2,5) by (auto simp: vroom_def tmq_vec_size_def)
qed

lemma vroom_strcpy:
  assumes "vroom v xs k" and "NUL \<notin> set s" and "length s + 1 \<le> k"
  shows "\<exists>v'. put_strcpy v s = Inr v' \<and> vroom v' (xs @ bytes_of_str s) (k - length s)"
  unfolding put_strcpy_def using assms by (intro vroom_store [where j = 1]) auto

lemma vroom_memcpy:
  assumes "vroom v xs k" and "length s \<le> k"
  shows "\<exists>v'. put_memcpy v s = Inr v' \<and> vroom v' (xs @ bytes_of_str s) (k - length s)"
  unfolding put_memcpy_def using assms by (intro vroom_store [where j = 0]) auto

lemma vroom_lstr:
  assumes "vroom v xs k" and "NUL \<notin> set s" and "length s + 3 \<le> k"
  shows "\<exists>v'. put_lstr v (Some s) = Inr v' \<and> vroom v' (xs @ lstr s) (k - (length s + 2))"
  using vroom_strcpy [OF vroom_pack16 [OF assms(1)] assms(2), of "of_nat (length s)"] assms(3)
  by (auto simp: put_lstr_def tmq_str_len_def lstr_def)

lemma vec_write_rep: "vroom v xs k \<Longrightarrow> vec_write v = Inr (Some xs)"
  by (auto simp: vec_write_def Let_def vroom_def vec_rep_def comp_def)

lemma vroom_reserve: "vec_rep v xs \<Longrightarrow> length xs + k \<le> n \<Longrightarrow> vroom (tmq_vec_reserve v n) xs k"
  using vec_rep_reserve [of v xs n] vcap_reserve(1) [of n v] by (auto simp: vroom_def)

section \<open>The fixed header\<close>

lemma len_bytes_ne [simp]: "len_bytes n \<noteq> []"
  by (subst len_bytes.simps) simp

lemma bit_80: "bit (0x80 :: u8) n \<longleftrightarrow> n = 7"
proof -
  have "(0x80 :: u8) = 2 ^ 7" by simp
  then show ?thesis by (simp only: bit_exp_iff) (auto simp: possible_bit_def)
qed

lemma byte_or_80: "m < 128 \<Longrightarrow> (of_nat m :: u8) OR 0x80 = of_nat (128 + m)"
proof -
  assume m: "m < 128"
  have nb: "\<not> bit (of_nat m :: u8) 7"
    using m by (simp add: bit_of_nat_iff bit_iff_odd) (simp add: word_arith_nat_div unat_of_nat)
  have "(of_nat m :: u8) AND 0x80 = 0"
    by (rule bit_eqI) (use nb in \<open>auto simp del: bit_numeral_word_iff simp: bit_and_iff bit_80\<close>)
  moreover have "((of_nat m :: u8) AND 0x80) + (of_nat m OR 0x80) = of_nat m + 0x80"
    by (rule word_plus_and_or)
  ultimately show ?thesis by (simp add: add.commute)
qed

lemma ucast_mod_128: "(ucast (n mod 128) :: u8) = of_nat (unat (n :: u32) mod 128)"
  by (simp add: word_unat_eq_iff unsigned_ucast_eq take_bit_eq_mod unat_of_nat unat_mod)

lemma encode_remain_length_bytes:
  "vec_rep buf xs \<Longrightarrow>
   vec_rep (fst (encode_remain_length n buf c)) (xs @ len_bytes (unat n)) \<and>
   snd (encode_remain_length n buf c) = c + length (len_bytes (unat n))"
proof (induction n buf c arbitrary: xs rule: encode_remain_length.induct)
  case (1 n buf c)
  let ?b = "ucast (n mod 128) :: u8"
  have u: "unat (n div 128) = unat n div 128" by (simp add: unat_div)
  have pos: "n div 128 > 0 \<longleftrightarrow> \<not> unat n < 128"
    by (simp add: word_less_nat_alt u div_greater_zero_iff not_less)
  have b: "?b = of_nat (unat n mod 128)" by (rule ucast_mod_128)
  show ?case
  proof (cases "n div 128 > 0")
    case True
    let ?buf = "tmq_vec_push_back buf (?b OR 0x80)"
    have e: "encode_remain_length n buf c = encode_remain_length (n div 128) ?buf (Suc c)"
      using True by (subst encode_remain_length.simps) (simp add: Let_def)
    have "vec_rep ?buf (xs @ [?b OR 0x80])" using "1.prems" by (rule vec_rep_push_back)
    from "1.IH" [OF refl refl refl refl refl True, of "xs @ [?b OR 0x80]"] this True
    have "vec_rep (fst (encode_remain_length n buf c)) ((xs @ [?b OR 0x80]) @ len_bytes (unat n div 128))
        \<and> snd (encode_remain_length n buf c) = Suc c + length (len_bytes (unat n div 128))"
      by (simp add: e u)
    moreover have "len_bytes (unat n) = (?b OR 0x80) # len_bytes (unat n div 128)"
      using pos True by (subst len_bytes.simps) (simp add: b byte_or_80)
    ultimately show ?thesis by simp
  next
    case False
    have e: "encode_remain_length n buf c = (tmq_vec_push_back buf ?b, Suc c)"
      using False by (subst encode_remain_length.simps) (simp add: Let_def)
    have "len_bytes (unat n) = [?b]"
      using pos False by (subst len_bytes.simps) (simp add: b)
    then show ?thesis using e vec_rep_push_back [OF "1.prems"] by simp
  qed
qed

lemma vcap_push_room: "vsize v < vcap v \<Longrightarrow> vcap (tmq_vec_push_back v x) = vcap v"
  by (simp add: tmq_vec_push_back_def Let_def vcap_def)

lemma encode_remain_length_cap:
  "vec_rep buf xs \<Longrightarrow> length xs + length (len_bytes (unat n)) \<le> vcap buf \<Longrightarrow>
   vcap (fst (encode_remain_length n buf c)) = vcap buf"
proof (induction n buf c arbitrary: xs rule: encode_remain_length.induct)
  case (1 n buf c)
  have u: "unat (n div 128) = unat n div 128" by (simp add: unat_div)
  have pos: "n div 128 > 0 \<longleftrightarrow> \<not> unat n < 128"
    by (simp add: word_less_nat_alt u div_greater_zero_iff not_less)
  have "0 < length (len_bytes (unat n))" by simp
  then have room: "vsize buf < vcap buf"
    using "1.prems" vec_rep_length [OF "1.prems"(1)] by linarith
  show ?case
  proof (cases "n div 128 > 0")
    case True
    let ?b = "ucast (n mod 128) OR 0x80 :: u8"
    have l: "length (len_bytes (unat n)) = Suc (length (len_bytes (unat n div 128)))"
      using pos True by (subst len_bytes.simps) simp
    have "vcap (fst (encode_remain_length (n div 128) (tmq_vec_push_back buf ?b) (Suc c))) = vcap buf"
      using "1.IH" [OF refl refl refl refl refl True, of "xs @ [?b]"] "1.prems"(2) True l
        vec_rep_push_back [OF "1.prems"(1)] vcap_push_room [OF room] u
      by simp
    then show ?thesis using True by (subst encode_remain_length.simps) (simp add: Let_def)
  next
    case False
    then show ?thesis using vcap_push_room [OF room]
      by (subst encode_remain_length.simps) (simp add: Let_def)
  qed
qed

lemma length_len_bytes: "length (len_bytes n) \<le> k \<longleftrightarrow> 0 < k \<and> n < 128 ^ k"
proof (induction k arbitrary: n)
  case (Suc k)
  show ?case
  proof (cases "n < 128")
    case True
    then have "n < 128 ^ Suc k" by (simp add: less_le_trans [of n 128])
    then show ?thesis using True by (subst len_bytes.simps) simp
  next
    case False
    have "n div 128 < 128 ^ k \<longleftrightarrow> n < 128 ^ Suc k"
      by (simp add: div_less_iff_less_mult mult.commute)
    moreover have "k = 0 \<Longrightarrow> \<not> n < 128 ^ Suc k" using False by simp
    ultimately show ?thesis using False Suc.IH [of "n div 128"] by (subst len_bytes.simps) auto
  qed
qed simp

lemma make_fixed_header_bytes:
  fixes n :: u32 and ty :: packet_type and fl :: u8
  assumes "vec_rep v xs"
  shows "vec_rep (snd (make_fixed_header ty fl n v))
      (xs @ (push_bit 4 (packet_type_code ty) OR (fl AND 0x0F)) # len_bytes (unat n))"
    and "fst (make_fixed_header ty fl n v) = (if unat n < 128 ^ 4 then 0 else -1)"
proof -
  let ?h = "push_bit 4 (packet_type_code ty) OR (fl AND 0x0F)"
  have "vec_rep (tmq_vec_push_back v ?h) (xs @ [?h])"
    by (rule vec_rep_push_back [OF assms])
  note e = encode_remain_length_bytes [OF this, of n 0]
  then show "vec_rep (snd (make_fixed_header ty fl n v)) (xs @ ?h # len_bytes (unat n))"
    by (simp add: make_fixed_header_def Let_def split_beta)
  show "fst (make_fixed_header ty fl n v) = (if unat n < 128 ^ 4 then 0 else -1)"
    using e length_len_bytes [of "unat n" 4]
    by (auto simp: make_fixed_header_def Let_def split_beta not_less)
qed

lemma make_fixed_header_cap:
  assumes "unat n < 128 ^ 4"
  shows "vcap (snd (make_fixed_header ty fl n tmq_base_init)) = 8"
proof -
  let ?h = "push_bit 4 (packet_type_code ty) OR (fl AND 0x0F)"
  have r: "vec_rep (tmq_vec_push_back tmq_base_init ?h) [?h]"
    using vec_rep_push_back [OF vec_rep_init] by simp
  have c: "vcap (tmq_vec_push_back tmq_base_init ?h) = 8"
    by (simp add: tmq_vec_push_back_def tmq_base_init_def tmq_vec_grow_def vcap_def vec_realloc_def)
  show ?thesis
    using encode_remain_length_cap [OF r, of n 0] c length_len_bytes [of "unat n" 4] assms
    by (simp add: make_fixed_header_def Let_def split_beta)
qed

section \<open>Each sender writes the packet's encoding\<close>

lemma length_be16 [simp]: "length (be16 v) = 2"
  by (simp add: be16_def)

lemma length_lstr [simp]: "length (lstr s) = length s + 2"
  by (simp add: lstr_def)

abbreviation MAX_REMAIN :: nat where
  "MAX_REMAIN \<equiv> 128 ^ 4"

lemma remain_unat: "L < MAX_REMAIN \<Longrightarrow> unat (of_nat L :: u32) = L"
  by (rule unat_of_nat_less) (simp add: less_trans [of L MAX_REMAIN])

text \<open>What every sender starts with, for a remaining length that is the length of the body.\<close>

lemma fixed_header_ok:
  assumes "n = of_nat (length (packet_body p))" and "length (packet_body p) < MAX_REMAIN"
    and "ty = any_packet_type p" and "fl = packet_flags p"
  shows "\<exists>buf. make_fixed_header ty fl n tmq_base_init = (0, buf) \<and>
     vec_rep buf (header_byte p # len_bytes (length (packet_body p))) \<and> vcap buf = 8"
proof -
  have u: "unat n = length (packet_body p)"
    using assms(1,2) by (simp add: unat_of_nat_less)
  show ?thesis
    using make_fixed_header_bytes [OF vec_rep_init, of ty fl n] make_fixed_header_cap [of n ty fl] assms(2-) u
    by (metis append_Nil header_byte_def prod.collapse)
qed

lemma fixed_header_append:
  assumes "n = of_nat (length (packet_body p))" and "length (packet_body p) < MAX_REMAIN"
    and "ty = any_packet_type p" and "fl = packet_flags p" and "vec_rep v xs"
  shows "\<exists>buf. make_fixed_header ty fl n v = (0, buf) \<and>
     vec_rep buf (xs @ header_byte p # len_bytes (length (packet_body p)))"
proof -
  have u: "unat n = length (packet_body p)" using assms(1,2) by (simp add: unat_of_nat_less)
  show ?thesis
    using make_fixed_header_bytes [OF assms(5), of ty fl n] assms(2-) u
    by (metis header_byte_def prod.collapse)
qed

lemma fixed_header_too_long:
  assumes "n = of_nat L" and "MAX_REMAIN \<le> L" and "L < 2 ^ 32"
  shows "fst (make_fixed_header ty fl n tmq_base_init) = -1"
proof -
  have "unat n = L" using assms(1,3) by (simp add: unat_of_nat_less)
  then show ?thesis using make_fixed_header_bytes(2) [OF vec_rep_init, of ty fl n] assms(2) by simp
qed

lemma len_bytes_le4: "n < MAX_REMAIN \<Longrightarrow> length (len_bytes n) \<le> 4"
  using length_len_bytes [of n 4] by simp

lemma send_id_packet_ok:
  assumes "packet_body p = be16 i" and "ty = any_packet_type p" and "fl = packet_flags p"
  shows "send_id_packet ty fl i = Inr (Some (packet_bytes p))"
proof -
  obtain buf where b: "make_fixed_header ty fl 2 tmq_base_init = (0, buf)"
      "vec_rep buf (header_byte p # len_bytes 2)"
    using fixed_header_ok [of 2 p ty fl] assms by auto
  then have "vroom buf (header_byte p # len_bytes 2) 0"
    using vec_rep_cap [OF b(2)] by (simp add: vroom_def)
  from vec_write_rep [OF vroom_pack16 [OF this]] show ?thesis
    by (simp add: send_id_packet_def b packet_bytes_def assms(1))
qed

lemma send_empty_packet_ok:
  assumes "packet_body p = []" and "ty = any_packet_type p" and "packet_flags p = 0"
  shows "send_empty_packet ty = Inr (Some (packet_bytes p))"
proof -
  obtain buf where b: "make_fixed_header ty 0 0 tmq_base_init = (0, buf)"
      "vec_rep buf (header_byte p # len_bytes 0)"
    using fixed_header_ok [of 0 p ty 0] assms by auto
  then have "vroom buf (header_byte p # len_bytes 0) 0"
    using vec_rep_cap [OF b(2)] by (simp add: vroom_def)
  from vec_write_rep [OF this] show ?thesis
    by (simp add: send_empty_packet_def b packet_bytes_def assms(1))
qed

lemma send_conn_ack_ok: "send_conn_ack_packet c = Inr (Some (packet_bytes (CONNACK c)))"
proof -
  obtain buf where b: "make_fixed_header MQTT_CONNACK 0 2 tmq_base_init = (0, buf)"
      "vec_rep buf (header_byte (CONNACK c) # len_bytes 2)"
    using fixed_header_ok [of 2 "CONNACK c" MQTT_CONNACK 0]
    by (auto simp: numeral_2_eq_2)
  then have "vroom buf (header_byte (CONNACK c) # len_bytes 2) 0"
    using vec_rep_cap [OF b(2)] by (simp add: vroom_def)
  from vec_write_rep [OF vroom_push [OF vroom_push [OF this]]] show ?thesis
    by (simp add: send_conn_ack_packet_def b packet_bytes_def numeral_2_eq_2)
qed

lemma vroom_fold_push:
  "vroom v xs k \<Longrightarrow> vroom (fold (\<lambda>c buf. tmq_vec_push_back buf c) cs v) (xs @ cs) (k - length cs)"
proof (induction cs arbitrary: v xs k)
  case (Cons c cs)
  show ?case using Cons.IH [OF vroom_push [OF Cons.prems, of c]] by simp
qed simp

lemma send_sub_ack_ok:
  assumes "length (packet_body (SUBACK p)) < MAX_REMAIN"
  shows "send_sub_ack_packet p = Inr (Some (packet_bytes (SUBACK p)))"
proof -
  let ?hd = "header_byte (SUBACK p) # len_bytes (length (packet_body (SUBACK p)))"
  obtain buf where b: "make_fixed_header MQTT_SUBACK 0 (2 + of_nat (length (return_codes p))) tmq_base_init = (0, buf)"
      "vec_rep buf ?hd"
    using fixed_header_ok [of "2 + of_nat (length (return_codes p))" "SUBACK p" MQTT_SUBACK 0] assms
    by auto
  then have "vroom buf ?hd 0"
    using vec_rep_cap [OF b(2)] by (simp add: vroom_def)
  from vec_write_rep [OF vroom_fold_push [OF vroom_pack16 [OF this]]] show ?thesis
    by (simp add: send_sub_ack_packet_def b packet_bytes_def)
qed

lemma pack_publish_append:
  assumes "length (packet_body (PUBLISH p)) < MAX_REMAIN" and "vec_rep v xs"
  shows "\<exists>buf. pack_publish_packet v p = Inr (Some buf) \<and>
     vroom buf (xs @ packet_bytes (PUBLISH p)) 0"
proof -
  let ?q = "PUBLISH_QOS (pub_flags p)" and ?body = "packet_body (PUBLISH p)"
  let ?hd = "xs @ header_byte (PUBLISH p) # len_bytes (length ?body)"
  define n :: u32 where
    "n = (if ?q = 0 then of_nat (4 + length (topic p) + length (payload p)) - 2
          else of_nat (4 + length (topic p) + length (payload p)))"
  have len: "length ?body = length (topic p) + length (payload p) + 2 + (if ?q = 0 then 0 else 2)"
    by (auto simp: word_neq_0_conv)
  have n: "n = of_nat (length ?body)" unfolding len n_def by simp
  have un: "unat n = length ?body" unfolding n by (rule remain_unat [OF assms(1)])
  obtain b0 where b0: "make_fixed_header MQTT_PUBLISH (pub_flags p) n v = (0, b0)"
      "vec_rep b0 ?hd"
    using fixed_header_append [OF n assms(1) _ _ assms(2), of MQTT_PUBLISH "pub_flags p"] by auto
  let ?b1 = "pack_uint16 (tmq_vec_reserve b0 (tmq_vec_size b0 + unat n)) (of_nat (length (topic p)))"
  have r0: "vroom (tmq_vec_reserve b0 (tmq_vec_size b0 + unat n)) ?hd (length ?body)"
    using vroom_reserve [OF b0(2), of "length ?body"] vec_rep_length [OF b0(2)] un
    by (simp add: tmq_vec_size_def)
  obtain b2 where b2: "put_memcpy ?b1 (topic p) = Inr b2"
      "vroom b2 (?hd @ lstr (topic p)) (length ?body - 2 - length (topic p))"
    using vroom_memcpy [OF vroom_pack16 [OF r0], of "topic p" "of_nat (length (topic p))"] len
    by (auto simp: lstr_def)
  let ?b3 = "if ?q > 0 then pack_uint16 b2 (packet_id p) else b2"
  have r3: "vroom ?b3 (?hd @ lstr (topic p) @ (if ?q > 0 then be16 (packet_id p) else []))
       (length (payload p))"
    using b2(2) vroom_pack16 [OF b2(2), of "packet_id p"] len by (auto simp: word_neq_0_conv)
  obtain b4 where "put_memcpy ?b3 (payload p) = Inr b4"
      "vroom b4 ((?hd @ lstr (topic p) @ (if ?q > 0 then be16 (packet_id p) else []))
          @ bytes_of_str (payload p)) 0"
    using vroom_memcpy [OF r3, of "payload p"] by auto
  then have "vroom b4 (xs @ packet_bytes (PUBLISH p)) 0" and "put_memcpy ?b3 (payload p) = Inr b4"
    by (simp_all add: packet_bytes_def)
  then show ?thesis
    unfolding pack_publish_packet_def Let_def n_def [symmetric] b0(1)
    by (simp add: b2(1))
qed

lemma pack_publish_ok:
  assumes "length (packet_body (PUBLISH p)) < MAX_REMAIN"
  shows "\<exists>buf. pack_publish_packet tmq_base_init p = Inr (Some buf) \<and>
     vroom buf (packet_bytes (PUBLISH p)) 0"
  using pack_publish_append [OF assms vec_rep_init] by simp

abbreviation filter_bytes :: "topic_filter_qos list \<Rightarrow> bytes" where
  "filter_bytes tfs \<equiv> concat (map (\<lambda>tf. lstr (topic_filter tf) @ [tf_qos tf]) tfs)"

lemma put_filters_ok:
  assumes "vroom buf xs k" and "\<forall>tf\<in>set tfs. c_str (topic_filter tf)"
    and "length (filter_bytes tfs) \<le> k"
  shows "\<exists>buf'. put_filters tfs buf = Inr buf' \<and> vroom buf' (xs @ filter_bytes tfs) 0"
  using assms
proof (induction tfs arbitrary: buf xs k)
  case Nil
  then show ?case by (simp add: vroom_def)
next
  case (Cons tf tfs)
  let ?s = "topic_filter tf"
  have s: "NUL \<notin> set ?s" "length ?s + 3 \<le> k" using Cons.prems by (auto simp: c_str_def)
  obtain b where b: "put_strcpy (pack_uint16 buf (of_nat (length ?s))) ?s = Inr b"
      "vroom b (xs @ lstr ?s) (k - 2 - length ?s)"
    using vroom_strcpy [OF vroom_pack16 [OF Cons.prems(1)] s(1), of "of_nat (length ?s)"] s(2)
    by (fastforce simp: lstr_def)
  have "\<exists>buf'. put_filters tfs (tmq_vec_push_back b (tf_qos tf)) = Inr buf' \<and>
      vroom buf' (((xs @ lstr ?s) @ [tf_qos tf]) @ filter_bytes tfs) 0"
    by (rule Cons.IH [OF vroom_push [OF b(2)]]) (use Cons.prems in auto)
  then show ?case using b(1) by (simp add: Let_def)
qed

lemma subscribe_remain:
  "fold (\<lambda>tf n. n + of_nat (length (topic_filter tf) + 3)) tfs a
     = a + (of_nat (length (filter_bytes tfs)) :: u32)"
  by (induction tfs arbitrary: a) (simp_all add: ac_simps)

text \<open>
  Reserving only \<^verbatim>\<open>remain_length\<close> cells is enough when that makes the vector grow (it then has
  twice as many), or when the packet fits into the initial eight.
\<close>

lemma vroom_reserve_short:
  assumes "vec_rep v (h # len_bytes n)" and "n < MAX_REMAIN" and "vcap v = 8"
  shows "vroom (tmq_vec_reserve v n) (h # len_bytes n) (if 8 < n then n + 1 else 6)"
proof (cases "8 < n")
  case True
  then have "vcap (tmq_vec_reserve v n) = 2 * n" using assms(3) by (simp add: tmq_vec_reserve_def)
  then show ?thesis
    using True vec_rep_reserve [OF assms(1)] len_bytes_le4 [OF assms(2)] by (auto simp: vroom_def)
next
  case False
  then have "length (len_bytes n) = 1" by (subst len_bytes.simps) simp
  then show ?thesis
    using False assms vec_rep_reserve [OF assms(1)] by (auto simp: vroom_def tmq_vec_reserve_def)
qed

lemma send_subscribe_ok:
  assumes s: "sendable (SUBSCRIBE p)" and l: "length (packet_body (SUBSCRIBE p)) < MAX_REMAIN"
  shows "send_subscribe_packet p = Inr (Some (packet_bytes (SUBSCRIBE p)))"
proof -
  let ?body = "packet_body (SUBSCRIBE p)" and ?fs = "filter_bytes (sub_topics p)"
  let ?hd = "header_byte (SUBSCRIBE p) # len_bytes (length ?body)"
  define n :: u32 where
    "n = fold (\<lambda>tf n. n + of_nat (length (topic_filter tf) + 3)) (sub_topics p) 2"
  have n: "n = of_nat (length ?body)" unfolding n_def subscribe_remain by simp
  have un: "unat n = length ?body" unfolding n by (rule remain_unat [OF l])
  obtain b0 where b0: "make_fixed_header MQTT_SUBSCRIBE 2 n tmq_base_init = (0, b0)"
      "vec_rep b0 ?hd" "vcap b0 = 8"
    using fixed_header_ok [OF n l, of MQTT_SUBSCRIBE 2] by auto
  have "vroom (tmq_vec_reserve b0 (unat n)) ?hd (if 8 < length ?body then length ?body + 1 else 6)"
    unfolding un by (rule vroom_reserve_short [OF b0(2) l b0(3)])
  note r1 = vroom_pack16 [OF this, of "sub_packet_id p"]
  have "length ?fs \<le> (if 8 < length ?body then length ?body + 1 else 6) - 2"
    using s by (auto simp: c_str_def)
  from put_filters_ok [OF r1 _ this] s obtain b2 where
    b2: "put_filters (sub_topics p) (pack_uint16 (tmq_vec_reserve b0 (unat n)) (sub_packet_id p)) = Inr b2"
      "vroom b2 ((?hd @ be16 (sub_packet_id p)) @ ?fs) 0"
    by auto
  show ?thesis
    using vec_write_rep [OF b2(2)] b2(1)
    unfolding send_subscribe_packet_def Let_def n_def [symmetric] b0(1)
    by (simp add: packet_bytes_def)
qed

lemma put_topics_ok:
  assumes "vroom buf xs k" and "\<forall>t\<in>set ts. c_str t" and "length (concat (map lstr ts)) < k"
  shows "\<exists>buf'. put_topics ts buf = Inr buf' \<and> vroom buf' (xs @ concat (map lstr ts)) 0"
  using assms
proof (induction ts arbitrary: buf xs k)
  case Nil
  then show ?case by (simp add: vroom_def)
next
  case (Cons t ts)
  have s: "NUL \<notin> set t" "length t + 3 \<le> k" using Cons.prems by (auto simp: c_str_def)
  obtain b where b: "put_strcpy (pack_uint16 buf (of_nat (length t))) t = Inr b"
      "vroom b (xs @ lstr t) (k - 2 - length t)"
    using vroom_strcpy [OF vroom_pack16 [OF Cons.prems(1)] s(1), of "of_nat (length t)"] s(2)
    by (fastforce simp: lstr_def)
  have "\<exists>buf'. put_topics ts b = Inr buf' \<and> vroom buf' ((xs @ lstr t) @ concat (map lstr ts)) 0"
    by (rule Cons.IH [OF b(2)]) (use Cons.prems in auto)
  then show ?case using b(1) by (simp add: Let_def)
qed

lemma unsubscribe_remain:
  "fold (\<lambda>t n. n + of_nat (length t + 2)) ts a = a + (of_nat (length (concat (map lstr ts))) :: u32)"
  by (induction ts arbitrary: a) (simp_all add: ac_simps)

lemma send_unsubscribe_ok:
  assumes s: "sendable (UNSUBSCRIBE p)" and l: "length (packet_body (UNSUBSCRIBE p)) < MAX_REMAIN"
  shows "send_unsubscribe_packet p = Inr (Some (packet_bytes (UNSUBSCRIBE p)))"
proof -
  let ?body = "packet_body (UNSUBSCRIBE p)" and ?fs = "concat (map lstr (unsub_topics p))"
  let ?hd = "header_byte (UNSUBSCRIBE p) # len_bytes (length ?body)"
  define n :: u32 where "n = fold (\<lambda>t n. n + of_nat (length t + 2)) (unsub_topics p) 2"
  have n: "n = of_nat (length ?body)" unfolding n_def unsubscribe_remain by simp
  have un: "unat n = length ?body" unfolding n by (rule remain_unat [OF l])
  obtain b0 where b0: "make_fixed_header MQTT_UNSUBSCRIBE 2 n tmq_base_init = (0, b0)"
      "vec_rep b0 ?hd" "vcap b0 = 8"
    using fixed_header_ok [OF n l, of MQTT_UNSUBSCRIBE 2] by auto
  have "vroom (tmq_vec_reserve b0 (unat n)) ?hd (if 8 < length ?body then length ?body + 1 else 6)"
    unfolding un by (rule vroom_reserve_short [OF b0(2) l b0(3)])
  note r1 = vroom_pack16 [OF this, of "unsub_packet_id p"]
  have "length ?fs < (if 8 < length ?body then length ?body + 1 else 6) - 2"
    using s by (auto simp: c_str_def)
  from put_topics_ok [OF r1 _ this] s obtain b2 where
    b2: "put_topics (unsub_topics p) (pack_uint16 (tmq_vec_reserve b0 (unat n)) (unsub_packet_id p)) = Inr b2"
      "vroom b2 ((?hd @ be16 (unsub_packet_id p)) @ ?fs) 0"
    by auto
  show ?thesis
    using vec_write_rep [OF b2(2)] b2(1)
    unfolding send_unsubscribe_packet_def Let_def n_def [symmetric] b0(1)
    by (simp add: packet_bytes_def)
qed

lemma vroom_put_if:
  assumes "vroom buf xs k" and "opt_str c s" and "length (lstr_if c s) < k"
  shows "\<exists>buf'. put_if c s buf = Inr buf' \<and> vroom buf' (xs @ lstr_if c s) (k - length (lstr_if c s))"
proof (cases c)
  case True
  then obtain t where "s = Some t" "NUL \<notin> set t"
    using assms(2) by (auto simp: opt_str_def c_str_def split: option.splits)
  then show ?thesis
    using True assms(3) vroom_lstr [OF assms(1), of t] by (auto simp: put_if_def lstr_if_def)
qed (use assms in \<open>simp add: put_if_def lstr_if_def\<close>)

lemma length_lstr_if: "length (lstr_if c s) = (if c then tmq_str_len s + 2 else 0)" if "opt_str c s"
  using that by (auto simp: lstr_if_def tmq_str_len_def opt_str_def split: option.splits)

lemma connect_remain:
  assumes "sendable (CONNECT p)"
  shows "connect_remain_len p = of_nat (length (packet_body (CONNECT p)))"
proof -
  have c: "length (case client_id p of Some s \<Rightarrow> s | None \<Rightarrow> []) = tmq_str_len (client_id p)"
    by (auto simp: tmq_str_len_def split: option.splits)
  show ?thesis
    using assms by (simp add: connect_remain_len_def Let_def length_lstr_if c)
qed

lemma vroom_client_id:
  assumes "vroom b xs k" and "opt_str (cid \<noteq> None) cid" and "tmq_str_len cid < k"
  shows "\<exists>b'. (case cid of Some s \<Rightarrow> if s \<noteq> [] then put_strcpy b s else Inr b | None \<Rightarrow> Inr b) = Inr b' \<and>
     vroom b' (xs @ bytes_of_str (case cid of Some s \<Rightarrow> s | None \<Rightarrow> [])) (k - tmq_str_len cid)"
proof (cases cid)
  case (Some s)
  then have "NUL \<notin> set s" "length s + 1 \<le> k"
    using assms by (auto simp: opt_str_def c_str_def tmq_str_len_def)
  then show ?thesis
    using vroom_strcpy [OF assms(1), of s] assms(1) Some by (cases "s = []") (auto simp: tmq_str_len_def)
qed (use assms(1) in \<open>simp add: tmq_str_len_def\<close>)

lemma connect_payload_ok:
  fixes p :: connect_pkt
  defines "w \<equiv> CONNECT_WILL_FLAG (conn_flags p)" and "u \<equiv> CONNECT_USERNAME_FLAG (conn_flags p)"
    and "pw \<equiv> CONNECT_PASSWORD_FLAG (conn_flags p)"
  assumes r: "vroom b xs k" and s: "sendable (CONNECT p)"
    and l: "length (lstr_if w (will_topic p)) + length (lstr_if w (will_message p))
        + length (lstr_if u (username p)) + length (lstr_if pw (password p)) < k"
  shows "bind (put_if w (will_topic p) b) (\<lambda>b. bind (put_if w (will_message p) b) (\<lambda>b.
      bind (put_if u (username p) b) (\<lambda>b. bind (put_if pw (password p) b) vec_write)))
    = Inr (Some (xs @ lstr_if w (will_topic p) @ lstr_if w (will_message p)
        @ lstr_if u (username p) @ lstr_if pw (password p)))"
proof -
  have o: "opt_str w (will_topic p)" "opt_str w (will_message p)" "opt_str u (username p)"
    "opt_str pw (password p)" using s by (simp_all add: w_def u_def pw_def)
  let ?k1 = "k - length (lstr_if w (will_topic p))"
  let ?k2 = "?k1 - length (lstr_if w (will_message p))"
  let ?k3 = "?k2 - length (lstr_if u (username p))"
  let ?x1 = "xs @ lstr_if w (will_topic p)"
  let ?x2 = "?x1 @ lstr_if w (will_message p)"
  let ?x3 = "?x2 @ lstr_if u (username p)"
  have "length (lstr_if w (will_topic p)) < k" using l by linarith
  then obtain b1 where b1: "put_if w (will_topic p) b = Inr b1" "vroom b1 ?x1 ?k1"
    using vroom_put_if [OF r o(1)] by blast
  have "length (lstr_if w (will_message p)) < ?k1" using l by linarith
  then obtain b2 where b2: "put_if w (will_message p) b1 = Inr b2" "vroom b2 ?x2 ?k2"
    using vroom_put_if [OF b1(2) o(2)] by blast
  have "length (lstr_if u (username p)) < ?k2" using l by linarith
  then obtain b3 where b3: "put_if u (username p) b2 = Inr b3" "vroom b3 ?x3 ?k3"
    using vroom_put_if [OF b2(2) o(3)] by blast
  have "length (lstr_if pw (password p)) < ?k3" using l by linarith
  then obtain b4 j where b4: "put_if pw (password p) b3 = Inr b4" "vroom b4 (?x3 @ lstr_if pw (password p)) j"
    using vroom_put_if [OF b3(2) o(4)] by blast
  show ?thesis using b1(1) b2(1) b3(1) b4(1) vec_write_rep [OF b4(2)] by simp
qed

lemma send_connect_ok:
  assumes s: "sendable (CONNECT p)" and l: "length (packet_body (CONNECT p)) < MAX_REMAIN"
  shows "send_connect_packet p = Inr (Some (packet_bytes (CONNECT p)))"
proof -
  let ?f = "conn_flags p" and ?cid = "case client_id p of Some s \<Rightarrow> s | None \<Rightarrow> []"
  define L where "L = length (packet_body (CONNECT p))"
  define hd where "hd = header_byte (CONNECT p) # len_bytes L"
  let ?w = "CONNECT_WILL_FLAG ?f" and ?u = "CONNECT_USERNAME_FLAG ?f" and ?pw = "CONNECT_PASSWORD_FLAG ?f"
  note n = connect_remain [OF s]
  have un: "unat (connect_remain_len p) = L" unfolding n L_def by (rule remain_unat [OF l])
  obtain b0 where b0: "make_fixed_header MQTT_CONNECT 0 (connect_remain_len p) tmq_base_init = (0, b0)"
      "vec_rep b0 hd" "vcap b0 = 8"
    using fixed_header_ok [OF n l, of MQTT_CONNECT 0] by (auto simp: hd_def L_def)
  have cl: "length ?cid = tmq_str_len (client_id p)"
    by (auto simp: tmq_str_len_def split: option.splits)
  then have len: "L = 12 + tmq_str_len (client_id p) + length (lstr_if ?w (will_topic p))
      + length (lstr_if ?w (will_message p))
      + length (lstr_if ?u (username p)) + length (lstr_if ?pw (password p))" by (simp add: L_def)
  define b1 where "b1 = tmq_vec_reserve b0 (tmq_vec_size b0 + L)"
  have "vcap b1 = 2 * (length hd + L)"
    using b0(3) len vec_rep_length [OF b0(2)] by (simp add: b1_def tmq_vec_reserve_def tmq_vec_size_def)
  then have r1: "vroom b1 hd (L + 1)"
    using vec_rep_reserve [OF b0(2)] len by (simp add: vroom_def b1_def)
  obtain b2 where b2: "put_strcpy (pack_uint16 b1 4) ''MQTT'' = Inr b2"
      "vroom b2 (hd @ lstr ''MQTT'') (L - 5)"
    using vroom_strcpy [OF vroom_pack16 [OF r1, of 4], of "''MQTT''"] len by (auto simp: lstr_def)
  define b3 where "b3 = pack_uint16 (pack_uint16 (tmq_vec_push_back (tmq_vec_push_back b2 4) ?f)
      (keep_alive p)) (of_nat (tmq_str_len (client_id p)))"
  have r3: "vroom b3 (hd @ lstr ''MQTT'' @ [4, ?f] @ be16 (keep_alive p)
      @ be16 (of_nat (tmq_str_len (client_id p)))) (L - 11)"
    using vroom_pack16 [OF vroom_pack16 [OF vroom_push [OF vroom_push [OF b2(2), of 4], of ?f],
        of "keep_alive p"], of "of_nat (tmq_str_len (client_id p))"]
    by (simp add: b3_def)
  obtain b4 where b4: "(case client_id p of Some s \<Rightarrow> if s \<noteq> [] then put_strcpy b3 s else Inr b3
        | None \<Rightarrow> Inr b3) = Inr b4"
      "vroom b4 ((hd @ lstr ''MQTT'' @ [4, ?f] @ be16 (keep_alive p)
        @ be16 (of_nat (tmq_str_len (client_id p)))) @ bytes_of_str ?cid) (L - 11 - tmq_str_len (client_id p))"
    using vroom_client_id [OF r3, of "client_id p"] s len by auto
  have "length (lstr_if ?w (will_topic p)) + length (lstr_if ?w (will_message p))
        + length (lstr_if ?u (username p)) + length (lstr_if ?pw (password p))
      < L - 11 - tmq_str_len (client_id p)"
    using len by linarith
  note pay = connect_payload_ok [OF b4(2) s this]
  have "send_connect_packet p = bind (Inr b4) (\<lambda>b. bind (put_if ?w (will_topic p) b) (\<lambda>b.
      bind (put_if ?w (will_message p) b) (\<lambda>b.
      bind (put_if ?u (username p) b) (\<lambda>b. bind (put_if ?pw (password p) b) vec_write))))"
    unfolding send_connect_packet_def Let_def b0(1) un b4(1) [symmetric] b3_def
    by (simp add: b2(1) flip: b1_def)
  then show ?thesis unfolding bind_simps pay by (simp add: packet_bytes_def hd_def L_def lstr_def cl)
qed

lemma short_senders_ok:
  "send_pub_ack_packet i = Inr (Some (packet_bytes (PUBACK i)))"
  "send_pub_rec_packet i = Inr (Some (packet_bytes (PUBREC i)))"
  "send_pub_rel_packet i = Inr (Some (packet_bytes (PUBREL i)))"
  "send_pub_comp_packet i = Inr (Some (packet_bytes (PUBCOMP i)))"
  "send_unsub_ack_packet i = Inr (Some (packet_bytes (UNSUBACK i)))"
  "send_ping_req_packet = Inr (Some (packet_bytes PINGREQ))"
  "send_ping_resp_packet = Inr (Some (packet_bytes PINGRESP))"
  "send_disconnect_packet = Inr (Some (packet_bytes DISCONNECT))"
  unfolding send_pub_ack_packet_def send_pub_rec_packet_def send_pub_rel_packet_def
    send_pub_comp_packet_def send_unsub_ack_packet_def send_ping_req_packet_def
    send_ping_resp_packet_def send_disconnect_packet_def
  by (rule send_id_packet_ok send_empty_packet_ok; simp)+

lemma packet_sender_ok:
  assumes "sendable p" and "length (packet_body p) < MAX_REMAIN"
  shows "packet_sender p = Inr (Some (packet_bytes p))"
proof (cases p)
  case (PUBLISH q)
  then obtain buf where "pack_publish_packet tmq_base_init q = Inr (Some buf)"
      "vroom buf (packet_bytes (PUBLISH q)) 0"
    using pack_publish_ok assms(2) by blast
  then show ?thesis using PUBLISH vec_write_rep by (simp add: send_publish_packet_def)
qed (use assms in \<open>simp_all add: send_connect_ok send_conn_ack_ok send_subscribe_ok send_sub_ack_ok
       send_unsubscribe_ok short_senders_ok del: sendable.simps packet_body.simps\<close>)

section \<open>Packets that are not sent, and packets that overflow the buffer\<close>

lemma publish_too_long:
  assumes "MAX_REMAIN \<le> length (packet_body (PUBLISH p))"
    and "length (packet_body (PUBLISH p)) < 2 ^ 32"
  shows "send_publish_packet p = Inr None"
proof -
  let ?q = "PUBLISH_QOS (pub_flags p)" and ?body = "packet_body (PUBLISH p)"
  define n :: u32 where
    "n = (if ?q = 0 then of_nat (4 + length (topic p) + length (payload p)) - 2
          else of_nat (4 + length (topic p) + length (payload p)))"
  have len: "length ?body = length (topic p) + length (payload p) + 2 + (if ?q = 0 then 0 else 2)"
    by (auto simp: word_neq_0_conv)
  have n: "n = of_nat (length ?body)" unfolding len n_def by simp
  have "fst (make_fixed_header MQTT_PUBLISH (pub_flags p) n tmq_base_init) = -1"
    by (rule fixed_header_too_long [OF n assms])
  then show ?thesis
    unfolding send_publish_packet_def pack_publish_packet_def Let_def n_def [symmetric]
    by (simp add: split_beta)
qed

lemma strcpy_overflow:
  assumes "vec_rep v xs" and "NUL \<notin> set s" and "vcap v < length xs + length s + 1"
  shows "put_strcpy v s = Inl Out_Of_Bounds"
  using assms vec_rep_length [OF assms(1)] by (simp add: put_strcpy_def vec_store_def)

text \<open>
  A SUBSCRIBE with one filter of two or three characters writes behind the eight cells that the
  vector has: \<^verbatim>\<open>tmq_vec_reserve(buf, remain_length)\<close> does not count the fixed header, and
  \<^verbatim>\<open>strcpy\<close> also writes the terminator.
\<close>

lemma vsize_push [simp]: "vsize (tmq_vec_push_back v x) = Suc (vsize v)"
  by (simp add: tmq_vec_push_back_def Let_def tmq_vec_grow_def)

lemma vcap_pack16_room: "vsize v + 2 \<le> vcap v \<Longrightarrow> vcap (pack_uint16 v i) = vcap v"
  by (simp add: pack_uint16_def Let_def vcap_push_room)

theorem subscribe_short_filter_overflows:
  assumes "NUL \<notin> set t" and "length t = 2 \<or> length t = 3"
  shows "send_subscribe_packet \<lparr>sub_packet_id = i, sub_topics = [\<lparr>topic_filter = t, tf_qos = q\<rparr>]\<rparr>
           = Inl Out_Of_Bounds"
proof -
  define p where "p = \<lparr>sub_packet_id = i, sub_topics = [\<lparr>topic_filter = t, tf_qos = q\<rparr>]\<rparr>"
  define L where "L = length (packet_body (SUBSCRIBE p))"
  have L: "L = 5 + length t" "L \<le> 8" "L < MAX_REMAIN" using assms(2) by (auto simp: L_def p_def)
  have f: "fold (\<lambda>tf n. n + of_nat (length (topic_filter tf) + 3)) (sub_topics p) (2 :: u32) = of_nat L"
    unfolding subscribe_remain L(1) by (simp add: p_def)
  obtain b0 where b0: "make_fixed_header MQTT_SUBSCRIBE 2 (of_nat L) tmq_base_init = (0, b0)"
      "vec_rep b0 (header_byte (SUBSCRIBE p) # len_bytes L)" "vcap b0 = 8"
    using fixed_header_ok [of "of_nat L" "SUBSCRIBE p" MQTT_SUBSCRIBE 2] L(3) by (auto simp: L_def)
  have l1: "length (len_bytes L) = 1" using L(2) by (subst len_bytes.simps) simp
  have sz: "vsize b0 = 2" using vec_rep_length [OF b0(2)] l1 by simp
  have res: "tmq_vec_reserve b0 (unat (of_nat L :: u32)) = b0"
    using L b0(3) remain_unat [OF L(3)] by (simp add: tmq_vec_reserve_def)
  define b1 where "b1 = pack_uint16 (pack_uint16 b0 i) (of_nat (length t))"
  have r: "vroom b1 ((header_byte (SUBSCRIBE p) # len_bytes L) @ be16 i @ be16 (of_nat (length t))) 0"
    using vroom_pack16 [OF vroom_pack16 [of b0 _ 0]] b0(2,3) l1
    by (fastforce simp: b1_def vroom_def)
  have "vcap b1 = 8"
    using sz b0(3) by (simp add: b1_def vcap_pack16_room) (simp add: pack_uint16_def Let_def vcap_push_room)
  then have "put_strcpy b1 t = Inl Out_Of_Bounds"
    using r assms l1 by (intro strcpy_overflow) (auto simp: vroom_def)
  moreover have "put_filters (sub_topics p) (pack_uint16 b0 (sub_packet_id p)) =
      bind (put_strcpy b1 t) (\<lambda>buf. Inr (tmq_vec_push_back buf q))"
    by (simp add: p_def b1_def)
  ultimately have "send_subscribe_packet p = Inl Out_Of_Bounds"
    unfolding send_subscribe_packet_def Let_def f b0(1) by (simp add: res)
  then show ?thesis by (simp add: p_def)
qed

section \<open>Properties\<close>

text \<open>
  C5. Every packet sender is memory safe and writes exactly the MQTT encoding of its packet, for
  every packet whose strings fit their 16-bit length fields and contain no NUL where \<^verbatim>\<open>strcpy\<close> is
  used, whose remaining length is below \<open>128^4\<close>, and which is not one of the short SUBSCRIBE or
  UNSUBSCRIBE packets excluded by \<open>sendable\<close>.
\<close>

theorem sender_writes_encoding:
  assumes "sendable p" and "length (packet_body p) < 128 ^ 4"
  shows "packet_sender p = Inr (Some (packet_bytes p))"
  using packet_sender_ok [OF assms] .

theorem sender_writes_encoding_witness:
  "packet_sender (PUBLISH \<lparr>pub_flags = 2, topic = ''a/b'', packet_id = 7, payload = ''hi''\<rparr>)
     = Inr (Some [0x32, 9, 0, 3, 97, 47, 98, 0, 7, 104, 105])"
proof -
  let ?p = "PUBLISH \<lparr>pub_flags = 2, topic = ''a/b'', packet_id = 7, payload = ''hi''\<rparr>"
  have "packet_sender ?p = Inr (Some (packet_bytes ?p))"
    by (rule sender_writes_encoding)
       (simp_all add: wire_str_def PUBLISH_QOS_def)
  moreover have "packet_bytes ?p = [0x32, 9, 0, 3, 97, 47, 98, 0, 7, 104, 105]"
    by (simp add: packet_bytes_def header_byte_def PUBLISH_QOS_def lstr_def be16_def
        byte_of_char_def len_bytes.simps)
  ultimately show ?thesis by simp
qed

text \<open>
  C20. A remaining length that does not fit into four length bytes is refused: the fixed header
  reports an error exactly for lengths of \<open>128^4\<close> and more, and PUBLISH then sends nothing.
\<close>

theorem oversized_publish_refused:
  assumes "128 ^ 4 \<le> length (packet_body (PUBLISH p))"
    and "length (packet_body (PUBLISH p)) < 2 ^ 32"
  shows "send_publish_packet p = Inr None \<and>
         (fst (make_fixed_header ty fl n tmq_base_init) < 0 \<longleftrightarrow> 128 ^ 4 \<le> unat n)"
  using publish_too_long [OF assms] make_fixed_header_bytes(2) [OF vec_rep_init, of ty fl n] by auto

theorem oversized_publish_refused_witness:
  "send_publish_packet \<lparr>pub_flags = 0, topic = ''t'', packet_id = 0,
      payload = replicate (128 ^ 4) CHR ''x''\<rparr> = Inr None"
  using oversized_publish_refused
    [of "\<lparr>pub_flags = 0, topic = ''t'', packet_id = 0, payload = replicate (128 ^ 4) CHR ''x''\<rparr>"]
  by (simp add: PUBLISH_QOS_def)

end
