(* ===== verification/Buffer.thy ===== *)
theory Buffer
  imports Prelude
begin

text \<open>
  The chunked input and output buffer of \<^verbatim>\<open>net/mqtt_buffer.c\<close>. A chunk is its memory (a cell
  is \<open>None\<close> until something is written to it) with the read and write indices of
  \<^verbatim>\<open>tmq_buffer_chunk_t\<close>; a buffer is the linked list of chunks (\<^verbatim>\<open>first\<close> is the head,
  \<^verbatim>\<open>last\<close> the last element, both NULL when the list is empty) with its counters. Copies into a
  chunk go through \<open>chunk_write\<close>, which faults outside the chunk's memory. Allocation is taken to
  succeed (\<^verbatim>\<open>fatal_error\<close> ends the process otherwise), and \<^verbatim>\<open>size_t\<close> values are naturals.
  \<^verbatim>\<open>ioctl\<close>, \<^verbatim>\<open>readv\<close> and \<^verbatim>\<open>writev\<close> are arguments of the operations that call them.

  \<open>buf_rep b bs\<close> says that the buffer holds exactly the bytes \<open>bs\<close>; the locale \<open>byte_fifo\<close> is
  what the codecs and the connection rely on.
\<close>

abbreviation BUFFER_CHUNK_MIN :: nat where
  "BUFFER_CHUNK_MIN \<equiv> 512"

abbreviation FD_MAX_READ_BYTES :: nat where
  "FD_MAX_READ_BYTES \<equiv> 65536"

record chunk =
  chunk_size :: nat
  read_idx :: nat
  write_idx :: nat
  cbuf :: "u8 option list"

record buffer =
  chunk_cnt :: int
  chunk_list :: "chunk list"
  readable_bytes :: nat

definition chunk_data_len :: "chunk \<Rightarrow> nat" where
  "chunk_data_len c = write_idx c - read_idx c"

definition chunk_writeable :: "chunk \<Rightarrow> nat" where
  "chunk_writeable c = chunk_size c - write_idx c"

definition chunk_aval_space :: "chunk \<Rightarrow> nat" where
  "chunk_aval_space c = chunk_size c - (write_idx c - read_idx c)"

definition chunk_data :: "chunk \<Rightarrow> u8 option list" where
  "chunk_data c = take (chunk_data_len c) (drop (read_idx c) (cbuf c))"

definition tmq_buffer_init :: buffer where
  "tmq_buffer_init = \<lparr>chunk_cnt = 0, chunk_list = [], readable_bytes = 0\<rparr>"

definition buffer_chunk_new :: "nat \<Rightarrow> chunk" where
  "buffer_chunk_new sz =
     (let n = (if sz < BUFFER_CHUNK_MIN then BUFFER_CHUNK_MIN else sz)
      in \<lparr>chunk_size = n, read_idx = 0, write_idx = 0, cbuf = replicate n None\<rparr>)"

definition buffer_chunk_realign :: "chunk \<Rightarrow> chunk" where
  "buffer_chunk_realign c =
     (if read_idx c = 0 then c
      else c\<lparr>cbuf := chunk_data c @ drop (chunk_data_len c) (cbuf c),
             write_idx := write_idx c - read_idx c, read_idx := 0\<rparr>)"

text \<open>\<^verbatim>\<open>memcpy(chunk->buf + chunk->write_idx, data, size); chunk->write_idx += size\<close>\<close>

definition chunk_write :: "chunk \<Rightarrow> u8 option list \<Rightarrow> chunk res" where
  "chunk_write c d =
     (if write_idx c + length d > length (cbuf c) then Inl Out_Of_Bounds
      else Inr (c\<lparr>cbuf := take (write_idx c) (cbuf c) @ d @ drop (write_idx c + length d) (cbuf c),
                  write_idx := write_idx c + length d\<rparr>))"

definition tmq_buffer_append :: "buffer \<Rightarrow> bytes \<Rightarrow> buffer res" where
  "tmq_buffer_append b data =
     (let sz = length data; cells = map Some data; cs = chunk_list b in
      if sz = 0 then Inr b
      else if cs = [] then
        bind (chunk_write (buffer_chunk_new sz) cells) (\<lambda>c.
          Inr \<lparr>chunk_cnt = chunk_cnt b + 1, chunk_list = [c],
               readable_bytes = readable_bytes b + sz\<rparr>)
      else if chunk_writeable (last cs) \<ge> sz then
        bind (chunk_write (last cs) cells) (\<lambda>c.
          Inr (b\<lparr>chunk_list := butlast cs @ [c], readable_bytes := readable_bytes b + sz\<rparr>))
      else if chunk_aval_space (last cs) \<ge> sz then
        (let c = buffer_chunk_realign (last cs) in
         if \<not> chunk_writeable c \<ge> sz then Inl Assert_Failed
         else bind (chunk_write c cells) (\<lambda>c.
           Inr (b\<lparr>chunk_list := butlast cs @ [c], readable_bytes := readable_bytes b + sz\<rparr>)))
      else
        (let last_writable = chunk_writeable (last cs); remain = sz - last_writable in
         bind (chunk_write (last cs) (take last_writable cells)) (\<lambda>c.
         bind (chunk_write (buffer_chunk_new remain) (drop last_writable cells)) (\<lambda>c'.
           Inr \<lparr>chunk_cnt = chunk_cnt b + 1, chunk_list = butlast cs @ [c, c'],
                readable_bytes = readable_bytes b + sz\<rparr>))))"

text \<open>
  In the third branch of \<open>tmq_buffer_prepend\<close> the source fills a new chunk that it never links
  into the list: only the bytes that fit in front of the first chunk take effect.
\<close>

definition chunk_unread :: "chunk \<Rightarrow> u8 option list \<Rightarrow> chunk" where
  "chunk_unread c d =
     (let r = read_idx c - length d
      in c\<lparr>read_idx := r, cbuf := take r (cbuf c) @ d @ drop (r + length d) (cbuf c)\<rparr>)"

definition tmq_buffer_prepend :: "buffer \<Rightarrow> bytes \<Rightarrow> buffer res" where
  "tmq_buffer_prepend b data =
     (let sz = length data; cells = map Some data in
      case chunk_list b of
        [] \<Rightarrow>
          bind (chunk_write (buffer_chunk_new sz) cells) (\<lambda>c.
            Inr \<lparr>chunk_cnt = chunk_cnt b + 1, chunk_list = [c],
                 readable_bytes = readable_bytes b + sz\<rparr>)
      | c # cs \<Rightarrow>
          if read_idx c \<ge> sz then
            Inr (b\<lparr>chunk_list := chunk_unread c cells # cs,
                   readable_bytes := readable_bytes b + sz\<rparr>)
          else
            (let remain = sz - read_idx c; rest = drop remain cells in
             Inr \<lparr>chunk_cnt = chunk_cnt b + 1, chunk_list = chunk_unread c rest # cs,
                  readable_bytes = readable_bytes b + (sz - remain)\<rparr>))"

text \<open>
  The chunk loop of \<^verbatim>\<open>buffer_read_internal\<close>: the bytes copied and the chunks that remain when
  the consumed ones are freed.
\<close>

fun read_chunks :: "chunk list \<Rightarrow> nat \<Rightarrow> u8 option list \<times> chunk list" where
  "read_chunks [] n = ([], [])"
| "read_chunks (c # cs) n =
     (if n \<ge> chunk_data_len c then
        (let (d, rest) = read_chunks cs (n - chunk_data_len c) in (chunk_data c @ d, rest))
      else (take n (chunk_data c), c\<lparr>read_idx := read_idx c + n\<rparr> # cs))"

definition buffer_read_internal :: "buffer \<Rightarrow> nat \<Rightarrow> bool \<Rightarrow> u8 option list \<times> buffer" where
  "buffer_read_internal b sz rm =
     (if sz = 0 then ([], b)
      else
        let n = (if sz > readable_bytes b then readable_bytes b else sz)
        in if chunk_list b = [] then ([], b)
           else
             let (d, rest) = read_chunks (chunk_list b) n
             in (d, if rm then b\<lparr>chunk_list := rest\<rparr> else b))"

definition tmq_buffer_peek :: "buffer \<Rightarrow> nat \<Rightarrow> u8 option list" where
  "tmq_buffer_peek b sz = fst (buffer_read_internal b sz False)"

definition tmq_buffer_read :: "buffer \<Rightarrow> nat \<Rightarrow> u8 option list \<times> buffer" where
  "tmq_buffer_read b sz =
     (let (d, b') = buffer_read_internal b sz True
      in (d, b'\<lparr>readable_bytes := readable_bytes b' - length d\<rparr>))"

text \<open>
  Big-endian integers. The destination is an uninitialised local of the callers, so reading fewer
  bytes than its size leaves an indeterminate value.
\<close>

fun be_nat :: "bytes \<Rightarrow> nat" where
  "be_nat [] = 0"
| "be_nat (x # xs) = unat x * 256 ^ length xs + be_nat xs"

definition cells_to_be :: "nat \<Rightarrow> u8 option list \<Rightarrow> nat res" where
  "cells_to_be n d =
     (if length d < n \<or> None \<in> set d then Inl Uninit_Read else Inr (be_nat (map the d)))"

definition tmq_buffer_peek16 :: "buffer \<Rightarrow> u16 res" where
  "tmq_buffer_peek16 b = bind (cells_to_be 2 (tmq_buffer_peek b 2)) (\<lambda>n. Inr (of_nat n))"

definition tmq_buffer_peek32 :: "buffer \<Rightarrow> u32 res" where
  "tmq_buffer_peek32 b = bind (cells_to_be 4 (tmq_buffer_peek b 4)) (\<lambda>n. Inr (of_nat n))"

definition tmq_buffer_peek64 :: "buffer \<Rightarrow> u64 res" where
  "tmq_buffer_peek64 b = bind (cells_to_be 8 (tmq_buffer_peek b 8)) (\<lambda>n. Inr (of_nat n))"

definition tmq_buffer_read16 :: "buffer \<Rightarrow> u16 res \<times> buffer" where
  "tmq_buffer_read16 b =
     (let (d, b') = tmq_buffer_read b 2
      in (bind (cells_to_be 2 d) (\<lambda>n. Inr (of_nat n)), b'))"

text \<open>The 32- and 64-bit reads call the peek function, and leave the bytes in the buffer.\<close>

definition tmq_buffer_read32 :: "buffer \<Rightarrow> u32 res \<times> buffer" where
  "tmq_buffer_read32 b =
     (bind (cells_to_be 4 (tmq_buffer_peek b 4)) (\<lambda>n. Inr (of_nat n)), b)"

definition tmq_buffer_read64 :: "buffer \<Rightarrow> u64 res \<times> buffer" where
  "tmq_buffer_read64 b =
     (bind (cells_to_be 8 (tmq_buffer_peek b 8)) (\<lambda>n. Inr (of_nat n)), b)"

text \<open>The loop of \<open>tmq_buffer_remove\<close>, with the number of freed chunks.\<close>

fun remove_chunks :: "chunk list \<Rightarrow> nat \<Rightarrow> nat \<times> chunk list" where
  "remove_chunks [] n = (0, [])"
| "remove_chunks (c # cs) n =
     (if n \<ge> chunk_data_len c then
        (let (k, rest) = remove_chunks cs (n - chunk_data_len c) in (Suc k, rest))
      else (0, c\<lparr>read_idx := read_idx c + n\<rparr> # cs))"

definition tmq_buffer_remove :: "buffer \<Rightarrow> nat \<Rightarrow> buffer" where
  "tmq_buffer_remove b sz =
     (if sz = 0 then b
      else
        let n = (if sz > readable_bytes b then readable_bytes b else sz)
        in if chunk_list b = [] then b
           else
             let (k, rest) = remove_chunks (chunk_list b) n
             in \<lparr>chunk_cnt = chunk_cnt b - int k, chunk_list = rest,
                 readable_bytes = readable_bytes b - n\<rparr>)"

text \<open>
  \<open>tmq_buffer_read_fd\<close>: \<open>fd_readable\<close> is what \<^verbatim>\<open>FIONREAD\<close> reports (\<open>None\<close> when the call fails)
  and \<open>readv\<close> gives the bytes the kernel returns for a total vector length (\<open>None\<close> for an error).
  The write indices are advanced by the lengths of the vectors before the call; cells that the call
  did not fill stay as they were. The result is the return value and the buffer.
\<close>

definition fill :: "u8 option list \<Rightarrow> nat \<Rightarrow> bytes \<Rightarrow> u8 option list" where
  "fill mem i d = take i mem @ map Some d @ drop (i + length d) mem"

definition tmq_buffer_read_fd ::
    "buffer \<Rightarrow> nat option \<Rightarrow> (nat \<Rightarrow> bytes option) \<Rightarrow> nat \<Rightarrow> int \<times> buffer" where
  "tmq_buffer_read_fd b fd_readable readv max_bytes =
     (case fd_readable of
        None \<Rightarrow> (0, b)
      | Some avail \<Rightarrow>
          let sz = (if max_bytes = 0 then min avail FD_MAX_READ_BYTES
                      else min avail (min max_bytes FD_MAX_READ_BYTES));
              cs = chunk_list b;
              use_last = (cs \<noteq> [] \<and> chunk_writeable (last cs) > 0);
              len = (if use_last then min (chunk_writeable (last cs)) sz else 0);
              rest = sz - len;
              got = readv sz;
              d = (case got of None \<Rightarrow> [] | Some d \<Rightarrow> d);
              cs = (if use_last
                    then butlast cs @ [(last cs)\<lparr>cbuf := fill (cbuf (last cs)) (write_idx (last cs)) (take len d),
                                         write_idx := write_idx (last cs) + len\<rparr>]
                    else cs);
              new = (buffer_chunk_new rest)
                      \<lparr>cbuf := fill (cbuf (buffer_chunk_new rest)) 0 (drop len d), write_idx := rest\<rparr>;
              b = (if rest > 0 then b\<lparr>chunk_list := cs @ [new], chunk_cnt := chunk_cnt b + 1\<rparr>
                   else b\<lparr>chunk_list := cs\<rparr>)
          in case got of
               None \<Rightarrow> (-1, b)
             | Some d \<Rightarrow> (int (length d), b\<lparr>readable_bytes := readable_bytes b + length d\<rparr>))"

text \<open>
  \<open>tmq_buffer_write_fd\<close>: \<open>writev\<close> is given the data of all chunks and returns how many bytes it
  took, or \<open>None\<close> for an error.
\<close>

definition tmq_buffer_write_fd ::
    "buffer \<Rightarrow> (u8 option list \<Rightarrow> nat option) \<Rightarrow> int \<times> buffer" where
  "tmq_buffer_write_fd b writev =
     (case writev (concat (map chunk_data (chunk_list b))) of
        None \<Rightarrow> (-1, b)
      | Some n \<Rightarrow> (int n, tmq_buffer_remove b n))"

section \<open>Chunks\<close>

definition chunk_ok :: "chunk \<Rightarrow> bool" where
  "chunk_ok c \<longleftrightarrow> read_idx c \<le> write_idx c \<and> write_idx c \<le> chunk_size c \<and>
     length (cbuf c) = chunk_size c"

lemma length_chunk_data: "chunk_ok c \<Longrightarrow> length (chunk_data c) = chunk_data_len c"
  by (auto simp: chunk_ok_def chunk_data_def chunk_data_len_def min_def)

lemma chunk_ok_new:
  "chunk_ok (buffer_chunk_new n)" "chunk_data (buffer_chunk_new n) = []"
  "n \<le> chunk_writeable (buffer_chunk_new n)"
  by (simp_all add: chunk_ok_def buffer_chunk_new_def chunk_data_def chunk_data_len_def
      chunk_writeable_def Let_def)

lemma chunk_write_ok:
  assumes "chunk_ok c" and "length d \<le> chunk_writeable c"
  shows "\<exists>c'. chunk_write c d = Inr c' \<and> chunk_ok c' \<and> chunk_data c' = chunk_data c @ d"
proof -
  let ?c = "c\<lparr>cbuf := take (write_idx c) (cbuf c) @ d @ drop (write_idx c + length d) (cbuf c),
              write_idx := write_idx c + length d\<rparr>"
  have le: "write_idx c + length d \<le> length (cbuf c)"
    using assms by (auto simp: chunk_ok_def chunk_writeable_def)
  have rw: "read_idx c \<le> write_idx c" using assms by (simp add: chunk_ok_def)
  have "chunk_data ?c = chunk_data c @ d"
    using le rw by (simp add: chunk_data_def chunk_data_len_def drop_take)
  moreover have "chunk_ok ?c" using assms le by (simp add: chunk_ok_def)
  moreover have "chunk_write c d = Inr ?c" using le by (simp add: chunk_write_def)
  ultimately show ?thesis by blast
qed

lemma chunk_realign_ok:
  assumes "chunk_ok c"
  shows "chunk_ok (buffer_chunk_realign c)"
    and "chunk_data (buffer_chunk_realign c) = chunk_data c"
    and "chunk_writeable (buffer_chunk_realign c) = chunk_aval_space c"
  using assms
  by (auto simp: buffer_chunk_realign_def chunk_ok_def chunk_data_def chunk_data_len_def
      chunk_writeable_def chunk_aval_space_def)

lemma chunk_advance_ok:
  assumes "chunk_ok c" and "n \<le> chunk_data_len c"
  shows "chunk_ok (c\<lparr>read_idx := read_idx c + n\<rparr>)"
    and "chunk_data (c\<lparr>read_idx := read_idx c + n\<rparr>) = drop n (chunk_data c)"
  using assms
  by (auto simp: chunk_ok_def chunk_data_def chunk_data_len_def drop_take add.commute)

lemma chunk_unread_ok:
  assumes "chunk_ok c" and "length d \<le> read_idx c"
  shows "chunk_ok (chunk_unread c d)" "chunk_data (chunk_unread c d) = d @ chunk_data c"
  using assms
  by (auto simp: chunk_ok_def chunk_unread_def Let_def chunk_data_def chunk_data_len_def)

section \<open>The buffer as a byte list\<close>

definition buf_cells :: "buffer \<Rightarrow> u8 option list" where
  "buf_cells b = concat (map chunk_data (chunk_list b))"

definition buf_rep :: "buffer \<Rightarrow> bytes \<Rightarrow> bool" where
  "buf_rep b bs \<longleftrightarrow>
     (\<forall>c\<in>set (chunk_list b). chunk_ok c) \<and> buf_cells b = map Some bs \<and>
     readable_bytes b = length bs"

lemma buf_rep_init: "buf_rep tmq_buffer_init []"
  by (simp add: buf_rep_def tmq_buffer_init_def buf_cells_def)

lemma buf_cells_snoc:
  "chunk_list b = cs @ [c] \<Longrightarrow> buf_cells b = concat (map chunk_data cs) @ chunk_data c"
  by (simp add: buf_cells_def)

lemma buf_rep_append:
  assumes "buf_rep b bs"
  shows "\<exists>b'. tmq_buffer_append b data = Inr b' \<and> buf_rep b' (bs @ data)"
proof (cases "data = []")
  case True
  then show ?thesis using assms by (simp add: tmq_buffer_append_def)
next
  case data: False
  let ?n = "length data" and ?d = "map Some data"
  show ?thesis
  proof (cases "chunk_list b" rule: rev_cases)
    case Nil
    obtain c where c: "chunk_write (buffer_chunk_new ?n) ?d = Inr c" "chunk_ok c" "chunk_data c = ?d"
      using chunk_write_ok [OF chunk_ok_new(1), of ?d ?n] chunk_ok_new(2,3) by auto
    then show ?thesis
      using assms data Nil by (simp add: tmq_buffer_append_def Let_def buf_rep_def buf_cells_def)
  next
    case (snoc cs l)
    have l: "chunk_ok l" and cs: "\<forall>c\<in>set cs. chunk_ok c"
      and cells: "concat (map chunk_data cs) @ chunk_data l = map Some bs"
      and rb: "readable_bytes b = length bs"
      using assms snoc by (auto simp: buf_rep_def buf_cells_snoc [OF snoc])
    consider (fits) "?n \<le> chunk_writeable l"
      | (realign) "\<not> ?n \<le> chunk_writeable l" "?n \<le> chunk_aval_space l"
      | (new) "\<not> ?n \<le> chunk_writeable l" "\<not> ?n \<le> chunk_aval_space l"
      by blast
    then show ?thesis
    proof cases
      case fits
      obtain c where c: "chunk_write l ?d = Inr c" "chunk_ok c" "chunk_data c = chunk_data l @ ?d"
        using chunk_write_ok [OF l, of ?d] fits by auto
      then show ?thesis using data snoc fits cs cells rb
        by (simp add: tmq_buffer_append_def Let_def buf_rep_def buf_cells_def flip: append_assoc)
    next
      case realign
      let ?l = "buffer_chunk_realign l"
      obtain c where c: "chunk_write ?l ?d = Inr c" "chunk_ok c" "chunk_data c = chunk_data l @ ?d"
        using chunk_write_ok [OF chunk_realign_ok(1) [OF l], of ?d] realign
        by (auto simp: chunk_realign_ok [OF l])
      then show ?thesis using data snoc realign cs cells rb
        by (simp add: tmq_buffer_append_def Let_def buf_rep_def buf_cells_def
            chunk_realign_ok [OF l] flip: append_assoc)
    next
      case new
      let ?w = "chunk_writeable l"
      obtain c where c: "chunk_write l (take ?w ?d) = Inr c" "chunk_ok c"
          "chunk_data c = chunk_data l @ take ?w ?d"
        using chunk_write_ok [OF l, of "take ?w ?d"] by auto
      obtain c' where c': "chunk_write (buffer_chunk_new (?n - ?w)) (drop ?w ?d) = Inr c'"
          "chunk_ok c'" "chunk_data c' = drop ?w ?d"
        using chunk_write_ok [OF chunk_ok_new(1), of "drop ?w ?d" "?n - ?w"] chunk_ok_new(2,3) by auto
      have "concat (map chunk_data cs) @ chunk_data l @ take ?w ?d @ drop ?w ?d = map Some (bs @ data)"
        unfolding append_take_drop_id using cells by (simp flip: append_assoc)
      then show ?thesis using data snoc new cs c c' rb
        by (simp add: tmq_buffer_append_def Let_def buf_rep_def buf_cells_def)
    qed
  qed
qed

lemma read_chunks_spec:
  assumes "\<forall>c\<in>set cs. chunk_ok c"
  shows "fst (read_chunks cs n) = take n (concat (map chunk_data cs)) \<and>
         concat (map chunk_data (snd (read_chunks cs n))) = drop n (concat (map chunk_data cs)) \<and>
         (\<forall>c\<in>set (snd (read_chunks cs n)). chunk_ok c)"
  using assms
proof (induction cs n rule: read_chunks.induct)
  case (2 c cs n)
  show ?case
  proof (cases "n \<ge> chunk_data_len c")
    case True
    then show ?thesis using 2 by (auto simp: length_chunk_data split: prod.splits)
  next
    case False
    then show ?thesis
      using "2.prems" chunk_advance_ok [of c n] by (simp add: length_chunk_data)
  qed
qed simp

lemma remove_chunks_read: "snd (remove_chunks cs n) = snd (read_chunks cs n)"
  by (induction cs n rule: remove_chunks.induct) (auto split: prod.splits)

lemma buf_rep_read_internal:
  assumes "buf_rep b bs"
  shows "fst (buffer_read_internal b n rm) = map Some (take n bs)"
    and "rm \<Longrightarrow> buf_cells (snd (buffer_read_internal b n rm)) = map Some (drop n bs)"
    and "\<forall>c\<in>set (chunk_list (snd (buffer_read_internal b n rm))). chunk_ok c"
    and "readable_bytes (snd (buffer_read_internal b n rm)) = length bs"
    and "\<not> rm \<Longrightarrow> snd (buffer_read_internal b n rm) = b"
proof -
  have e: "chunk_list b = [] \<Longrightarrow> bs = []" using assms by (auto simp: buf_rep_def buf_cells_def)
  show "fst (buffer_read_internal b n rm) = map Some (take n bs)"
    "rm \<Longrightarrow> buf_cells (snd (buffer_read_internal b n rm)) = map Some (drop n bs)"
    "\<forall>c\<in>set (chunk_list (snd (buffer_read_internal b n rm))). chunk_ok c"
    "readable_bytes (snd (buffer_read_internal b n rm)) = length bs"
    "\<not> rm \<Longrightarrow> snd (buffer_read_internal b n rm) = b"
    using assms e read_chunks_spec [of "chunk_list b"]
    by (auto simp: buffer_read_internal_def Let_def buf_rep_def buf_cells_def take_map drop_map
        split_beta)
qed

lemma buf_rep_peek: "buf_rep b bs \<Longrightarrow> tmq_buffer_peek b n = map Some (take n bs)"
  by (simp add: tmq_buffer_peek_def buf_rep_read_internal)

lemma buf_rep_read:
  assumes "buf_rep b bs"
  shows "fst (tmq_buffer_read b n) = map Some (take n bs)"
    and "buf_rep (snd (tmq_buffer_read b n)) (drop n bs)"
proof -
  obtain d b' where r: "buffer_read_internal b n True = (d, b')" by fastforce
  note spec = buf_rep_read_internal [OF assms, where n = n and rm = True, unfolded r, simplified]
  show "fst (tmq_buffer_read b n) = map Some (take n bs)"
    using r spec by (simp add: tmq_buffer_read_def)
  show "buf_rep (snd (tmq_buffer_read b n)) (drop n bs)"
    using r spec by (simp add: tmq_buffer_read_def buf_rep_def buf_cells_def)
qed

lemma buf_rep_remove:
  assumes "buf_rep b bs"
  shows "buf_rep (tmq_buffer_remove b n) (drop n bs)"
proof (cases "n = 0 \<or> chunk_list b = []")
  case True
  then show ?thesis using assms by (auto simp: tmq_buffer_remove_def buf_rep_def buf_cells_def)
next
  case False
  define k where "k = (if n > readable_bytes b then readable_bytes b else n)"
  have cs: "\<forall>c\<in>set (chunk_list b). chunk_ok c" and len: "readable_bytes b = length bs"
    and cells: "concat (map chunk_data (chunk_list b)) = map Some bs"
    using assms by (auto simp: buf_rep_def buf_cells_def)
  have k: "drop k bs = drop n bs" "length bs - k = length bs - n" by (simp_all add: k_def len)
  have "tmq_buffer_remove b n =
      \<lparr>chunk_cnt = chunk_cnt b - int (fst (remove_chunks (chunk_list b) k)),
       chunk_list = snd (read_chunks (chunk_list b) k), readable_bytes = readable_bytes b - k\<rparr>"
    using False unfolding tmq_buffer_remove_def Let_def k_def [symmetric]
    by (simp add: split_beta remove_chunks_read)
  then show ?thesis
    using read_chunks_spec [OF cs, of k] cells k len
    by (simp add: buf_rep_def buf_cells_def drop_map)
qed

lemma fill_chunk_ok:
  assumes "chunk_ok l" and "length d \<le> chunk_writeable l"
  defines "l' \<equiv> l\<lparr>cbuf := fill (cbuf l) (write_idx l) d, write_idx := write_idx l + length d\<rparr>"
  shows "chunk_ok l'" and "chunk_data l' = chunk_data l @ map Some d"
proof -
  have "chunk_write l (map Some d) = Inr l'"
    using assms(1,2) by (auto simp: chunk_write_def l'_def fill_def chunk_ok_def chunk_writeable_def)
  then show "chunk_ok l'" "chunk_data l' = chunk_data l @ map Some d"
    using chunk_write_ok [OF assms(1), of "map Some d"] assms(2) by auto
qed

text \<open>
  When the kernel delivers as many bytes as it announced (and were asked for), reading from the
  descriptor appends exactly these bytes.
\<close>

definition read_fd_size :: "nat \<Rightarrow> nat \<Rightarrow> nat" where
  "read_fd_size avail max_bytes =
     (if max_bytes = 0 then min avail FD_MAX_READ_BYTES
      else min avail (min max_bytes FD_MAX_READ_BYTES))"

lemma buf_rep_read_fd:
  assumes "buf_rep b bs" and "readv (read_fd_size avail m) = Some d"
    and "length d = read_fd_size avail m"
  shows "\<exists>b'. tmq_buffer_read_fd b (Some avail) readv m = (int (length d), b') \<and>
           buf_rep b' (bs @ d)"
proof -
  let ?cs = "chunk_list b"
  let ?l = "last ?cs"
  define use_last where "use_last = (?cs \<noteq> [] \<and> chunk_writeable ?l > 0)"
  define len where "len = (if use_last then min (chunk_writeable ?l) (length d) else 0)"
  define cs where "cs = (if use_last
      then butlast ?cs @ [?l\<lparr>cbuf := fill (cbuf ?l) (write_idx ?l) (take len d),
                            write_idx := write_idx ?l + len\<rparr>] else ?cs)"
  define n where "n = length d - len"
  define new where "new = (buffer_chunk_new n)
      \<lparr>cbuf := fill (cbuf (buffer_chunk_new n)) 0 (drop len d), write_idx := n\<rparr>"
  define b' where "b' = (if n > 0 then b\<lparr>chunk_list := cs @ [new], chunk_cnt := chunk_cnt b + 1\<rparr>
      else b\<lparr>chunk_list := cs\<rparr>)"
  have rv: "readv (length d) = Some d" using assms(2,3) by simp
  have eq: "tmq_buffer_read_fd b (Some avail) readv m =
      (int (length d), b'\<lparr>readable_bytes := readable_bytes b' + length d\<rparr>)"
    unfolding tmq_buffer_read_fd_def Let_def option.case read_fd_size_def [symmetric]
      assms(3) [symmetric] rv use_last_def [symmetric] len_def [symmetric] n_def [symmetric]
      cs_def [symmetric] new_def [symmetric] b'_def [symmetric] ..
  have ok: "\<forall>c\<in>set ?cs. chunk_ok c" and cells: "concat (map chunk_data ?cs) = map Some bs"
    and rb: "readable_bytes b = length bs"
    using assms(1) by (auto simp: buf_rep_def buf_cells_def)
  have cs: "(\<forall>c\<in>set cs. chunk_ok c) \<and> concat (map chunk_data cs) = map Some (bs @ take len d)"
  proof (cases use_last)
    case True
    then have ne: "?cs \<noteq> []" by (simp add: use_last_def)
    then have sp: "?cs = butlast ?cs @ [?l]" by simp
    have "concat (map chunk_data (butlast ?cs)) @ chunk_data ?l = map Some bs"
      using cells by (subst (asm) sp) simp
    moreover have "chunk_ok ?l" "\<forall>c\<in>set (butlast ?cs). chunk_ok c"
      using ok ne by (auto dest: in_set_butlastD)
    moreover have tl: "length (take len d) = len" "len \<le> chunk_writeable ?l"
      using True by (auto simp: len_def)
    ultimately show ?thesis
      using fill_chunk_ok [of ?l "take len d"] True by (simp add: cs_def flip: append_assoc)
  next
    case False
    then show ?thesis using ok cells by (simp add: cs_def len_def)
  qed
  have "write_idx (buffer_chunk_new n) = 0" "length (drop len d) = n"
    by (simp_all add: buffer_chunk_new_def Let_def n_def)
  then have new: "chunk_ok new" "chunk_data new = map Some (drop len d)"
    using fill_chunk_ok [OF chunk_ok_new(1), of "drop len d" n] chunk_ok_new(2,3)
    by (simp_all add: new_def)
  have "buf_rep (b'\<lparr>readable_bytes := readable_bytes b' + length d\<rparr>) (bs @ d)"
    using cs new rb map_append [of Some "take len d" "drop len d", symmetric]
    by (auto simp: buf_rep_def b'_def buf_cells_def n_def)
  with eq show ?thesis by blast
qed

lemma buf_rep_write_fd:
  assumes "buf_rep b bs"
  shows "tmq_buffer_write_fd b writev =
    (case writev (map Some bs) of None \<Rightarrow> (-1, b) | Some n \<Rightarrow> (int n, tmq_buffer_remove b n))"
  using assms by (simp add: tmq_buffer_write_fd_def buf_rep_def buf_cells_def)

text \<open>Big-endian integers read from the buffer.\<close>

lemma cells_to_be_Some:
  "n \<le> length bs \<Longrightarrow> cells_to_be n (map Some (take n bs)) = Inr (be_nat (take n bs))"
  by (simp add: cells_to_be_def comp_def)

lemma cells_to_be_short: "length bs < n \<Longrightarrow> cells_to_be n (map Some bs) = Inl Uninit_Read"
  by (simp add: cells_to_be_def)

lemma buf_rep_read16:
  assumes "buf_rep b bs"
  shows "fst (tmq_buffer_read16 b) =
      (if 2 \<le> length bs then Inr (of_nat (be_nat (take 2 bs))) else Inl Uninit_Read)"
    and "buf_rep (snd (tmq_buffer_read16 b)) (drop 2 bs)"
  using buf_rep_read [OF assms, of 2]
  by (auto simp: tmq_buffer_read16_def split_beta cells_to_be_Some cells_to_be_short)

lemma buf_rep_peek16:
  assumes "buf_rep b bs"
  shows "tmq_buffer_peek16 b =
      (if 2 \<le> length bs then Inr (of_nat (be_nat (take 2 bs))) else Inl Uninit_Read)"
  by (auto simp: tmq_buffer_peek16_def buf_rep_peek [OF assms] cells_to_be_Some cells_to_be_short)

text \<open>
  Prepending works when the read part of the first chunk has room for the data (or the buffer has
  no chunk); otherwise only the last bytes of the data that fit there are inserted.
\<close>

lemma buf_rep_prepend:
  assumes "buf_rep b bs"
  shows "\<exists>b'. tmq_buffer_prepend b data = Inr b' \<and>
    buf_rep b' ((case chunk_list b of [] \<Rightarrow> data
                 | c # _ \<Rightarrow> drop (length data - read_idx c) data) @ bs)"
proof (cases "chunk_list b")
  case Nil
  obtain c where c: "chunk_write (buffer_chunk_new (length data)) (map Some data) = Inr c"
      "chunk_ok c" "chunk_data c = map Some data"
    using chunk_write_ok [OF chunk_ok_new(1), of "map Some data" "length data"] chunk_ok_new(2,3)
    by auto
  with Nil assms show ?thesis
    by (simp add: tmq_buffer_prepend_def Let_def buf_rep_def buf_cells_def)
next
  case (Cons c cs)
  have c: "chunk_ok c" using assms Cons by (simp add: buf_rep_def)
  let ?d = "map Some (drop (length data - read_idx c) data)"
  have "length ?d \<le> read_idx c" by simp
  note u = chunk_unread_ok [OF c this]
  show ?thesis
    using assms Cons u
    by (auto simp: tmq_buffer_prepend_def Let_def buf_rep_def buf_cells_def drop_map)
qed

section \<open>Interface\<close>

locale byte_fifo =
  fixes empty :: "'b"
    and append :: "'b \<Rightarrow> bytes \<Rightarrow> 'b res"
    and read :: "'b \<Rightarrow> nat \<Rightarrow> u8 option list \<times> 'b"
    and peek :: "'b \<Rightarrow> nat \<Rightarrow> u8 option list"
    and discard :: "'b \<Rightarrow> nat \<Rightarrow> 'b"
    and rep :: "'b \<Rightarrow> bytes \<Rightarrow> bool"
  assumes rep_empty: "rep empty []"
    and append_rep: "rep b xs \<Longrightarrow> \<exists>b'. append b ys = Inr b' \<and> rep b' (xs @ ys)"
    and read_data: "rep b xs \<Longrightarrow> fst (read b n) = map Some (take n xs)"
    and read_rep: "rep b xs \<Longrightarrow> rep (snd (read b n)) (drop n xs)"
    and peek_data: "rep b xs \<Longrightarrow> peek b n = map Some (take n xs)"
    and discard_rep: "rep b xs \<Longrightarrow> rep (discard b n) (drop n xs)"
begin

fun append_all :: "'b \<Rightarrow> bytes list \<Rightarrow> 'b res" where
  "append_all b [] = Inr b"
| "append_all b (f # fs) = bind (append b f) (\<lambda>b'. append_all b' fs)"

lemma append_all_rep: "rep b xs \<Longrightarrow> \<exists>b'. append_all b fs = Inr b' \<and> rep b' (xs @ concat fs)"
proof (induction fs arbitrary: b xs)
  case (Cons f fs)
  obtain b' where "append b f = Inr b'" "rep b' (xs @ f)" using append_rep [OF Cons.prems] by blast
  then show ?case using Cons.IH [of b' "xs @ f"] by auto
qed simp

lemma peek_read: "rep b xs \<Longrightarrow> peek b n = fst (read b n)"
  by (simp add: peek_data read_data)

lemma read_twice:
  "rep b xs \<Longrightarrow> fst (read b n) @ fst (read (snd (read b n)) m) = fst (read b (n + m))"
  by (simp add: read_data read_data [OF read_rep] take_add)

lemma append_read:
  assumes "rep b xs" and "append b ys = Inr b'"
  shows "fst (read (snd (read b' (length xs))) (length ys)) = map Some ys"
  using assms append_rep [OF assms(1), of ys] read_data [OF read_rep] by fastforce

end

interpretation buf: byte_fifo tmq_buffer_init tmq_buffer_append tmq_buffer_read tmq_buffer_peek
  tmq_buffer_remove buf_rep
  by unfold_locales
     (simp_all add: buf_rep_init buf_rep_append buf_rep_read buf_rep_peek buf_rep_remove)

section \<open>Properties\<close>

datatype buf_op = Append bytes | Read nat | Peek nat | Remove nat

fun buf_run :: "buf_op list \<Rightarrow> buffer \<Rightarrow> (u8 option list list \<times> buffer) res" where
  "buf_run [] b = Inr ([], b)"
| "buf_run (Append d # ops) b = bind (tmq_buffer_append b d) (buf_run ops)"
| "buf_run (Read n # ops) b =
     bind (buf_run ops (snd (tmq_buffer_read b n)))
       (\<lambda>(os, b'). Inr (fst (tmq_buffer_read b n) # os, b'))"
| "buf_run (Peek n # ops) b =
     bind (buf_run ops b) (\<lambda>(os, b'). Inr (tmq_buffer_peek b n # os, b'))"
| "buf_run (Remove n # ops) b = buf_run ops (tmq_buffer_remove b n)"

fun fifo_run :: "buf_op list \<Rightarrow> bytes \<Rightarrow> bytes list \<times> bytes" where
  "fifo_run [] s = ([], s)"
| "fifo_run (Append d # ops) s = fifo_run ops (s @ d)"
| "fifo_run (Read n # ops) s =
     (let (os, s') = fifo_run ops (drop n s) in (take n s # os, s'))"
| "fifo_run (Peek n # ops) s = (let (os, s') = fifo_run ops s in (take n s # os, s'))"
| "fifo_run (Remove n # ops) s = fifo_run ops (drop n s)"

lemma buf_run_refines:
  "buf_rep b s \<Longrightarrow> \<exists>b'. buf_run ops b = Inr (map (map Some) (fst (fifo_run ops s)), b') \<and>
     buf_rep b' (snd (fifo_run ops s))"
proof (induction ops arbitrary: b s)
  case (Cons op ops)
  show ?case
  proof (cases op)
    case (Append d)
    obtain b' where "tmq_buffer_append b d = Inr b'" "buf_rep b' (s @ d)"
      using buf.append_rep [OF Cons.prems] by blast
    then show ?thesis using Cons.IH [of b' "s @ d"] Append by simp
  next
    case (Read n)
    show ?thesis
      using Cons.IH [OF buf.read_rep [OF Cons.prems, of n]] buf.read_data [OF Cons.prems] Read
      by (auto simp: split_beta)
  next
    case (Peek n)
    show ?thesis
      using Cons.IH [OF Cons.prems] buf.peek_data [OF Cons.prems] Peek by (auto simp: split_beta)
  next
    case (Remove n)
    show ?thesis using Cons.IH [OF buf.discard_rep [OF Cons.prems]] Remove by simp
  qed
qed simp

text \<open>
  C21. The chunked buffer is a byte queue: for every sequence of append, read, peek and remove on an
  empty buffer, no copy leaves a chunk and no assertion fails, every read and peek returns exactly
  the bytes a plain byte list would give (never an uninitialised cell), and at the end
  \<open>readable_bytes\<close> is the number of bytes left.
\<close>

theorem buffer_is_fifo:
  "\<exists>b. buf_run ops tmq_buffer_init = Inr (map (map Some) (fst (fifo_run ops [])), b) \<and>
       buf_cells b = map Some (snd (fifo_run ops [])) \<and>
       readable_bytes b = length (snd (fifo_run ops []))"
  using buf_run_refines [OF buf_rep_init, of ops] by (auto simp: buf_rep_def)

text \<open>
  C22. Reading from a socket: when the kernel delivers the number of bytes that was asked for (at
  most what it announced, the caller's limit and 64 KiB), \<open>tmq_buffer_read_fd\<close> returns that number
  and appends exactly those bytes, whether they fit into the last chunk, need a new one, or are
  split over both.
\<close>

theorem buffer_read_fd_appends:
  assumes "buf_rep b bs" and "readv (read_fd_size avail m) = Some d"
    and "length d = read_fd_size avail m"
  shows "\<exists>b'. tmq_buffer_read_fd b (Some avail) readv m = (int (length d), b') \<and>
           fst (tmq_buffer_read b' (length bs + length d)) = map Some (bs @ d) \<and>
           buf_rep b' (bs @ d)"
proof -
  obtain b' where "tmq_buffer_read_fd b (Some avail) readv m = (int (length d), b')"
      and r: "buf_rep b' (bs @ d)"
    using buf_rep_read_fd [of b bs readv avail m d] assms by blast
  then show ?thesis using buf.read_data [OF r, of "length bs + length d"] by simp
qed

theorem buffer_read_fd_appends_witness:
  "\<exists>b'. tmq_buffer_read_fd tmq_buffer_init (Some 3) (\<lambda>n. Some (take n [7, 8, 9, 10])) 0 = (3, b') \<and>
     buf_rep b' [7, 8, 9]"
  using buffer_read_fd_appends [OF buf_rep_init, of "\<lambda>n. Some (take n [7, 8, 9, 10])" 3 0 "[7, 8, 9]"]
  by (auto simp: read_fd_size_def)

text \<open>
  A failing \<^verbatim>\<open>readv\<close> leaves the write index advanced over cells that were never filled: the
  buffer then contains indeterminate bytes that \<open>readable_bytes\<close> does not count.
\<close>

theorem buffer_read_fd_error_leaves_garbage:
  assumes "0 < n" and "n \<le> 512"
  shows "buf_cells (snd (tmq_buffer_read_fd tmq_buffer_init (Some n) (\<lambda>_. None) 0)) = replicate n None \<and>
         readable_bytes (snd (tmq_buffer_read_fd tmq_buffer_init (Some n) (\<lambda>_. None) 0)) = 0"
  using assms
  by (simp add: tmq_buffer_read_fd_def tmq_buffer_init_def Let_def buf_cells_def buffer_chunk_new_def
      fill_def chunk_data_def chunk_data_len_def)

end
