(* ===== verification/Decode.thy ===== *)
theory Decode
  imports Packet Buffer
begin

text \<open>
  The MQTT decoder of \<^verbatim>\<open>codec/mqtt_proto_codec.c\<close>: the packet parsers and the state machine
  \<open>decode_tcp_message\<close> that runs them whenever bytes arrive. The decoder works on the bytes the
  connection's buffer holds (\<open>buf_rep\<close> of theory \<open>Buffer\<close>; the reading primitives below are what
  \<^verbatim>\<open>tmq_buffer_read\<close> and \<^verbatim>\<open>tmq_buffer_read16\<close> do there). Reading a byte or an integer from an
  exhausted buffer leaves an uninitialised local, a fault; reading a string pads with the zeros
  that \<^verbatim>\<open>tmq_str_new_len\<close> filled in.

  The context record has the fields of \<^verbatim>\<open>tcp_conn_mqtt_ctx_t\<close> and its parsing context. The union
  \<^verbatim>\<open>upstream\<close> is tagged with the member that was stored, and reading another member faults
  (\<open>Type_Confusion\<close>). Effects are a list of events: packets sent, packets delivered to a callback,
  and the forced close. Callbacks run inside the decoder and may change \<^verbatim>\<open>conn_state\<close> and
  \<^verbatim>\<open>upstream\<close> (the client's CONNACK handler does), so their effect on these two fields is the
  argument \<open>cb\<close>.
\<close>

datatype codec_type = CLIENT_CODEC | SERVER_CODEC

datatype conn_state_e = NO_SESSION | STARTING_SESSION | IN_SESSION | TUNNELED

datatype upstream_e = Up_Broker | Up_Session | Up_Client

datatype parsing_state = PARSING_FIXED_HEADER | PARSING_REMAIN_LENGTH | PARSING_BODY

datatype decode_status =
    DECODE_OK | NEED_MORE_DATA | UNKNOWN_PACKET | BAD_PACKET_FORMAT | PROTOCOL_ERROR
  | UNEXPECTED_PACKET

record conn_ctx =
  upstream :: upstream_e
  conn_state :: conn_state_e
  parse_state :: parsing_state
  type_flags :: u8
  remain_length :: u32
  multiplier :: u32

datatype codec_event =
    Send any_packet
  | Deliver any_packet
  | Tun_Publish publish_pkt
  | Force_Close

type_synonym callback = "any_packet \<Rightarrow> upstream_e \<times> conn_state_e \<Rightarrow> upstream_e \<times> conn_state_e"
type_synonym decoded = "decode_status \<times> codec_event list \<times> conn_ctx \<times> bytes"

definition PACKET_TYPE :: "conn_ctx \<Rightarrow> nat" where
  "PACKET_TYPE c = unat (drop_bit 4 (type_flags c) AND 0x0F)"

definition FLAGS :: "conn_ctx \<Rightarrow> u8" where
  "FLAGS c = type_flags c AND 0x0F"

section \<open>Reading from the buffer\<close>

definition rd_byte :: "bytes \<Rightarrow> (u8 \<times> bytes) res" where
  "rd_byte bs = (case bs of [] \<Rightarrow> Inl Uninit_Read | b # bs \<Rightarrow> Inr (b, bs))"

definition rd16 :: "bytes \<Rightarrow> (u16 \<times> bytes) res" where
  "rd16 bs =
     (if length bs < 2 then Inl Uninit_Read else Inr (of_nat (be_nat (take 2 bs)), drop 2 bs))"

definition rd_str :: "nat \<Rightarrow> bytes \<Rightarrow> tmq_str \<times> bytes" where
  "rd_str n bs = (str_of_bytes (take n bs @ replicate (n - length bs) 0), drop n bs)"

definition rd_lstr :: "bytes \<Rightarrow> (tmq_str \<times> bytes) res" where
  "rd_lstr bs = bind (rd16 bs) (\<lambda>(n, bs). Inr (rd_str (unat n) bs))"

definition rd_lstr_if :: "bool \<Rightarrow> bytes \<Rightarrow> (tmq_str option \<times> bytes) res" where
  "rd_lstr_if c bs =
     (if c then bind (rd_lstr bs) (\<lambda>(s, bs). Inr (Some s, bs)) else Inr (None, bs))"

section \<open>Fixed header\<close>

definition parse_fix_header :: "conn_ctx \<Rightarrow> u8 \<Rightarrow> decode_status \<times> conn_ctx" where
  "parse_fix_header ctx byte =
     (let type = drop_bit 4 byte AND 0x0F
      in if type < 1 \<or> type > 14 then (UNKNOWN_PACKET, ctx)
         else (DECODE_OK, ctx\<lparr>type_flags := byte, remain_length := 0, multiplier := 1,
                              parse_state := PARSING_REMAIN_LENGTH\<rparr>))"

definition validate_flags :: "conn_ctx \<Rightarrow> decode_status" where
  "validate_flags ctx =
     (let type = PACKET_TYPE ctx
      in if type = 3 then DECODE_OK
         else if type = 6 \<or> type = 8 \<or> type = 10 then
           (if FLAGS ctx = 2 then DECODE_OK else BAD_PACKET_FORMAT)
         else if FLAGS ctx = 0 then DECODE_OK else PROTOCOL_ERROR)"

fun parse_remain_length :: "conn_ctx \<Rightarrow> bytes \<Rightarrow> (decode_status \<times> conn_ctx \<times> bytes) res" where
  "parse_remain_length ctx [] = Inl Uninit_Read"
| "parse_remain_length ctx (byte # bs) =
     (let ctx = ctx\<lparr>remain_length := remain_length ctx + ucast (byte AND 0x7F) * multiplier ctx\<rparr>
      in if multiplier ctx > 128 * 128 * 128 then Inr (BAD_PACKET_FORMAT, ctx, bs)
         else
           let ctx = ctx\<lparr>multiplier := multiplier ctx * 128\<rparr>
           in if bs \<noteq> [] \<and> byte AND 0x80 \<noteq> 0 then parse_remain_length ctx bs
              else if byte AND 0x80 \<noteq> 0 then Inr (NEED_MORE_DATA, ctx, bs)
              else Inr (DECODE_OK, ctx, bs))"

section \<open>Packet parsers\<close>

text \<open>Calling a callback through a member of the upstream union.\<close>

definition deliver :: "callback \<Rightarrow> upstream_e \<Rightarrow> any_packet \<Rightarrow> codec_event list \<Rightarrow>
    conn_ctx \<Rightarrow> bytes \<Rightarrow> decoded res" where
  "deliver cb up p sent ctx bs =
     (if upstream ctx \<noteq> up then Inl Type_Confusion
      else
        let (u, s) = cb p (upstream ctx, conn_state ctx)
        in Inr (DECODE_OK, sent @ [Deliver p], ctx\<lparr>upstream := u, conn_state := s\<rparr>, bs))"

definition reject :: "decode_status \<Rightarrow> codec_event list \<Rightarrow> conn_ctx \<Rightarrow> bytes \<Rightarrow> decoded res" where
  "reject st sent ctx bs = Inr (st, sent, ctx, bs)"

definition parse_connect_payload :: "callback \<Rightarrow> u8 \<Rightarrow> u16 \<Rightarrow> u16 \<Rightarrow> conn_ctx \<Rightarrow> bytes \<Rightarrow> decoded res" where
  "parse_connect_payload cb flags alive cid_len ctx bs =
     (let (cid, bs) = (if cid_len > 0 then (let (s, bs) = rd_str (unat cid_len) bs in (Some s, bs))
                       else (None, bs))
      in bind (rd_lstr_if (CONNECT_WILL_FLAG flags) bs) (\<lambda>(wt, bs).
         bind (rd_lstr_if (CONNECT_WILL_FLAG flags) bs) (\<lambda>(wm, bs).
         bind (rd_lstr_if (CONNECT_USERNAME_FLAG flags) bs) (\<lambda>(un, bs).
         bind (rd_lstr_if (CONNECT_PASSWORD_FLAG flags) bs) (\<lambda>(pw, bs).
           deliver cb Up_Broker
             (CONNECT \<lparr>conn_flags = flags, keep_alive = alive, client_id = cid, will_topic = wt,
                       will_message = wm, username = un, password = pw\<rparr>)
             [] (ctx\<lparr>conn_state := STARTING_SESSION\<rparr>) bs)))))"

definition parse_connect_packet :: "callback \<Rightarrow> codec_type \<Rightarrow> conn_ctx \<Rightarrow> bytes \<Rightarrow> decoded res" where
  "parse_connect_packet cb ct ctx bs =
     (if ct \<noteq> SERVER_CODEC then reject UNEXPECTED_PACKET [] ctx bs
      else
        bind (rd16 bs) (\<lambda>(name_len, bs).
        if name_len \<noteq> 4 then reject PROTOCOL_ERROR [] ctx bs
        else
          let (name, bs) = rd_str 4 bs
          in if cstr name \<noteq> ''MQTT'' then reject PROTOCOL_ERROR [] ctx bs
             else
               bind (rd_byte bs) (\<lambda>(level, bs).
               if level \<noteq> 4 then
                 reject PROTOCOL_ERROR
                   [Send (CONNACK \<lparr>ack_flags = 0,
                                   return_code = connack_code UNACCEPTABLE_PROTOCOL_VERSION\<rparr>)] ctx bs
               else
                 bind (rd_byte bs) (\<lambda>(flags, bs).
                 if CONNECT_RESERVED flags then reject PROTOCOL_ERROR [] ctx bs
                 else if (\<not> CONNECT_WILL_FLAG flags \<and> CONNECT_WILL_QOS flags \<noteq> 0)
                         \<or> CONNECT_WILL_QOS flags > 2
                 then reject PROTOCOL_ERROR [] ctx bs
                 else
                   bind (rd16 bs) (\<lambda>(alive, bs).
                   bind (rd16 bs) (\<lambda>(cid_len, bs).
                   if cid_len = 0 \<and> \<not> CONNECT_CLEAN_SESSION flags then
                     reject PROTOCOL_ERROR
                       [Send (CONNACK \<lparr>ack_flags = 0,
                                       return_code = connack_code IDENTIFIER_REJECTED\<rparr>)] ctx bs
                   else parse_connect_payload cb flags alive cid_len ctx bs))))))"

definition parse_conn_ack_packet :: "callback \<Rightarrow> codec_type \<Rightarrow> conn_ctx \<Rightarrow> bytes \<Rightarrow> decoded res" where
  "parse_conn_ack_packet cb ct ctx bs =
     (if ct \<noteq> CLIENT_CODEC then reject UNEXPECTED_PACKET [] ctx bs
      else
        bind (rd_byte bs) (\<lambda>(fl, bs).
        bind (rd_byte bs) (\<lambda>(rc, bs).
          deliver cb Up_Client (CONNACK \<lparr>ack_flags = fl, return_code = rc\<rparr>) [] ctx bs)))"

text \<open>
  The payload length is computed in 32-bit unsigned arithmetic before it is stored in the signed
  \<^verbatim>\<open>payload_len\<close>.
\<close>

definition publish_payload_len :: "u32 \<Rightarrow> u16 \<Rightarrow> u8 \<Rightarrow> int" where
  "publish_payload_len len topic_len flags =
     uint (len - 2 - ucast topic_len) - (if PUBLISH_QOS flags \<noteq> 0 then 2 else 0)"

definition publish_acks :: "publish_pkt \<Rightarrow> codec_event list" where
  "publish_acks p =
     (if PUBLISH_QOS (pub_flags p) = 1 then [Send (PUBACK (packet_id p))]
      else if PUBLISH_QOS (pub_flags p) = 2 then [Send (PUBREC (packet_id p))]
      else [])"

definition parse_publish_packet :: "callback \<Rightarrow> codec_type \<Rightarrow> u32 \<Rightarrow> conn_ctx \<Rightarrow> bytes \<Rightarrow> decoded res" where
  "parse_publish_packet cb ct len ctx bs =
     bind (rd16 bs) (\<lambda>(topic_len, bs).
     let flags = FLAGS ctx;
         (tp, bs) = rd_str (unat topic_len) bs;
         payload_len = publish_payload_len len topic_len flags
     in bind (if PUBLISH_QOS flags \<noteq> 0 then rd16 bs else Inr (0, bs)) (\<lambda>(pid, bs).
        if payload_len < 0 then reject BAD_PACKET_FORMAT [] ctx bs
        else
          let (pl, bs) = rd_str (nat payload_len) bs;
              p = \<lparr>pub_flags = flags, topic = tp, packet_id = pid, payload = pl\<rparr>
          in if conn_state ctx = TUNNELED then
               (if upstream ctx \<noteq> Up_Broker then Inl Type_Confusion
                else Inr (DECODE_OK, [Tun_Publish p], ctx, bs))
             else deliver cb Up_Session (PUBLISH p) (publish_acks p) ctx bs))"

definition parse_id_packet :: "callback \<Rightarrow> (u16 \<Rightarrow> any_packet) \<Rightarrow> (u16 \<Rightarrow> codec_event list) \<Rightarrow>
    conn_ctx \<Rightarrow> bytes \<Rightarrow> decoded res" where
  "parse_id_packet cb mk sends ctx bs =
     bind (rd16 bs) (\<lambda>(i, bs). deliver cb Up_Session (mk i) (sends i) ctx bs)"

definition parse_pub_ack_packet :: "callback \<Rightarrow> conn_ctx \<Rightarrow> bytes \<Rightarrow> decoded res" where
  "parse_pub_ack_packet cb = parse_id_packet cb PUBACK (\<lambda>_. [])"

definition parse_pubrec_packet :: "callback \<Rightarrow> conn_ctx \<Rightarrow> bytes \<Rightarrow> decoded res" where
  "parse_pubrec_packet cb = parse_id_packet cb PUBREC (\<lambda>_. [])"

definition parse_pub_rel_packet :: "callback \<Rightarrow> conn_ctx \<Rightarrow> bytes \<Rightarrow> decoded res" where
  "parse_pub_rel_packet cb = parse_id_packet cb PUBREL (\<lambda>i. [Send (PUBCOMP i)])"

definition parse_pubcomp_packet :: "callback \<Rightarrow> conn_ctx \<Rightarrow> bytes \<Rightarrow> decoded res" where
  "parse_pubcomp_packet cb = parse_id_packet cb PUBCOMP (\<lambda>_. [])"

text \<open>
  One round of the SUBSCRIBE loop: the filter, its QoS (initialised to 0 before the read) and the
  rest. The loop itself runs while the unsigned \<^verbatim>\<open>len\<close> is not zero, and \<^verbatim>\<open>len\<close> wraps when a filter is
  longer than what is left of it; \<open>None\<close> is the exit for a bad QoS.
\<close>

definition rd_filter :: "bytes \<Rightarrow> (tmq_str \<times> u8 \<times> u32 \<times> bytes) res" where
  "rd_filter bs =
     bind (rd16 bs) (\<lambda>(tf_len, bs).
       let (tf, bs) = rd_str (unat tf_len) bs;
           (qos, bs) = (case bs of [] \<Rightarrow> (0, []) | b # bs \<Rightarrow> (b, bs))
       in Inr (tf, qos, 2 + ucast tf_len + 1, bs))"

lemma rd_filter_shorter: "rd_filter bs = Inr (tf, q, k, bs') \<Longrightarrow> length bs' < length bs"
  by (auto simp: rd_filter_def rd16_def rd_str_def Let_def bind_eq_Inr split: if_splits list.splits
      dest!: arg_cong [of _ _ length])

function subscribe_loop :: "u32 \<Rightarrow> bytes \<Rightarrow> (topic_filter_qos list option \<times> bytes) res" where
  "subscribe_loop len bs =
     (if len > 0 then
        (case rd_filter bs of
           Inl e \<Rightarrow> Inl e
         | Inr (tf, qos, k, bs') \<Rightarrow>
             if qos > 2 then Inr (None, bs')
             else bind (subscribe_loop (len - k) bs') (\<lambda>(tfs, bs).
                    Inr (map_option ((#) \<lparr>topic_filter = tf, tf_qos = qos\<rparr>) tfs, bs)))
      else Inr (Some [], bs))"
  by pat_completeness auto
termination
  by (relation "measure (\<lambda>(_, bs). length bs)") (auto dest: rd_filter_shorter)

declare subscribe_loop.simps [simp del]

definition parse_subscribe_packet :: "callback \<Rightarrow> codec_type \<Rightarrow> u32 \<Rightarrow> conn_ctx \<Rightarrow> bytes \<Rightarrow> decoded res" where
  "parse_subscribe_packet cb ct len ctx bs =
     (if ct \<noteq> SERVER_CODEC then reject UNEXPECTED_PACKET [] ctx bs
      else
        bind (rd16 bs) (\<lambda>(pid, bs).
        bind (subscribe_loop (len - 2) bs) (\<lambda>(tfs, bs).
          case tfs of
            None \<Rightarrow> reject PROTOCOL_ERROR [] ctx bs
          | Some tfs \<Rightarrow>
              deliver cb Up_Session (SUBSCRIBE \<lparr>sub_packet_id = pid, sub_topics = tfs\<rparr>) [] ctx bs)))"

fun suback_loop :: "u32 \<Rightarrow> bytes \<Rightarrow> (u8 list \<times> bytes) res" where
  "suback_loop len [] = (if len > 0 then Inl Uninit_Read else Inr ([], []))"
| "suback_loop len (b # bs) =
     (if len > 0 then bind (suback_loop (len - 1) bs) (\<lambda>(cs, bs). Inr (b # cs, bs))
      else Inr ([], b # bs))"

definition parse_suback_packet :: "callback \<Rightarrow> codec_type \<Rightarrow> u32 \<Rightarrow> conn_ctx \<Rightarrow> bytes \<Rightarrow> decoded res" where
  "parse_suback_packet cb ct len ctx bs =
     (if ct \<noteq> CLIENT_CODEC then reject UNEXPECTED_PACKET [] ctx bs
      else
        bind (rd16 bs) (\<lambda>(pid, bs).
        bind (suback_loop (len - 2) bs) (\<lambda>(cs, bs).
          deliver cb Up_Session (SUBACK \<lparr>suback_packet_id = pid, return_codes = cs\<rparr>) [] ctx bs)))"

function unsubscribe_loop :: "u32 \<Rightarrow> bytes \<Rightarrow> (tmq_str list \<times> bytes) res" where
  "unsubscribe_loop len bs =
     (if len > 0 then
        (case rd16 bs of
           Inl e \<Rightarrow> Inl e
         | Inr (tf_len, bs') \<Rightarrow>
             bind (unsubscribe_loop (len - (2 + ucast tf_len)) (snd (rd_str (unat tf_len) bs')))
               (\<lambda>(ts, bs). Inr (fst (rd_str (unat tf_len) bs') # ts, bs)))
      else Inr ([], bs))"
  by pat_completeness auto
termination
  by (relation "measure (\<lambda>(_, bs). length bs)") (auto simp: rd16_def rd_str_def split: if_splits)

declare unsubscribe_loop.simps [simp del]

definition parse_unsubscribe_packet :: "callback \<Rightarrow> codec_type \<Rightarrow> u32 \<Rightarrow> conn_ctx \<Rightarrow> bytes \<Rightarrow> decoded res" where
  "parse_unsubscribe_packet cb ct len ctx bs =
     (if ct \<noteq> SERVER_CODEC then reject UNEXPECTED_PACKET [] ctx bs
      else
        bind (rd16 bs) (\<lambda>(pid, bs).
        bind (unsubscribe_loop (len - 2) bs) (\<lambda>(ts, bs).
          deliver cb Up_Session (UNSUBSCRIBE \<lparr>unsub_packet_id = pid, unsub_topics = ts\<rparr>) [] ctx bs)))"

definition parse_unsub_ack_packet :: "callback \<Rightarrow> codec_type \<Rightarrow> conn_ctx \<Rightarrow> bytes \<Rightarrow> decoded res" where
  "parse_unsub_ack_packet cb ct ctx bs =
     (if ct \<noteq> CLIENT_CODEC then reject UNEXPECTED_PACKET [] ctx bs
      else parse_id_packet cb UNSUBACK (\<lambda>_. []) ctx bs)"

definition parse_ping_req_packet :: "callback \<Rightarrow> codec_type \<Rightarrow> conn_ctx \<Rightarrow> bytes \<Rightarrow> decoded res" where
  "parse_ping_req_packet cb ct ctx bs =
     (if ct \<noteq> SERVER_CODEC then reject UNEXPECTED_PACKET [] ctx bs
      else deliver cb Up_Session PINGREQ [Send PINGRESP] ctx bs)"

definition parse_ping_resp_packet :: "callback \<Rightarrow> codec_type \<Rightarrow> conn_ctx \<Rightarrow> bytes \<Rightarrow> decoded res" where
  "parse_ping_resp_packet cb ct ctx bs =
     (if ct \<noteq> CLIENT_CODEC then reject UNEXPECTED_PACKET [] ctx bs
      else deliver cb Up_Session PINGRESP [] ctx bs)"

definition parse_disconnect_packet :: "callback \<Rightarrow> codec_type \<Rightarrow> conn_ctx \<Rightarrow> bytes \<Rightarrow> decoded res" where
  "parse_disconnect_packet cb ct ctx bs =
     (if ct \<noteq> SERVER_CODEC then reject UNEXPECTED_PACKET [] ctx bs
      else
        let in_session = (conn_state ctx = IN_SESSION);
            ctx = ctx\<lparr>conn_state := NO_SESSION, upstream := Up_Broker\<rparr>
        in if in_session then deliver cb Up_Broker DISCONNECT [] ctx bs
           else Inr (DECODE_OK, [], ctx, bs))"

text \<open>The dispatch table \<^verbatim>\<open>packet_parsers\<close>; type 0 never gets past the fixed header.\<close>

definition packet_parser :: "callback \<Rightarrow> codec_type \<Rightarrow> nat \<Rightarrow> u32 \<Rightarrow> conn_ctx \<Rightarrow> bytes \<Rightarrow> decoded res" where
  "packet_parser cb ct type len ctx bs =
     (if type = 1 then parse_connect_packet cb ct ctx bs
      else if type = 2 then parse_conn_ack_packet cb ct ctx bs
      else if type = 3 then parse_publish_packet cb ct len ctx bs
      else if type = 4 then parse_pub_ack_packet cb ctx bs
      else if type = 5 then parse_pubrec_packet cb ctx bs
      else if type = 6 then parse_pub_rel_packet cb ctx bs
      else if type = 7 then parse_pubcomp_packet cb ctx bs
      else if type = 8 then parse_subscribe_packet cb ct len ctx bs
      else if type = 9 then parse_suback_packet cb ct len ctx bs
      else if type = 10 then parse_unsubscribe_packet cb ct len ctx bs
      else if type = 11 then parse_unsub_ack_packet cb ct ctx bs
      else if type = 12 then parse_ping_req_packet cb ct ctx bs
      else if type = 13 then parse_ping_resp_packet cb ct ctx bs
      else if type = 14 then parse_disconnect_packet cb ct ctx bs
      else Inl Null_Deref)"

section \<open>The decoding loop\<close>

text \<open>
  One pass through the \<^verbatim>\<open>switch\<close>, whose cases fall through from the fixed header to the remaining
  length to the body. \<open>st\<close> is the value of \<^verbatim>\<open>status\<close> on entry to the second case, \<open>None\<close> when the
  pass starts there and the variable is not yet initialised.
\<close>

definition decode_body :: "callback \<Rightarrow> codec_type \<Rightarrow> conn_ctx \<Rightarrow> bytes \<Rightarrow> decoded res" where
  "decode_body cb ct ctx bs =
     (if length bs < unat (remain_length ctx) then Inr (NEED_MORE_DATA, [], ctx, bs)
      else
        bind (packet_parser cb ct (PACKET_TYPE ctx) (remain_length ctx) ctx bs)
          (\<lambda>(st, evs, ctx, bs).
             Inr (st, evs,
                  if st = DECODE_OK then ctx\<lparr>parse_state := PARSING_FIXED_HEADER\<rparr> else ctx, bs)))"

definition decode_remain ::
    "callback \<Rightarrow> codec_type \<Rightarrow> decode_status option \<Rightarrow> conn_ctx \<Rightarrow> bytes \<Rightarrow> decoded res" where
  "decode_remain cb ct st ctx bs =
     (if bs = [] then (case st of None \<Rightarrow> Inl Uninit_Read | Some st \<Rightarrow> Inr (st, [], ctx, bs))
      else
        bind (parse_remain_length ctx bs) (\<lambda>(st, ctx, bs).
          if st = DECODE_OK then decode_body cb ct (ctx\<lparr>parse_state := PARSING_BODY\<rparr>) bs
          else Inr (st, [], ctx, bs)))"

definition decode_fixed :: "callback \<Rightarrow> codec_type \<Rightarrow> conn_ctx \<Rightarrow> bytes \<Rightarrow> decoded res" where
  "decode_fixed cb ct ctx bs =
     bind (rd_byte bs) (\<lambda>(byte, bs).
     let (st, ctx) = parse_fix_header ctx byte
     in if st \<noteq> DECODE_OK then Inr (st, [], ctx, bs)
        else
          let st = validate_flags ctx
          in if st = BAD_PACKET_FORMAT then Inr (st, [], ctx, bs)
             else if conn_state ctx = NO_SESSION \<and> PACKET_TYPE ctx \<noteq> 1 \<and> PACKET_TYPE ctx \<noteq> 2
             then Inr (PROTOCOL_ERROR, [], ctx, bs)
             else decode_remain cb ct (Some st) ctx bs)"

definition decode_pass :: "callback \<Rightarrow> codec_type \<Rightarrow> conn_ctx \<Rightarrow> bytes \<Rightarrow> decoded res" where
  "decode_pass cb ct ctx bs =
     (case parse_state ctx of
        PARSING_FIXED_HEADER \<Rightarrow> decode_fixed cb ct ctx bs
      | PARSING_REMAIN_LENGTH \<Rightarrow> decode_remain cb ct None ctx bs
      | PARSING_BODY \<Rightarrow> decode_body cb ct ctx bs)"

text \<open>No parser puts bytes back, so the loop below terminates.\<close>

lemma rd_shrinks:
  "rd_byte bs = Inr (b, bs') \<Longrightarrow> length bs' \<le> length bs"
  "rd16 bs = Inr (n, bs') \<Longrightarrow> length bs' \<le> length bs"
  "rd_str k bs = (s, bs') \<Longrightarrow> length bs' \<le> length bs"
  "rd_lstr bs = Inr (s, bs') \<Longrightarrow> length bs' \<le> length bs"
  "rd_lstr_if c bs = Inr (so, bs') \<Longrightarrow> length bs' \<le> length bs"
  by (auto simp: rd_byte_def rd16_def rd_str_def rd_lstr_def rd_lstr_if_def bind_eq_Inr
      split: list.splits if_splits)

lemma deliver_shrinks: "deliver cb up p sent ctx bs = Inr (st, evs, ctx', bs') \<Longrightarrow> bs' = bs"
  by (auto simp: deliver_def Let_def split: if_splits prod.splits)

lemma reject_shrinks: "reject st0 sent ctx bs = Inr (st, evs, ctx', bs') \<Longrightarrow> bs' = bs"
  by (simp add: reject_def)

lemmas shrinks = rd_shrinks deliver_shrinks reject_shrinks

lemma subscribe_loop_shrinks: "subscribe_loop len bs = Inr (r, bs') \<Longrightarrow> length bs' \<le> length bs"
proof (induction len bs arbitrary: r rule: subscribe_loop.induct)
  case (1 len bs)
  show ?case
  proof (cases "len > 0")
    case True
    then obtain tf q k bs1 where f: "rd_filter bs = Inr (tf, q, k, bs1)"
      using "1.prems" by (subst (asm) subscribe_loop.simps) (auto split: sum.splits)
    note lt = rd_filter_shorter [OF f]
    show ?thesis
    proof (cases "q > 2")
      case True
      then show ?thesis using "1.prems" \<open>len > 0\<close> f lt
        by (subst (asm) subscribe_loop.simps) (simp split: if_splits)
    next
      case False
      then obtain r' where "subscribe_loop (len - k) bs1 = Inr (r', bs')"
        using "1.prems" \<open>len > 0\<close> f
        by (subst (asm) subscribe_loop.simps) (auto simp: bind_eq_Inr)
      from "1.IH" [OF \<open>len > 0\<close> f refl refl refl False this] lt show ?thesis by simp
    qed
  next
    case False
    then show ?thesis using "1.prems" by (subst (asm) subscribe_loop.simps) simp
  qed
qed

lemma suback_loop_shrinks: "suback_loop len bs = Inr (r, bs') \<Longrightarrow> length bs' \<le> length bs"
  by (induction len bs arbitrary: r rule: suback_loop.induct)
     (auto simp: bind_eq_Inr split: if_splits)

lemma unsubscribe_loop_shrinks: "unsubscribe_loop len bs = Inr (r, bs') \<Longrightarrow> length bs' \<le> length bs"
proof (induction len bs arbitrary: r rule: unsubscribe_loop.induct)
  case (1 len bs)
  show ?case
  proof (cases "len > 0")
    case True
    then obtain n bs1 where f: "rd16 bs = Inr (n, bs1)"
      using "1.prems" by (subst (asm) unsubscribe_loop.simps) (auto split: sum.splits)
    then obtain r' where
      "unsubscribe_loop (len - (2 + ucast n)) (snd (rd_str (unat n) bs1)) = Inr (r', bs')"
      using "1.prems" True by (subst (asm) unsubscribe_loop.simps) (auto simp: bind_eq_Inr)
    from "1.IH" [OF True f refl this] rd_shrinks(2) [OF f] show ?thesis
      by (simp add: rd_str_def)
  next
    case False
    then show ?thesis using "1.prems" by (subst (asm) unsubscribe_loop.simps) simp
  qed
qed

lemma parse_connect_shrinks:
  "parse_connect_payload cb fl al cl ctx bs = Inr (st, evs, ctx', bs') \<Longrightarrow> length bs' \<le> length bs"
  "parse_connect_packet cb ct ctx bs = Inr (st, evs, ctx', bs') \<Longrightarrow> length bs' \<le> length bs"
proof -
  show p: "length bs' \<le> length bs"
    if "parse_connect_payload cb fl al cl ctx bs = Inr (st, evs, ctx', bs')" for fl al cl ctx bs
    using that
    by (fastforce simp: parse_connect_payload_def Let_def bind_eq_Inr split: if_splits prod.splits
        dest!: shrinks)
  show "length bs' \<le> length bs"
    if "parse_connect_packet cb ct ctx bs = Inr (st, evs, ctx', bs')"
    using that
    by (fastforce simp: parse_connect_packet_def Let_def bind_eq_Inr split: if_splits prod.splits
        dest!: shrinks p)
qed

lemma packet_parser_shrinks:
  assumes "packet_parser cb ct ty len ctx bs = Inr (st, evs, ctx', bs')"
  shows "length bs' \<le> length bs"
proof -
  have pub: "length bs' \<le> length bs" if "parse_publish_packet cb ct len ctx bs = Inr (st, evs, ctx', bs')"
    using that
    by (auto simp: parse_publish_packet_def Let_def bind_eq_Inr rd_str_def reject_def
        split: if_splits dest!: deliver_shrinks rd_shrinks(2))
  have sub: "length bs' \<le> length bs" if "parse_subscribe_packet cb ct len ctx bs = Inr (st, evs, ctx', bs')"
    using that
    by (fastforce simp: parse_subscribe_packet_def Let_def bind_eq_Inr split: if_splits option.splits
        dest!: shrinks subscribe_loop_shrinks)
  have sack: "length bs' \<le> length bs" if "parse_suback_packet cb ct len ctx bs = Inr (st, evs, ctx', bs')"
    using that
    by (fastforce simp: parse_suback_packet_def Let_def bind_eq_Inr split: if_splits
        dest!: shrinks suback_loop_shrinks)
  have unsub: "length bs' \<le> length bs" if "parse_unsubscribe_packet cb ct len ctx bs = Inr (st, evs, ctx', bs')"
    using that
    by (fastforce simp: parse_unsubscribe_packet_def Let_def bind_eq_Inr split: if_splits
        dest!: shrinks unsubscribe_loop_shrinks)
  have ids: "length bs' \<le> length bs" if "parse_id_packet cb mk sends ctx bs = Inr (st, evs, ctx', bs')" for mk sends
    using that by (fastforce simp: parse_id_packet_def bind_eq_Inr dest!: shrinks)
  have cack: "length bs' \<le> length bs" if "parse_conn_ack_packet cb ct ctx bs = Inr (st, evs, ctx', bs')"
    using that by (fastforce simp: parse_conn_ack_packet_def bind_eq_Inr split: if_splits dest!: shrinks)
  have disc: "length bs' \<le> length bs" if "parse_disconnect_packet cb ct ctx bs = Inr (st, evs, ctx', bs')"
    using that by (fastforce simp: parse_disconnect_packet_def Let_def split: if_splits dest!: shrinks)
  show ?thesis
    using assms unfolding packet_parser_def
    by (auto simp: parse_pub_ack_packet_def parse_pubrec_packet_def parse_pub_rel_packet_def
        parse_pubcomp_packet_def parse_unsub_ack_packet_def parse_ping_req_packet_def
        parse_ping_resp_packet_def split: if_splits
        dest: parse_connect_shrinks(2) pub sub sack unsub ids cack disc shrinks)
qed

lemma parse_remain_length_shrinks:
  "parse_remain_length ctx bs = Inr (st, ctx', bs') \<Longrightarrow> length bs' < length bs"
proof (induction bs arbitrary: ctx)
  case (Cons b bs)
  then show ?case by (fastforce simp: Let_def split: if_splits)
qed simp

lemma decode_body_shrinks:
  "decode_body cb ct ctx bs = Inr (st, evs, ctx', bs') \<Longrightarrow> length bs' \<le> length bs"
  by (auto simp: decode_body_def bind_eq_Inr split: if_splits dest!: packet_parser_shrinks)

lemma decode_remain_shrinks:
  "decode_remain cb ct so ctx bs = Inr (st, evs, ctx', bs') \<Longrightarrow> length bs' \<le> length bs"
  by (fastforce simp: decode_remain_def bind_eq_Inr split: if_splits option.splits
      dest!: parse_remain_length_shrinks decode_body_shrinks)

lemma decode_fixed_shrinks:
  "decode_fixed cb ct ctx bs = Inr (st, evs, ctx', bs') \<Longrightarrow> length bs' < length bs"
  by (fastforce simp: decode_fixed_def rd_byte_def Let_def split: list.splits if_splits prod.splits
      dest!: decode_remain_shrinks)

lemma decode_pass_shrinks:
  assumes "decode_pass cb ct ctx bs = Inr (st, evs, ctx', bs')"
  shows "length bs' \<le> length bs"
    and "parse_state ctx = PARSING_FIXED_HEADER \<Longrightarrow> length bs' < length bs"
  using assms
  by (auto simp: decode_pass_def split: parsing_state.splits
      dest: decode_fixed_shrinks decode_remain_shrinks decode_body_shrinks)

function decode_tcp_message :: "callback \<Rightarrow> codec_type \<Rightarrow> conn_ctx \<Rightarrow> bytes \<Rightarrow>
    (codec_event list \<times> conn_ctx \<times> bytes) res" where
  "decode_tcp_message cb ct ctx bs =
     (case decode_pass cb ct ctx bs of
        Inl e \<Rightarrow> Inl e
      | Inr (st, evs, ctx', bs') \<Rightarrow>
          if st \<noteq> DECODE_OK \<and> st \<noteq> NEED_MORE_DATA then Inr (evs @ [Force_Close], ctx', bs')
          else if conn_state ctx' \<noteq> TUNNELED \<and> bs' \<noteq> [] \<and> parse_state ctx' = PARSING_FIXED_HEADER
          then bind (decode_tcp_message cb ct ctx' bs') (\<lambda>(evs', c, b). Inr (evs @ evs', c, b))
          else Inr (evs, ctx', bs'))"
  by pat_completeness auto
termination
  by (relation "measure (\<lambda>(_, _, ctx, bs).
        2 * length bs + (if parse_state ctx = PARSING_FIXED_HEADER then 0 else 1))")
     (auto dest: decode_pass_shrinks simp: less_Suc_eq_le)

declare decode_tcp_message.simps [simp del]

end
