(* ===== verification/Codec_Roundtrip.thy ===== *)
theory Codec_Roundtrip
  imports Encode Decode
begin

text \<open>
  The decoder against the wire format of theory \<open>Encode\<close>: what a peer's senders write is what the
  packet parsers deliver, in one piece or in any fragmentation of the byte stream, and the decoder
  keeps its place in the stream when a fragment ends in the middle of a packet.
\<close>

section \<open>The reading primitives are the buffer's\<close>

lemma rd16_buffer:
  assumes "buf_rep b bs"
  shows "map_sum id fst (rd16 bs) = fst (tmq_buffer_read16 b)"
    and "rd16 bs = Inr (v, bs') \<Longrightarrow> buf_rep (snd (tmq_buffer_read16 b)) bs'"
  using buf_rep_read16 [OF assms] by (auto simp: rd16_def split: if_splits)

lemma rd_byte_buffer:
  assumes "buf_rep b bs" and "rd_byte bs = Inr (v, bs')"
  shows "fst (tmq_buffer_read b 1) = [Some v]" "buf_rep (snd (tmq_buffer_read b 1)) bs'"
  using buf_rep_read [OF assms(1), of 1] assms(2) by (auto simp: rd_byte_def split: list.splits)

lemma rd_str_buffer:
  assumes "buf_rep b bs" and "rd_str n bs = (s, bs')"
  shows "fst (tmq_buffer_read b n) @ replicate (n - length bs) (Some 0) = map Some (bytes_of_str s)"
    and "buf_rep (snd (tmq_buffer_read b n)) bs'"
  using buf_rep_read [OF assms(1), of n] assms(2) by (auto simp: rd_str_def comp_def)

section \<open>Reading back what was written\<close>

lemma be_nat_be16_unat: "be_nat (be16 v) = unat v"
proof -
  have "unat v < 2 ^ LENGTH(16)" by (rule unsigned_less)
  then have "unat v div 256 < 256" by simp
  then have "unat (ucast (drop_bit 8 v) :: u8) * 256 + unat (ucast v :: u8) = unat v"
    by (simp add: unsigned_ucast_eq take_bit_eq_mod drop_bit_eq_div unat_div)
  then show ?thesis by (simp add: be16_def)
qed

lemma be_nat_be16: "of_nat (be_nat (be16 v)) = v"
  by (simp add: be_nat_be16_unat)

lemma rd16_be16 [simp]: "rd16 (be16 v @ bs) = Inr (v, bs)"
  using be_nat_be16 [of v] by (simp add: rd16_def be16_def numeral_2_eq_2)

lemma rd_str_bytes [simp]: "rd_str (length s) (bytes_of_str s @ bs) = (s, bs)"
  by (simp add: rd_str_def)

lemma rd_lstr_lstr [simp]: "length s < 65536 \<Longrightarrow> rd_lstr (lstr s @ bs) = Inr (s, bs)"
  by (simp add: rd_lstr_def lstr_def unat_of_nat_less)

lemma rd_byte_Cons [simp]: "rd_byte (b # bs) = Inr (b, bs)"
  by (simp add: rd_byte_def)

lemma nibble_15: "(15 :: u8) = mask 4"
  by (simp add: mask_eq_exp_minus_1)

lemma header_nibbles:
  fixes c f :: u8
  shows "drop_bit 4 (push_bit 4 c OR (f AND 0x0F)) AND 0x0F = c AND 0x0F"
    and "(push_bit 4 c OR (f AND 0x0F)) AND 0x0F = f AND 0x0F"
  unfolding nibble_15 by (rule bit_eqI; auto simp: bit_simps possible_bit_def)+

lemma low_seven: "n < 256 \<Longrightarrow> ucast ((of_nat n :: u8) AND 0x7F) = (of_nat (n mod 128) :: u32)"
proof -
  assume "n < 256"
  moreover have "(of_nat n :: u8) AND 0x7F = take_bit 7 (of_nat n)"
    by (simp add: take_bit_eq_mask mask_eq_exp_minus_1)
  moreover have "n mod 128 mod 4294967296 = n mod 128"
    by (rule mod_less) (rule less_trans [of _ 128]; simp)
  ultimately show ?thesis
    by (simp only: word_unat_eq_iff unsigned_ucast_eq unsigned_take_bit_eq)
       (simp add: take_bit_eq_mod unat_of_nat)
qed

lemma low_bytes:
  assumes "m < 128"
  shows "(of_nat m :: u8) AND 0x80 = 0" "(of_nat (128 + m) :: u8) AND 0x80 \<noteq> 0"
    "ucast ((of_nat m :: u8) AND 0x7F) = (of_nat m :: u32)"
    "ucast ((of_nat (128 + m) :: u8) AND 0x7F) = (of_nat m :: u32)"
proof -
  have nb: "\<not> bit (of_nat m :: u8) 7"
    using assms by (simp add: bit_of_nat_iff bit_iff_odd) (simp add: word_arith_nat_div unat_of_nat)
  show "(of_nat m :: u8) AND 0x80 = 0"
    by (rule bit_eqI) (use nb in \<open>auto simp del: bit_numeral_word_iff simp: bit_and_iff bit_80\<close>)
  have "bit ((of_nat (128 + m) :: u8) AND 0x80) 7"
    unfolding byte_or_80 [OF assms, symmetric] by (simp only: bit_and_iff bit_or_iff bit_80) simp
  then show "(of_nat (128 + m) :: u8) AND 0x80 \<noteq> 0" by auto
  show "ucast ((of_nat m :: u8) AND 0x7F) = (of_nat m :: u32)"
    "ucast ((of_nat (128 + m) :: u8) AND 0x7F) = (of_nat m :: u32)"
    using low_seven [of m] low_seven [of "128 + m"] assms by (simp_all del: of_nat_add)
qed

section \<open>The remaining length\<close>

lemma mult_small: "j \<le> 3 \<Longrightarrow> \<not> (128 ^ j :: u32) > 128 * 128 * 128"
proof -
  assume "j \<le> 3"
  then have "j = 0 \<or> j = 1 \<or> j = 2 \<or> j = 3" by auto
  then show ?thesis by auto
qed

lemma parse_len_bytes:
  assumes "multiplier ctx = 128 ^ j" and "j + length (len_bytes n) \<le> 4"
  shows "parse_remain_length ctx (len_bytes n @ rest) =
    Inr (DECODE_OK, ctx\<lparr>remain_length := remain_length ctx + of_nat n * 128 ^ j,
                        multiplier := 128 ^ (j + length (len_bytes n))\<rparr>, rest)"
  using assms
proof (induction n arbitrary: ctx j rule: len_bytes.induct)
  case (1 n)
  have j: "j \<le> 3" using "1.prems"(2) by (cases "len_bytes n") auto
  note m = mult_small [OF j]
  show ?case
  proof (cases "n < 128")
    case True
    then have "len_bytes n = [of_nat n]" by (subst len_bytes.simps) simp
    then show ?thesis
      using True "1.prems" m low_bytes [OF True] by (simp add: Let_def mult.commute)
  next
    case False
    let ?m = "n mod 128"
    have lb: "len_bytes n = of_nat (128 + ?m) # len_bytes (n div 128)"
      using False by (subst len_bytes.simps) simp
    define c where "c = ctx\<lparr>remain_length := remain_length ctx + of_nat ?m * 128 ^ j,
                            multiplier := 128 ^ Suc j\<rparr>"
    have "parse_remain_length ctx (len_bytes n @ rest) = parse_remain_length c (len_bytes (n div 128) @ rest)"
      using m "1.prems"(1) low_bytes [of ?m]
      unfolding lb by (simp add: Let_def c_def mult.commute del: of_nat_add)
    also have "\<dots> = Inr (DECODE_OK, c\<lparr>remain_length := remain_length c + of_nat (n div 128) * 128 ^ Suc j,
        multiplier := 128 ^ (Suc j + length (len_bytes (n div 128)))\<rparr>, rest)"
      using "1.IH" [OF False, of c "Suc j"] "1.prems"(2) lb by (simp add: c_def)
    also have "remain_length c + of_nat (n div 128) * 128 ^ Suc j = remain_length ctx + of_nat n * 128 ^ j"
    proof -
      have "(of_nat n :: u32) = of_nat ?m + 128 * of_nat (n div 128)"
        by (metis mod_mult_div_eq of_nat_add of_nat_mult of_nat_numeral)
      then show ?thesis by (simp add: c_def algebra_simps)
    qed
    finally show ?thesis by (simp add: c_def lb)
  qed
qed

text \<open>When the bytes of the length run out, the parsing context remembers where to go on.\<close>

lemma parse_remain_more:
  "parse_remain_length ctx bs = Inr (NEED_MORE_DATA, ctx', bs') \<Longrightarrow>
   bs' = [] \<and> parse_state ctx' = parse_state ctx \<and>
   (v \<noteq> [] \<longrightarrow> parse_remain_length ctx (bs @ v) = parse_remain_length ctx' v)"
proof (induction bs arbitrary: ctx)
  case (Cons b bs)
  show ?case
  proof (cases "bs = []")
    case True
    then show ?thesis using Cons.prems by (auto simp: Let_def split: if_splits)
  next
    case False
    then show ?thesis using Cons by (fastforce simp: Let_def split: if_splits)
  qed
qed simp

lemma parse_len_prefix:
  assumes "multiplier ctx = 128 ^ j" and "j + length (len_bytes n) \<le> 4"
    and "len_bytes n = w @ u" and "w \<noteq> []" and "u \<noteq> []"
  shows "\<exists>ctx'. parse_remain_length ctx w = Inr (NEED_MORE_DATA, ctx', [])"
  using assms
proof (induction n arbitrary: ctx j w rule: len_bytes.induct)
  case (1 n)
  have "0 < length (len_bytes n)" by simp
  then have j: "j \<le> 3" using "1.prems"(2) by linarith
  note m = mult_small [OF j]
  show ?case
  proof (cases "n < 128")
    case True
    then have "len_bytes n = [of_nat n]" by (subst len_bytes.simps) simp
    then show ?thesis using "1.prems"(3-5) by (cases w) auto
  next
    case False
    let ?m = "n mod 128"
    have lb: "len_bytes n = of_nat (128 + ?m) # len_bytes (n div 128)"
      using False by (subst len_bytes.simps) simp
    then obtain w' where w: "w = of_nat (128 + ?m) # w'" "len_bytes (n div 128) = w' @ u"
      using "1.prems"(3,4) by (cases w) auto
    show ?thesis
    proof (cases "w' = []")
      case True
      then show ?thesis using w m "1.prems"(1) low_bytes [of ?m] by (simp add: Let_def del: of_nat_add)
    next
      case False
      define c where "c = ctx\<lparr>remain_length := remain_length ctx + of_nat ?m * 128 ^ j,
                              multiplier := 128 ^ Suc j\<rparr>"
      have "parse_remain_length ctx w = parse_remain_length c w'"
        using m "1.prems"(1) low_bytes [of ?m] False
        unfolding w by (simp add: Let_def c_def mult.commute del: of_nat_add)
      then show ?thesis
        using "1.IH" [OF \<open>\<not> n < 128\<close>, of c "Suc j" w'] "1.prems"(2,5) lb w(2) False
        by (simp add: c_def)
    qed
  qed
qed

section \<open>Parsing a packet body\<close>

fun session_packet :: "codec_type \<Rightarrow> any_packet \<Rightarrow> bool" where
  "session_packet ct (PUBLISH p) \<longleftrightarrow>
     length (topic p) < 65536 \<and> pub_flags p AND 0x0F = pub_flags p \<and>
     (PUBLISH_QOS (pub_flags p) = 0 \<longrightarrow> packet_id p = 0)"
| "session_packet ct (PUBACK _) \<longleftrightarrow> True"
| "session_packet ct (PUBREC _) \<longleftrightarrow> True"
| "session_packet ct (PUBREL _) \<longleftrightarrow> True"
| "session_packet ct (PUBCOMP _) \<longleftrightarrow> True"
| "session_packet ct (SUBSCRIBE p) \<longleftrightarrow>
     ct = SERVER_CODEC \<and>
     (\<forall>tf\<in>set (sub_topics p). length (topic_filter tf) < 65536 \<and> tf_qos tf \<le> 2)"
| "session_packet ct (SUBACK _) \<longleftrightarrow> ct = CLIENT_CODEC"
| "session_packet ct (UNSUBSCRIBE p) \<longleftrightarrow>
     ct = SERVER_CODEC \<and> (\<forall>t\<in>set (unsub_topics p). length t < 65536)"
| "session_packet ct (UNSUBACK _) \<longleftrightarrow> ct = CLIENT_CODEC"
| "session_packet ct PINGREQ \<longleftrightarrow> ct = SERVER_CODEC"
| "session_packet ct PINGRESP \<longleftrightarrow> ct = CLIENT_CODEC"
| "session_packet ct _ \<longleftrightarrow> False"

text \<open>The acknowledgements the decoder itself sends before it hands a packet to the session.\<close>

fun packet_acks :: "any_packet \<Rightarrow> codec_event list" where
  "packet_acks (PUBLISH p) = publish_acks p"
| "packet_acks (PUBREL i) = [Send (PUBCOMP i)]"
| "packet_acks PINGREQ = [Send PINGRESP]"
| "packet_acks _ = []"

abbreviation packet_events :: "any_packet \<Rightarrow> codec_event list" where
  "packet_events p \<equiv> packet_acks p @ [Deliver p]"

lemma of_nat_pos_u32: "0 < n \<Longrightarrow> n < 2 ^ 32 \<Longrightarrow> (of_nat n :: u32) > 0"
  by (simp add: word_less_nat_alt unat_of_nat_less)

lemma u16_length:
  assumes "n < 65536"
  shows "unat (of_nat n :: u16) = n" and "(ucast (of_nat n :: u16) :: u32) = of_nat n"
proof -
  show u: "unat (of_nat n :: u16) = n" using assms by (simp add: unat_of_nat_less)
  then show "(ucast (of_nat n :: u16) :: u32) = of_nat n" by (metis of_nat_unat ucast_eq)
qed

lemma rd_filter_bytes:
  assumes "length (topic_filter tf) < 65536"
  shows "rd_filter (lstr (topic_filter tf) @ tf_qos tf # bs) =
    Inr (topic_filter tf, tf_qos tf, of_nat (length (lstr (topic_filter tf)) + 1), bs)"
  using u16_length [OF assms] by (simp add: rd_filter_def lstr_def)

lemma subscribe_loop_bytes:
  assumes "\<forall>tf\<in>set tfs. length (topic_filter tf) < 65536 \<and> tf_qos tf \<le> 2"
    and "length (filter_bytes tfs) < 2 ^ 32"
  shows "subscribe_loop (of_nat (length (filter_bytes tfs))) (filter_bytes tfs @ rest) = Inr (Some tfs, rest)"
  using assms
proof (induction tfs)
  case Nil
  show ?case by (subst subscribe_loop.simps) simp
next
  case (Cons tf tfs)
  let ?l = "length (filter_bytes (tf # tfs))" and ?k = "length (lstr (topic_filter tf)) + 1"
  have pos: "(of_nat ?l :: u32) > 0" using Cons.prems(2) by (intro of_nat_pos_u32) auto
  have sub: "(of_nat ?l :: u32) - of_nat ?k = of_nat (length (filter_bytes tfs))" by simp
  have f: "rd_filter (filter_bytes (tf # tfs) @ rest) =
      Inr (topic_filter tf, tf_qos tf, of_nat ?k, filter_bytes tfs @ rest)"
    using rd_filter_bytes [of tf "filter_bytes tfs @ rest"] Cons.prems(1) by simp
  have q: "\<not> tf_qos tf > 2" using Cons.prems(1) by (simp add: not_less)
  have IH: "subscribe_loop (of_nat (length (filter_bytes tfs))) (filter_bytes tfs @ rest) = Inr (Some tfs, rest)"
    using Cons by simp
  have "\<lparr>topic_filter = topic_filter tf, tf_qos = tf_qos tf\<rparr> = tf" by simp
  then show ?case
    by (subst subscribe_loop.simps) (simp only: pos f sum.case prod.case q if_True if_False sub IH bind_simps,
        simp)
qed

lemma suback_loop_bytes:
  "length cs < 2 ^ 32 \<Longrightarrow> suback_loop (of_nat (length cs)) (cs @ rest) = Inr (cs, rest)"
proof (induction cs)
  case Nil
  show ?case by (cases rest) simp_all
next
  case (Cons c cs)
  have pos: "(of_nat (length (c # cs)) :: u32) > 0" using Cons.prems by (intro of_nat_pos_u32) auto
  have "(of_nat (length (c # cs)) :: u32) - 1 = of_nat (length cs)" by simp
  then show ?case using Cons pos by simp
qed

lemma unsubscribe_loop_bytes:
  assumes "\<forall>t\<in>set ts. length t < 65536" and "length (concat (map lstr ts)) < 2 ^ 32"
  shows "unsubscribe_loop (of_nat (length (concat (map lstr ts)))) (concat (map lstr ts) @ rest) = Inr (ts, rest)"
  using assms
proof (induction ts)
  case Nil
  show ?case by (subst unsubscribe_loop.simps) simp
next
  case (Cons t ts)
  let ?l = "length (concat (map lstr (t # ts)))" and ?n = "of_nat (length t) :: u16"
  have pos: "(of_nat ?l :: u32) > 0" using Cons.prems(2) by (intro of_nat_pos_u32) auto
  have u: "unat ?n = length t" and uc: "(ucast ?n :: u32) = of_nat (length t)"
    using Cons.prems(1) by (simp_all add: u16_length)
  have sub: "(of_nat ?l :: u32) - (2 + ucast ?n) = of_nat (length (concat (map lstr ts)))"
    unfolding uc by simp
  have r: "rd16 (concat (map lstr (t # ts)) @ rest) =
      Inr (?n, bytes_of_str t @ concat (map lstr ts) @ rest)" by (simp add: lstr_def)
  have IH: "unsubscribe_loop (of_nat (length (concat (map lstr ts)))) (concat (map lstr ts) @ rest) = Inr (ts, rest)"
    using Cons by simp
  show ?case
    by (subst unsubscribe_loop.simps)
       (simp only: pos r sum.case prod.case if_True sub u rd_str_bytes fst_conv snd_conv IH bind_simps)
qed

text \<open>A connection in a session, and callbacks that leave it there.\<close>

definition in_session :: "conn_ctx \<Rightarrow> bool" where
  "in_session c \<longleftrightarrow> upstream c = Up_Session \<and> conn_state c = IN_SESSION"

definition keeps_session :: "callback \<Rightarrow> bool" where
  "keeps_session cb \<longleftrightarrow> (\<forall>p. cb p (Up_Session, IN_SESSION) = (Up_Session, IN_SESSION))"

lemma deliver_session:
  "in_session c \<Longrightarrow> keeps_session cb \<Longrightarrow>
   deliver cb Up_Session p sent c bs = Inr (DECODE_OK, sent @ [Deliver p], c, bs)"
  by (simp add: deliver_def in_session_def keeps_session_def)

lemma publish_payload:
  assumes "length (packet_body (PUBLISH p)) < 2 ^ 32" and "length (topic p) < 65536"
  shows "publish_payload_len (of_nat (length (packet_body (PUBLISH p)))) (of_nat (length (topic p))) (pub_flags p)
    = int (length (payload p))"
proof -
  let ?q = "PUBLISH_QOS (pub_flags p)" and ?t = "length (topic p)" and ?pl = "length (payload p)"
  note uc = u16_length(2) [OF assms(2)]
  have len: "length (packet_body (PUBLISH p)) = ?t + ?pl + 2 + (if ?q = 0 then 0 else 2)"
    by (auto simp: word_neq_0_conv)
  have "(of_nat (length (packet_body (PUBLISH p))) - 2 - ucast (of_nat ?t :: u16) :: u32)
      = of_nat (?pl + (if ?q = 0 then 0 else 2))"
    unfolding uc len by simp
  moreover have "uint (of_nat (?pl + (if ?q = 0 then 0 else 2)) :: u32) = int (?pl + (if ?q = 0 then 0 else 2))"
    using assms(1) len by (simp add: uint_nat unat_of_nat_less del: of_nat_add)
  ultimately show ?thesis
    unfolding publish_payload_len_def by (simp only: split: if_split) simp
qed

lemma parse_body:
  assumes c: "in_session c" "keeps_session cb" and s: "session_packet ct p"
    and l: "length (packet_body p) < MAX_REMAIN"
    and f: "FLAGS c = packet_flags p AND 0x0F"
  shows "packet_parser cb ct (unat (packet_type_code (any_packet_type p)))
      (of_nat (length (packet_body p))) c (packet_body p @ rest)
    = Inr (DECODE_OK, packet_events p, c, rest)"
proof (cases p)
  case (PUBLISH q)
  have fl: "FLAGS c = pub_flags q" using f s PUBLISH by simp
  have tl: "length (topic q) < 65536" using s PUBLISH by simp
  have pl: "publish_payload_len (of_nat (length (packet_body (PUBLISH q)))) (of_nat (length (topic q))) (pub_flags q)
      = int (length (payload q))"
    by (rule publish_payload) (use l tl PUBLISH in \<open>simp_all del: packet_body.simps\<close>)
  define L :: u32 where "L = of_nat (length (packet_body (PUBLISH q)))"
  have "parse_publish_packet cb ct L c (packet_body (PUBLISH q) @ rest)
      = Inr (DECODE_OK, packet_events (PUBLISH q), c, rest)"
    using s PUBLISH c pl unfolding L_def [symmetric] parse_publish_packet_def Let_def
    by (auto simp: lstr_def fl u16_length deliver_session in_session_def word_neq_0_conv
        publish_acks_def)
  then show ?thesis using PUBLISH by (simp add: packet_parser_def L_def)
next
  case (SUBSCRIBE q)
  have "length (filter_bytes (sub_topics q)) < 2 ^ 32" using l SUBSCRIBE by simp
  then show ?thesis
    using s c subscribe_loop_bytes [of "sub_topics q" rest] SUBSCRIBE
    by (simp add: packet_parser_def parse_subscribe_packet_def deliver_session)
next
  case (SUBACK q)
  have "length (return_codes q) < 2 ^ 32" using l SUBACK by simp
  then show ?thesis
    using s c suback_loop_bytes [of "return_codes q" rest] SUBACK
    by (simp add: packet_parser_def parse_suback_packet_def deliver_session)
next
  case (UNSUBSCRIBE q)
  have "length (concat (map lstr (unsub_topics q))) < 2 ^ 32" using l UNSUBSCRIBE by simp
  then show ?thesis
    using s c unsubscribe_loop_bytes [of "unsub_topics q" rest] UNSUBSCRIBE
    by (simp add: packet_parser_def parse_unsubscribe_packet_def deliver_session)
qed (use s c in \<open>simp_all add: packet_parser_def deliver_session parse_id_packet_def
      parse_pub_ack_packet_def parse_pubrec_packet_def parse_pub_rel_packet_def
      parse_pubcomp_packet_def parse_unsub_ack_packet_def parse_ping_req_packet_def
      parse_ping_resp_packet_def\<close>)

section \<open>Decoding a whole packet\<close>

definition ready :: "conn_ctx \<Rightarrow> bool" where
  "ready c \<longleftrightarrow> in_session c \<and> parse_state c = PARSING_FIXED_HEADER"

text \<open>The packets a session accepts, with a remaining length the protocol can express.\<close>

definition acceptable :: "codec_type \<Rightarrow> any_packet \<Rightarrow> bool" where
  "acceptable ct p \<longleftrightarrow> session_packet ct p \<and> length (packet_body p) < MAX_REMAIN"

definition header_ctx :: "conn_ctx \<Rightarrow> any_packet \<Rightarrow> conn_ctx" where
  "header_ctx c p = c\<lparr>type_flags := header_byte p, remain_length := 0, multiplier := 1,
                      parse_state := PARSING_REMAIN_LENGTH\<rparr>"

lemma type_code_cases:
  "packet_type_code ty AND 0x0F = packet_type_code ty"
  "packet_type_code ty \<noteq> 0" "packet_type_code ty \<le> 14"
  by (cases ty; simp)+

lemma header_byte_nibbles:
  "drop_bit 4 (header_byte p) AND 0x0F = packet_type_code (any_packet_type p)"
  "header_byte p AND 0x0F = packet_flags p AND 0x0F"
  unfolding header_byte_def header_nibbles type_code_cases by (rule refl)+

lemma header_ctx_fields:
  "PACKET_TYPE (header_ctx c p) = unat (packet_type_code (any_packet_type p))"
  "FLAGS (header_ctx c p) = packet_flags p AND 0x0F"
  by (simp_all add: PACKET_TYPE_def FLAGS_def header_ctx_def header_byte_nibbles)

lemma parse_fix_header_ok: "parse_fix_header c (header_byte p) = (DECODE_OK, header_ctx c p)"
  using type_code_cases(2,3) [of "any_packet_type p"]
  by (simp add: parse_fix_header_def header_ctx_def header_byte_nibbles Let_def not_less)

lemma validate_flags_ok: "session_packet ct p \<Longrightarrow> validate_flags (header_ctx c p) = DECODE_OK"
  by (cases p) (auto simp: validate_flags_def header_ctx_fields Let_def)

lemma decode_fixed_header:
  assumes "ready c" and "session_packet ct p"
  shows "decode_fixed cb ct c (header_byte p # bs) = decode_remain cb ct (Some DECODE_OK) (header_ctx c p) bs"
proof -
  have "conn_state (header_ctx c p) = IN_SESSION"
    using assms(1) by (simp add: ready_def in_session_def header_ctx_def)
  then show ?thesis
    using validate_flags_ok [OF assms(2)] by (simp add: decode_fixed_def parse_fix_header_ok)
qed

text \<open>The context once the length has been read.\<close>

definition body_ctx :: "conn_ctx \<Rightarrow> any_packet \<Rightarrow> conn_ctx" where
  "body_ctx c p = (header_ctx c p)\<lparr>remain_length := of_nat (length (packet_body p)),
      multiplier := 128 ^ length (len_bytes (length (packet_body p))), parse_state := PARSING_BODY\<rparr>"

lemma decode_remain_len:
  assumes "length (packet_body p) < MAX_REMAIN"
  shows "decode_remain cb ct st (header_ctx c p) (len_bytes (length (packet_body p)) @ bs)
    = decode_body cb ct (body_ctx c p) bs"
proof -
  have "length (len_bytes (length (packet_body p))) \<le> 4"
    using assms by (rule len_bytes_le4)
  then show ?thesis
    using parse_len_bytes [of "header_ctx c p" 0 "length (packet_body p)" bs]
    by (simp add: decode_remain_def body_ctx_def) (simp add: header_ctx_def)
qed

lemma body_ctx_session: "ready c \<Longrightarrow> in_session (body_ctx c p)"
  by (simp add: ready_def in_session_def body_ctx_def header_ctx_def)

lemma decode_body_ok:
  assumes "ready c" and "keeps_session cb" and "acceptable ct p"
  shows "decode_body cb ct (body_ctx c p) (packet_body p @ rest)
    = Inr (DECODE_OK, packet_events p, (body_ctx c p)\<lparr>parse_state := PARSING_FIXED_HEADER\<rparr>, rest)"
proof -
  have f: "FLAGS (body_ctx c p) = packet_flags p AND 0x0F"
    and ty: "PACKET_TYPE (body_ctx c p) = unat (packet_type_code (any_packet_type p))"
    using header_ctx_fields [of c p] by (simp_all add: body_ctx_def FLAGS_def PACKET_TYPE_def)
  have s: "session_packet ct p" and l: "length (packet_body p) < MAX_REMAIN"
    using assms(3) by (simp_all add: acceptable_def)
  have r: "remain_length (body_ctx c p) = of_nat (length (packet_body p))" by (simp add: body_ctx_def)
  show ?thesis
    using parse_body [OF body_ctx_session [OF assms(1)] assms(2) s l f]
    by (simp add: decode_body_def r ty remain_unat [OF l])
qed

lemma decode_pass_packet:
  assumes "ready c" and "keeps_session cb" and "acceptable ct p"
  shows "decode_pass cb ct c (packet_bytes p @ rest)
    = Inr (DECODE_OK, packet_events p, (body_ctx c p)\<lparr>parse_state := PARSING_FIXED_HEADER\<rparr>, rest)"
  using assms decode_fixed_header [OF assms(1), of ct p cb] decode_remain_len [of p cb ct]
    decode_body_ok [OF assms]
  by (simp add: decode_pass_def ready_def packet_bytes_def acceptable_def)

lemma ready_after: "ready c \<Longrightarrow> ready ((body_ctx c p)\<lparr>parse_state := PARSING_FIXED_HEADER\<rparr>)"
  by (simp add: ready_def in_session_def body_ctx_def header_ctx_def)

lemma decode_packet:
  assumes "ready c" and "keeps_session cb" and "acceptable ct p"
  shows "\<exists>c'. ready c' \<and> decode_tcp_message cb ct c (packet_bytes p @ rest) =
    (if rest = [] then Inr (packet_events p, c', [])
     else bind (decode_tcp_message cb ct c' rest) (\<lambda>(evs, c, b). Inr (packet_events p @ evs, c, b)))"
proof -
  let ?c = "(body_ctx c p)\<lparr>parse_state := PARSING_FIXED_HEADER\<rparr>"
  have "ready ?c" by (rule ready_after [OF assms(1)])
  moreover have "decode_tcp_message cb ct c (packet_bytes p @ rest) =
    (if rest = [] then Inr (packet_events p, ?c, [])
     else bind (decode_tcp_message cb ct ?c rest) (\<lambda>(evs, c, b). Inr (packet_events p @ evs, c, b)))"
    using \<open>ready ?c\<close>
    by (subst decode_tcp_message.simps)
       (simp add: decode_pass_packet [OF assms] ready_def in_session_def)
  ultimately show ?thesis by blast
qed

section \<open>A fragment that ends inside a packet\<close>

lemma decode_same_pass:
  "decode_pass cb ct c1 b1 = decode_pass cb ct c2 b2 \<Longrightarrow>
   decode_tcp_message cb ct c1 b1 = decode_tcp_message cb ct c2 b2"
  by (subst (1 2) decode_tcp_message.simps) simp

text \<open>
  \<open>resumes c b w\<close>: the decoder with context \<open>c\<close> and unread bytes \<open>b\<close> goes on, when more arrives,
  as a decoder would that got the bytes \<open>w\<close> again from the start of the packet.
\<close>

definition resumes :: "callback \<Rightarrow> codec_type \<Rightarrow> conn_ctx \<Rightarrow> bytes \<Rightarrow> bytes \<Rightarrow> bool" where
  "resumes cb ct c b w \<longleftrightarrow>
     (\<exists>c0. ready c0 \<and>
        (\<forall>v. v \<noteq> [] \<longrightarrow> decode_tcp_message cb ct c (b @ v) = decode_tcp_message cb ct c0 (w @ v)))"

lemma decode_waits:
  assumes r: "ready c" and a: "acceptable ct p" and w: "packet_bytes p = w @ u" "w \<noteq> []" "u \<noteq> []"
  shows "\<exists>c' b. decode_tcp_message cb ct c w = Inr ([], c', b) \<and> resumes cb ct c' b w"
proof -
  let ?n = "length (packet_body p)"
  have s: "session_packet ct p" and l: "length (len_bytes ?n) \<le> 4" and L: "?n < MAX_REMAIN"
    using a len_bytes_le4 by (simp_all add: acceptable_def)
  obtain w1 where w1: "w = header_byte p # w1" "len_bytes ?n @ packet_body p = w1 @ u"
    using w by (cases w) (auto simp: packet_bytes_def)
  have cs: "conn_state (header_ctx c p) = IN_SESSION" "parse_state (header_ctx c p) = PARSING_REMAIN_LENGTH"
    using r by (auto simp: ready_def in_session_def header_ctx_def)
  have pf: "decode_pass cb ct c (w @ v) = decode_remain cb ct (Some DECODE_OK) (header_ctx c p) (w1 @ v)" for v
    using r decode_fixed_header [OF r s] by (simp add: decode_pass_def ready_def w1(1))
  have pf0: "decode_pass cb ct c w = decode_remain cb ct (Some DECODE_OK) (header_ctx c p) w1"
    using pf [of "[]"] by simp
  have "\<exists>st c' b. decode_pass cb ct c w = Inr (st, [], c', b) \<and> (st = DECODE_OK \<or> st = NEED_MORE_DATA) \<and>
      parse_state c' \<noteq> PARSING_FIXED_HEADER \<and>
      (\<forall>v. v \<noteq> [] \<longrightarrow> decode_pass cb ct c' (b @ v) = decode_pass cb ct c (w @ v))"
  proof (cases "w1 = []")
    case True
    then show ?thesis
      using cs unfolding pf pf0 by (simp add: decode_remain_def decode_pass_def)
  next
    case w1ne: False
    show ?thesis
    proof (cases "length w1 < length (len_bytes ?n)")
      case True
      then obtain u' where u': "len_bytes ?n = w1 @ u'" "u' \<noteq> []"
        using w1(2) True by (auto simp: append_eq_append_conv2)
      have "multiplier (header_ctx c p) = 128 ^ 0" by (simp add: header_ctx_def)
      then obtain c' where c': "parse_remain_length (header_ctx c p) w1 = Inr (NEED_MORE_DATA, c', [])"
        using parse_len_prefix [of "header_ctx c p" 0 ?n w1 u'] l u' w1ne by auto
      note more = parse_remain_more [OF c']
      have "decode_pass cb ct c w = Inr (NEED_MORE_DATA, [], c', [])"
        using c' w1ne by (simp add: pf0 decode_remain_def)
      moreover have "decode_pass cb ct c' ([] @ v) = decode_pass cb ct c (w @ v)" if "v \<noteq> []" for v
        using more [of v] cs(2) w1ne that
        unfolding pf by (simp add: decode_pass_def decode_remain_def)
      ultimately show ?thesis using more cs(2) by auto
    next
      case False
      then obtain b where b: "w1 = len_bytes ?n @ b" "packet_body p = b @ u"
        using w1(2) False by (auto simp: append_eq_append_conv2)
      have pb: "decode_pass cb ct c (w @ v) = decode_body cb ct (body_ctx c p) (b @ v)" for v
        using decode_remain_len [OF L] by (simp add: pf b)
      have "length b < ?n" using b(2) w(3) by simp
      then have "decode_body cb ct (body_ctx c p) b = Inr (NEED_MORE_DATA, [], body_ctx c p, b)"
        using remain_unat [OF L] by (simp add: decode_body_def) (simp add: body_ctx_def)
      moreover have "parse_state (body_ctx c p) = PARSING_BODY" by (simp add: body_ctx_def)
      moreover from this have "decode_pass cb ct (body_ctx c p) (b @ v) = decode_pass cb ct c (w @ v)" for v
        unfolding pb by (simp add: decode_pass_def)
      ultimately show ?thesis using pb [of "[]"] by auto
    qed
  qed
  then obtain st c' b where p: "decode_pass cb ct c w = Inr (st, [], c', b)"
      "st = DECODE_OK \<or> st = NEED_MORE_DATA" "parse_state c' \<noteq> PARSING_FIXED_HEADER"
      "\<And>v. v \<noteq> [] \<Longrightarrow> decode_pass cb ct c' (b @ v) = decode_pass cb ct c (w @ v)"
    by blast
  have "decode_tcp_message cb ct c w = Inr ([], c', b)"
    using p(1-3) by (subst decode_tcp_message.simps) auto
  moreover have "resumes cb ct c' b w"
    using r decode_same_pass [OF p(4)] by (auto simp: resumes_def)
  ultimately show ?thesis by blast
qed

section \<open>Streams of packets in fragments\<close>

abbreviation stream_bytes :: "any_packet list \<Rightarrow> bytes" where
  "stream_bytes ps \<equiv> concat (map packet_bytes ps)"

abbreviation stream_events :: "any_packet list \<Rightarrow> codec_event list" where
  "stream_events ps \<equiv> concat (map packet_events ps)"

text \<open>\<open>partial w rs\<close>: the unfinished bytes \<open>w\<close> are less than the first packet of \<open>rs\<close>.\<close>

definition partial :: "bytes \<Rightarrow> any_packet list \<Rightarrow> bool" where
  "partial w rs \<longleftrightarrow> w = [] \<or> (\<exists>p rs'. rs = p # rs' \<and> length w < length (packet_bytes p))"

lemma resumes_ready: "ready c \<Longrightarrow> resumes cb ct c [] []"
  by (auto simp: resumes_def)

lemma decode_prefix:
  assumes k: "keeps_session cb" and "ready c" and "x \<noteq> []" and "x @ y = stream_bytes ps"
    and "\<forall>p\<in>set ps. acceptable ct p"
  shows "\<exists>qs rs c' b w. ps = qs @ rs \<and> w @ y = stream_bytes rs \<and>
     decode_tcp_message cb ct c x = Inr (stream_events qs, c', b) \<and>
     resumes cb ct c' b w \<and> partial w rs \<and> (w = [] \<longrightarrow> ready c' \<and> b = [])"
  using assms(2-)
proof (induction ps arbitrary: c x)
  case (Cons p ps)
  have a: "acceptable ct p" using Cons.prems(4) by simp
  have st: "x @ y = packet_bytes p @ stream_bytes ps" using Cons.prems(3) by simp
  show ?case
  proof (cases "length x < length (packet_bytes p)")
    case True
    then have "\<exists>u. packet_bytes p = x @ u"
      using st by (auto simp: append_eq_append_conv2 intro: sym)
    then obtain u where u: "packet_bytes p = x @ u" "u \<noteq> []" using True by auto
    obtain c' b where "decode_tcp_message cb ct c x = Inr ([], c', b)" "resumes cb ct c' b x"
      using decode_waits [OF Cons.prems(1) a u(1) Cons.prems(2) u(2)] by blast
    moreover have "partial x (p # ps)" using True by (simp add: partial_def)
    ultimately show ?thesis
      using Cons.prems(2) st
      by (intro exI [of _ "[]"] exI [of _ "p # ps"] exI [of _ c'] exI [of _ b] exI [of _ x]) simp
  next
    case False
    then have "take (length (packet_bytes p)) x = packet_bytes p"
      using arg_cong [OF st, of "take (length (packet_bytes p))"] by simp
    then obtain x' where x': "x = packet_bytes p @ x'" by (metis append_take_drop_id)
    then have x'y: "x' @ y = stream_bytes ps" using st by simp
    obtain c1 where c1: "ready c1" "decode_tcp_message cb ct c x =
        (if x' = [] then Inr (packet_events p, c1, [])
         else bind (decode_tcp_message cb ct c1 x') (\<lambda>(evs, c, b). Inr (packet_events p @ evs, c, b)))"
      using decode_packet [OF Cons.prems(1) k a, of x'] x' by auto
    show ?thesis
    proof (cases "x' = []")
      case True
      then show ?thesis
        using c1 x' x'y resumes_ready [OF c1(1)]
        by (intro exI [of _ "[p]"] exI [of _ ps] exI [of _ c1] exI [of _ "[]"] exI [of _ "[]"])
           (simp add: partial_def)
    next
      case False
      obtain qs rs c' b w where "ps = qs @ rs" "w @ y = stream_bytes rs"
          "decode_tcp_message cb ct c1 x' = Inr (stream_events qs, c', b)"
          "resumes cb ct c' b w" "partial w rs" "w = [] \<longrightarrow> ready c' \<and> b = []"
        using Cons.IH [OF c1(1) False x'y] Cons.prems(4) by auto
      then show ?thesis
        using c1(2) False
        by (intro exI [of _ "p # qs"] exI [of _ rs] exI [of _ c'] exI [of _ b] exI [of _ w]) simp
    qed
  qed
qed simp

text \<open>
  The connection's read handler: each fragment is appended to the bytes still in the buffer and the
  decoder runs.
\<close>

fun feed :: "callback \<Rightarrow> codec_type \<Rightarrow> conn_ctx \<Rightarrow> bytes \<Rightarrow> bytes list \<Rightarrow>
    (codec_event list \<times> conn_ctx \<times> bytes) res" where
  "feed cb ct c b [] = Inr ([], c, b)"
| "feed cb ct c b (f # fs) =
     bind (decode_tcp_message cb ct c (b @ f)) (\<lambda>(evs, c, b).
     bind (feed cb ct c b fs) (\<lambda>(evs', c, b). Inr (evs @ evs', c, b)))"

lemma feed_stream:
  assumes k: "keeps_session cb" and "resumes cb ct c b w" and "partial w ps"
    and "w = [] \<longrightarrow> ready c \<and> b = []"
    and "w @ concat fs = stream_bytes ps" and "\<forall>p\<in>set ps. acceptable ct p" and "[] \<notin> set fs"
  shows "\<exists>c'. feed cb ct c b fs = Inr (stream_events ps, c', []) \<and> ready c'"
  using assms(2-)
proof (induction fs arbitrary: c b w ps)
  case Nil
  have "ps = []"
  proof (cases ps)
    case (Cons p ps')
    then have "length w \<ge> length (packet_bytes p)" using Nil.prems(4) by simp
    moreover have "packet_bytes p \<noteq> []" by (simp add: packet_bytes_def)
    ultimately show ?thesis using Nil.prems(2) Cons by (auto simp: partial_def)
  qed simp
  then show ?case using Nil.prems(3,4) by simp
next
  case (Cons f fs)
  obtain c0 where c0: "ready c0" "\<And>v. v \<noteq> [] \<Longrightarrow> decode_tcp_message cb ct c (b @ v) = decode_tcp_message cb ct c0 (w @ v)"
    using Cons.prems(1) by (auto simp: resumes_def)
  have f: "f \<noteq> []" using Cons.prems(6) by auto
  obtain qs rs c' b' w' where d: "ps = qs @ rs" "w' @ concat fs = stream_bytes rs"
      "decode_tcp_message cb ct c0 (w @ f) = Inr (stream_events qs, c', b')"
      "resumes cb ct c' b' w'" "partial w' rs" "w' = [] \<longrightarrow> ready c' \<and> b' = []"
    using decode_prefix [OF k c0(1), of "w @ f" "concat fs" ps ct] f Cons.prems(4,5) by auto
  obtain c'' where "feed cb ct c' b' fs = Inr (stream_events rs, c'', [])" "ready c''"
    using Cons.IH [OF d(4-6,2)] Cons.prems(5,6) d(1) by auto
  then show ?case using c0(2) [OF f] d(1,3) by simp
qed

section \<open>Opening a connection\<close>

definition acceptable_connect :: "connect_pkt \<Rightarrow> bool" where
  "acceptable_connect p \<longleftrightarrow>
     \<not> CONNECT_RESERVED (conn_flags p) \<and> CONNECT_WILL_QOS (conn_flags p) \<le> 2 \<and>
     (CONNECT_WILL_FLAG (conn_flags p) \<or> CONNECT_WILL_QOS (conn_flags p) = 0) \<and>
     (client_id p = None \<longrightarrow> CONNECT_CLEAN_SESSION (conn_flags p)) \<and> client_id p \<noteq> Some [] \<and>
     opt_str (client_id p \<noteq> None) (client_id p) \<and>
     (will_topic p \<noteq> None) = CONNECT_WILL_FLAG (conn_flags p) \<and>
     (will_message p \<noteq> None) = CONNECT_WILL_FLAG (conn_flags p) \<and>
     (username p \<noteq> None) = CONNECT_USERNAME_FLAG (conn_flags p) \<and>
     (password p \<noteq> None) = CONNECT_PASSWORD_FLAG (conn_flags p) \<and>
     opt_str (CONNECT_WILL_FLAG (conn_flags p)) (will_topic p) \<and>
     opt_str (CONNECT_WILL_FLAG (conn_flags p)) (will_message p) \<and>
     opt_str (CONNECT_USERNAME_FLAG (conn_flags p)) (username p) \<and>
     opt_str (CONNECT_PASSWORD_FLAG (conn_flags p)) (password p)"

lemma rd_lstr_if_bytes:
  "opt_str c s \<Longrightarrow> (s \<noteq> None) = c \<Longrightarrow> rd_lstr_if c (lstr_if c s @ bs) = Inr (s, bs)"
  by (auto simp: rd_lstr_if_def lstr_if_def opt_str_def c_str_def split: option.splits)

lemma parse_connect_body:
  assumes a: "acceptable_connect p"
  shows "parse_connect_packet cb SERVER_CODEC c (packet_body (CONNECT p) @ rest) =
    deliver cb Up_Broker (CONNECT p) [] (c\<lparr>conn_state := STARTING_SESSION\<rparr>) rest"
proof -
  let ?cid = "case client_id p of Some s \<Rightarrow> s | None \<Rightarrow> []" and ?f = "conn_flags p"
  let ?opts = "lstr_if (CONNECT_WILL_FLAG ?f) (will_topic p) @ lstr_if (CONNECT_WILL_FLAG ?f) (will_message p)
     @ lstr_if (CONNECT_USERNAME_FLAG ?f) (username p) @ lstr_if (CONNECT_PASSWORD_FLAG ?f) (password p) @ rest"
  have cl: "length ?cid < 65536"
    using a by (auto simp: acceptable_connect_def opt_str_def c_str_def split: option.splits)
  have z: "(of_nat (length ?cid) :: u16) = 0 \<longleftrightarrow> client_id p = None"
    using cl a u16_length(1) [OF cl]
    by (auto simp: acceptable_connect_def word_unat_eq_iff split: option.splits)
  have len: "unat (of_nat (length ?cid) :: u16) = length ?cid" by (rule u16_length(1) [OF cl])
  have opts:
    "rd_lstr_if (CONNECT_WILL_FLAG ?f) (lstr_if (CONNECT_WILL_FLAG ?f) (will_topic p) @ bs) = Inr (will_topic p, bs)"
    "rd_lstr_if (CONNECT_WILL_FLAG ?f) (lstr_if (CONNECT_WILL_FLAG ?f) (will_message p) @ bs) = Inr (will_message p, bs)"
    "rd_lstr_if (CONNECT_USERNAME_FLAG ?f) (lstr_if (CONNECT_USERNAME_FLAG ?f) (username p) @ bs) = Inr (username p, bs)"
    "rd_lstr_if (CONNECT_PASSWORD_FLAG ?f) (lstr_if (CONNECT_PASSWORD_FLAG ?f) (password p) @ bs) = Inr (password p, bs)"
    for bs using a by (simp_all add: acceptable_connect_def rd_lstr_if_bytes)
  have eta: "\<lparr>conn_flags = ?f, keep_alive = keep_alive p, client_id = client_id p, will_topic = will_topic p,
      will_message = will_message p, username = username p, password = password p\<rparr> = p" by simp
  have cid: "(if (of_nat (length ?cid) :: u16) > 0
       then (case rd_str (unat (of_nat (length ?cid) :: u16)) (bytes_of_str ?cid @ bs) of (s, bs) \<Rightarrow> (Some s, bs))
       else (None, bytes_of_str ?cid @ bs)) = (client_id p, bs)" for bs
    using z unfolding len by (auto simp: word_neq_0_conv split: option.splits)
  have pay: "parse_connect_payload cb ?f (keep_alive p) (of_nat (length ?cid)) c (bytes_of_str ?cid @ ?opts)
      = deliver cb Up_Broker (CONNECT p) [] (c\<lparr>conn_state := STARTING_SESSION\<rparr>) rest"
    unfolding parse_connect_payload_def Let_def cid by (simp only: prod.case opts bind_simps eta)
  have body: "packet_body (CONNECT p) @ rest = be16 4 @ bytes_of_str ''MQTT'' @ 4 # ?f # be16 (keep_alive p)
      @ be16 (of_nat (length ?cid)) @ bytes_of_str ?cid @ ?opts"
    by (simp add: lstr_def)
  have name: "rd_str 4 (bytes_of_str ''MQTT'' @ bs) = (''MQTT'', bs)" for bs
    using rd_str_bytes [of "''MQTT''" bs] by (simp add: numeral_eq_Suc)
  have ok: "\<not> CONNECT_RESERVED ?f"
    "\<not> ((\<not> CONNECT_WILL_FLAG ?f \<and> CONNECT_WILL_QOS ?f \<noteq> 0) \<or> CONNECT_WILL_QOS ?f > 2)"
    "\<not> ((of_nat (length ?cid) :: u16) = 0 \<and> \<not> CONNECT_CLEAN_SESSION ?f)"
    using a z by (auto simp: acceptable_connect_def not_less)
  have cs: "cstr ''MQTT'' = ''MQTT''" by simp
  show ?thesis
    unfolding body parse_connect_packet_def
    by (simp only: rd16_be16 bind_simps prod.case name Let_def cs rd_byte_Cons ok pay if_False simp_thms)
qed

lemma decode_pass_connect:
  assumes "parse_state c = PARSING_FIXED_HEADER" and "length (packet_body (CONNECT p)) < MAX_REMAIN"
  shows "decode_pass cb ct c (packet_bytes (CONNECT p) @ rest) =
    decode_body cb ct (body_ctx c (CONNECT p)) (packet_body (CONNECT p) @ rest)"
proof -
  have "validate_flags (header_ctx c (CONNECT p)) = DECODE_OK"
    by (simp add: validate_flags_def header_ctx_fields)
  then show ?thesis
    using assms decode_remain_len [OF assms(2), of cb ct "Some DECODE_OK" c]
    by (simp add: decode_pass_def decode_fixed_def packet_bytes_def parse_fix_header_ok
        header_ctx_fields del: packet_body.simps)
qed

lemma decode_body_connect:
  assumes "acceptable_connect p" and "length (packet_body (CONNECT p)) < MAX_REMAIN"
  shows "decode_body cb SERVER_CODEC (body_ctx c (CONNECT p)) (packet_body (CONNECT p) @ rest) =
    bind (deliver cb Up_Broker (CONNECT p) [] ((body_ctx c (CONNECT p))\<lparr>conn_state := STARTING_SESSION\<rparr>) rest)
      (\<lambda>(st, evs, ctx, bs).
             Inr (st, evs,
                  if st = DECODE_OK then ctx\<lparr>parse_state := PARSING_FIXED_HEADER\<rparr> else ctx, bs))"
proof -
  have ty: "PACKET_TYPE (body_ctx c (CONNECT p)) = 1"
    using header_ctx_fields(1) [of c "CONNECT p"] by (simp add: body_ctx_def PACKET_TYPE_def)
  have r: "remain_length (body_ctx c (CONNECT p)) = of_nat (length (packet_body (CONNECT p)))"
    by (simp add: body_ctx_def)
  show ?thesis
    unfolding decode_body_def r remain_unat [OF assms(2)] ty
    by (simp add: packet_parser_def parse_connect_body [OF assms(1)] del: packet_body.simps)
qed

text \<open>
  The server accepts CONNECT only while the connection still belongs to the broker: a second
  CONNECT in a session, or a session packet that arrives before the session has been attached,
  reads the wrong member of the upstream union.
\<close>

theorem second_connect_confuses_upstream:
  assumes a: "acceptable_connect p" and r: "ready c" and l: "length (packet_body (CONNECT p)) < MAX_REMAIN"
  shows "decode_tcp_message cb SERVER_CODEC c (packet_bytes (CONNECT p)) = Inl Type_Confusion"
proof -
  let ?c = "body_ctx c (CONNECT p)"
  have u: "upstream ?c = Up_Session" using body_ctx_session [OF r] by (simp add: in_session_def)
  have "decode_pass cb SERVER_CODEC c (packet_bytes (CONNECT p)) = Inl Type_Confusion"
    using decode_pass_connect [of c p cb SERVER_CODEC "[]"] decode_body_connect [OF a l, of cb c "[]"] r l u
    by (simp add: ready_def deliver_def del: packet_body.simps)
  then show ?thesis by (subst decode_tcp_message.simps) simp
qed

text \<open>
  A topic length that exceeds the remaining length makes the unsigned subtraction wrap, so the test
  \<^verbatim>\<open>payload_len < 0\<close> does not see it.
\<close>

theorem publish_topic_overrun_unnoticed:
  assumes "2 \<le> unat len" and "unat len < unat tlen"
  shows "publish_payload_len len tlen fl \<ge> 2 ^ 32 - 2 ^ 16 - 2"
proof -
  have "uint tlen < 2 ^ LENGTH(16)" by (rule uint_lt2p)
  then have t: "uint tlen < 65536" by simp
  have c: "uint (ucast tlen :: u32) = uint tlen"
    using t by (simp add: unsigned_ucast_eq take_bit_eq_mod)
  have l: "2 \<le> uint len" "uint len < uint tlen" using assms unfolding uint_nat by linarith+
  have a: "uint (len - 2) = uint len - 2" using l by (simp add: uint_sub_if')
  have "uint (len - 2 - ucast tlen) = uint len - 2 - uint tlen + 2 ^ 32"
    using l unfolding uint_sub_if' [of "len - 2"] a c by simp
  then show ?thesis using l t by (simp add: publish_payload_len_def)
qed

section \<open>Properties\<close>

text \<open>
  C4. Decoding is independent of fragmentation: when the bytes of any sequence of packets a session
  accepts arrive in any division into non-empty fragments, the decoder never faults and never closes
  the connection; it sends the acknowledgements and delivers exactly these packets, in order, each
  acknowledgement before its packet, and ends ready for the next packet with nothing left over.
\<close>

theorem decoder_delivers_stream:
  assumes "keeps_session cb" and "ready c" and "\<forall>p\<in>set ps. acceptable ct p"
    and "concat fs = concat (map packet_bytes ps)" and "[] \<notin> set fs"
  shows "\<exists>c'. feed cb ct c [] fs = Inr (concat (map (\<lambda>p. packet_acks p @ [Deliver p]) ps), c', []) \<and> ready c'"
  using feed_stream [OF assms(1) resumes_ready [OF assms(2)], of ps fs] assms
  by (simp add: partial_def)

theorem decoder_delivers_stream_witness:
  "\<exists>c'. feed (\<lambda>_ s. s) SERVER_CODEC
      \<lparr>upstream = Up_Session, conn_state = IN_SESSION, parse_state = PARSING_FIXED_HEADER,
       type_flags = 0, remain_length = 0, multiplier = 0\<rparr> [] [[0xC0], [0, 0x62], [2, 0], [5]]
    = Inr ([Send PINGRESP, Deliver PINGREQ, Send (PUBCOMP 5), Deliver (PUBREL 5)], c', [])"
proof -
  have "concat [[0xC0], [0, 0x62], [2, 0], [5]] = concat (map packet_bytes [PINGREQ, PUBREL 5])"
    by (simp add: packet_bytes_def header_byte_def len_bytes.simps be16_def)
  from decoder_delivers_stream [of "\<lambda>_ s. s", OF _ _ _ this,
      of "\<lparr>upstream = Up_Session, conn_state = IN_SESSION, parse_state = PARSING_FIXED_HEADER,
           type_flags = 0, remain_length = 0, multiplier = 0\<rparr>" SERVER_CODEC]
  show ?thesis
    by (auto simp: keeps_session_def ready_def in_session_def acceptable_def)
qed

lemma connect_delivered:
  assumes "acceptable_connect p" and "length (packet_body (CONNECT p)) < 128 ^ 4"
    and "parse_state c = PARSING_FIXED_HEADER" and "upstream c = Up_Broker"
    and "cb (CONNECT p) (Up_Broker, STARTING_SESSION) = (Up_Broker, STARTING_SESSION)"
  shows "\<exists>bs c'. send_connect_packet p = Inr (Some bs) \<and>
     decode_tcp_message cb SERVER_CODEC c bs = Inr ([Deliver (CONNECT p)], c', []) \<and>
     conn_state c' = STARTING_SESSION \<and> parse_state c' = PARSING_FIXED_HEADER"
proof -
  have "sendable (CONNECT p)" using assms(1) by (simp add: acceptable_connect_def)
  then have s: "send_connect_packet p = Inr (Some (packet_bytes (CONNECT p)))"
    using send_connect_ok assms(2) by blast
  let ?c = "(body_ctx c (CONNECT p))\<lparr>conn_state := STARTING_SESSION, parse_state := PARSING_FIXED_HEADER\<rparr>"
  have u: "upstream (body_ctx c (CONNECT p)) = Up_Broker"
    using assms(4) by (simp add: body_ctx_def header_ctx_def)
  have "decode_pass cb SERVER_CODEC c (packet_bytes (CONNECT p)) = Inr (DECODE_OK, [Deliver (CONNECT p)], ?c, [])"
    using decode_pass_connect [OF assms(3,2), of cb SERVER_CODEC "[]"]
      decode_body_connect [OF assms(1,2), of cb c "[]"] u assms(5)
    by (simp add: deliver_def del: packet_body.simps)
  then have "decode_tcp_message cb SERVER_CODEC c (packet_bytes (CONNECT p)) = Inr ([Deliver (CONNECT p)], ?c, [])"
    by (subst decode_tcp_message.simps) simp
  then show ?thesis using s by (intro exI [of _ "packet_bytes (CONNECT p)"] exI [of _ ?c]) simp
qed

text \<open>
  C17. A CONNECT round trip: what the client's sender writes for a well-formed CONNECT, the server's
  decoder delivers to the broker unchanged, once, and leaves the connection in the state
  \<open>STARTING_SESSION\<close>.
\<close>

theorem connect_roundtrip:
  assumes "acceptable_connect p" and "length (packet_body (CONNECT p)) < 128 ^ 4"
    and "parse_state c = PARSING_FIXED_HEADER" and "upstream c = Up_Broker"
    and "cb (CONNECT p) (Up_Broker, STARTING_SESSION) = (Up_Broker, STARTING_SESSION)"
  shows "\<exists>bs c'. send_connect_packet p = Inr (Some bs) \<and>
     decode_tcp_message cb SERVER_CODEC c bs = Inr ([Deliver (CONNECT p)], c', []) \<and>
     conn_state c' = STARTING_SESSION \<and> parse_state c' = PARSING_FIXED_HEADER"
  using connect_delivered [of p c cb] assms by blast

theorem connect_roundtrip_witness:
  "\<exists>bs c'. send_connect_packet \<lparr>conn_flags = 0x82, keep_alive = 60, client_id = Some ''dev'', will_topic = None,
        will_message = None, username = Some ''bob'', password = None\<rparr> = Inr (Some bs) \<and>
     decode_tcp_message (\<lambda>_ s. s) SERVER_CODEC
       \<lparr>upstream = Up_Broker, conn_state = NO_SESSION, parse_state = PARSING_FIXED_HEADER,
        type_flags = 0, remain_length = 0, multiplier = 0\<rparr> bs =
     Inr ([Deliver (CONNECT \<lparr>conn_flags = 0x82, keep_alive = 60, client_id = Some ''dev'', will_topic = None,
        will_message = None, username = Some ''bob'', password = None\<rparr>)], c', [])"
  using connect_roundtrip [of "\<lparr>conn_flags = 0x82, keep_alive = 60, client_id = Some ''dev'', will_topic = None,
        will_message = None, username = Some ''bob'', password = None\<rparr>"
      "\<lparr>upstream = Up_Broker, conn_state = NO_SESSION, parse_state = PARSING_FIXED_HEADER,
        type_flags = 0, remain_length = 0, multiplier = 0\<rparr>" "\<lambda>_ s. s"]
  by (auto simp: acceptable_connect_def opt_str_def c_str_def lstr_if_def CONNECT_RESERVED_def
      CONNECT_WILL_FLAG_def CONNECT_WILL_QOS_def CONNECT_USERNAME_FLAG_def CONNECT_PASSWORD_FLAG_def
      CONNECT_CLEAN_SESSION_def)

text \<open>
  C19. Nothing but a CONNECT or CONNACK is looked at on a connection without a session: any other first
  byte makes the decoder close the connection at once, with no packet delivered and nothing sent.
\<close>

theorem first_packet_must_connect:
  assumes "parse_state c = PARSING_FIXED_HEADER" and "conn_state c = NO_SESSION"
    and "drop_bit 4 b AND 0x0F \<noteq> 1" and "drop_bit 4 b AND 0x0F \<noteq> 2"
  shows "\<exists>c'. decode_tcp_message cb ct c (b # bs) = Inr ([Force_Close], c', bs)"
proof -
  obtain st c1 where h: "parse_fix_header c b = (st, c1)" by fastforce
  have "\<exists>st c'. decode_pass cb ct c (b # bs) = Inr (st, [], c', bs) \<and> st \<noteq> DECODE_OK \<and> st \<noteq> NEED_MORE_DATA"
  proof (cases "st = DECODE_OK")
    case True
    then have c1: "conn_state c1 = NO_SESSION" "type_flags c1 = b"
      using h assms(2) by (auto simp: parse_fix_header_def Let_def split: if_splits)
    have "PACKET_TYPE c1 = unat (drop_bit 4 b AND 0x0F)" by (simp add: PACKET_TYPE_def c1(2))
    then have "PACKET_TYPE c1 \<noteq> 1" "PACKET_TYPE c1 \<noteq> 2"
      using assms(3,4) by (simp_all add: word_unat_eq_iff)
    then show ?thesis
      using True h c1 assms(1) by (auto simp: decode_pass_def decode_fixed_def Let_def)
  next
    case False
    then show ?thesis
      using h assms(1) by (auto simp: decode_pass_def decode_fixed_def Let_def parse_fix_header_def split: if_splits)
  qed
  then show ?thesis by (subst decode_tcp_message.simps) auto
qed

theorem first_packet_must_connect_witness:
  "\<exists>c'. decode_tcp_message (\<lambda>_ s. s) SERVER_CODEC
       \<lparr>upstream = Up_Broker, conn_state = NO_SESSION, parse_state = PARSING_FIXED_HEADER,
        type_flags = 0, remain_length = 0, multiplier = 0\<rparr> [0x30, 2, 0, 0] = Inr ([Force_Close], c', [2, 0, 0])"
  by (rule first_packet_must_connect) simp_all

text \<open>
  C18. The variable-length remaining length: the decoder reads back what \<open>make_fixed_header\<close> wrote
  (packet type, flags and every length below \<open>128^4\<close>), and a length whose first four bytes all have
  the continuation bit is rejected whatever follows.
\<close>

theorem fixed_header_roundtrip:
  fixes n :: u32
  assumes "unat n < 128 ^ 4" and "b1 AND 0x80 \<noteq> 0" and "b2 AND 0x80 \<noteq> 0" and "b3 AND 0x80 \<noteq> 0"
    and "b4 AND 0x80 \<noteq> 0"
  shows "\<exists>hdr lb c c'. vec_write (snd (make_fixed_header ty fl n tmq_base_init)) = Inr (Some (hdr # lb)) \<and>
       parse_fix_header c0 hdr = (DECODE_OK, c) \<and>
       PACKET_TYPE c = unat (packet_type_code ty) \<and> FLAGS c = fl AND 0x0F \<and>
       parse_remain_length c (lb @ rest) = Inr (DECODE_OK, c', rest) \<and> remain_length c' = n \<and>
       (\<exists>c'' r. parse_remain_length c (b1 # b2 # b3 # b4 # b5 # rest) = Inr (BAD_PACKET_FORMAT, c'', r))"
proof -
  let ?h = "push_bit 4 (packet_type_code ty) OR (fl AND 0x0F)"
  let ?c = "c0\<lparr>type_flags := ?h, remain_length := 0, multiplier := 1, parse_state := PARSING_REMAIN_LENGTH\<rparr>"
  have w: "vec_write (snd (make_fixed_header ty fl n tmq_base_init)) = Inr (Some (?h # len_bytes (unat n)))"
    using make_fixed_header_bytes(1) [OF vec_rep_init, of ty fl n] vec_rep_cap [OF make_fixed_header_bytes(1) [OF vec_rep_init, of ty fl n]]
    by (intro vec_write_rep [where k = 0]) (simp add: vroom_def)
  have nib: "drop_bit 4 ?h AND 0x0F = packet_type_code ty" "?h AND 0x0F = fl AND 0x0F"
    unfolding header_nibbles type_code_cases by (rule refl)+
  have h: "parse_fix_header c0 ?h = (DECODE_OK, ?c)"
    unfolding parse_fix_header_def nib Let_def using type_code_cases(2,3) [of ty] by simp
  have p: "PACKET_TYPE ?c = unat (packet_type_code ty)" "FLAGS ?c = fl AND 0x0F"
    using nib by (simp_all add: PACKET_TYPE_def FLAGS_def del: drop_bit_or)
  have m: "multiplier ?c = 128 ^ 0" by simp
  have "length (len_bytes (unat n)) \<le> 4" using assms(1) by (rule len_bytes_le4)
  then have r: "\<exists>c'. parse_remain_length ?c (len_bytes (unat n) @ rest) = Inr (DECODE_OK, c', rest) \<and> remain_length c' = n"
    using parse_len_bytes [OF m, of "unat n" rest] by simp
  have bad: "\<exists>c'' r. parse_remain_length ?c (b1 # b2 # b3 # b4 # b5 # rest) = Inr (BAD_PACKET_FORMAT, c'', r)"
    using assms(2-5) by (simp add: Let_def)
  show ?thesis using w h p r bad by blast
qed

theorem fixed_header_roundtrip_witness:
  "\<exists>hdr lb c c'. vec_write (snd (make_fixed_header MQTT_PUBLISH 3 (321 :: u32) tmq_base_init)) = Inr (Some (hdr # lb)) \<and>
       parse_fix_header \<lparr>upstream = Up_Broker, conn_state = IN_SESSION, parse_state = PARSING_FIXED_HEADER,
        type_flags = 0, remain_length = 0, multiplier = 0\<rparr> hdr = (DECODE_OK, c) \<and>
       parse_remain_length c (lb @ [9]) = Inr (DECODE_OK, c', [9]) \<and> remain_length c' = 321"
  using fixed_header_roundtrip [where n = 321 and ?b1.0 = "0x80" and ?b2.0 = "0x80" and ?b3.0 = "0x80" and ?b4.0 = "0x80"
      and ?b5.0 = 0 and ty = MQTT_PUBLISH and fl = 3 and rest = "[9]" and ?c0.0 =
      "\<lparr>upstream = Up_Broker, conn_state = IN_SESSION, parse_state = PARSING_FIXED_HEADER,
        type_flags = 0, remain_length = 0, multiplier = 0\<rparr>"]
  by (simp del: parse_remain_length.simps) blast

end
