(* ===== verification/Len_Codec.thy ===== *)
theory Len_Codec
  imports Codec_Roundtrip
begin

text \<open>
  The length-prefixed messages of the administration console and of the cluster, \<^verbatim>\<open>codec/mqtt_codec.c\<close>,
  \<^verbatim>\<open>codec/mqtt_console_codec.c\<close> and \<^verbatim>\<open>codec/mqtt_cluster_codec.c\<close>: a type byte, a 16-bit length and a payload. The table of
  payload parsers is an array indexed by the type; an entry that has not been registered is uninitialised. What a parser calls
  is an event. The tool side of the console uses blocking reads and writes, whose results are a list: an empty list means that the
  call has not returned yet.
\<close>

definition LEN_BASED_HEADER_SIZE :: nat where "LEN_BASED_HEADER_SIZE = 3"

datatype len_parsing_state = PARSING_HEADER | PARSING_PAYLOAD

record len_ctx =
  len_state :: len_parsing_state
  message_type :: u8
  payload_len :: u16

datatype payload_parser = Parse_Add_User | Parse_Add_Route | Parse_Tun_Publish

datatype len_event =
    On_Add_User tmq_str tmq_str
  | On_Add_Route tmq_str
  | On_Tun_Publish publish_pkt
  | Close_Conn

section \<open>Payload parsers\<close>

text \<open>The payload is copied into 128 bytes that were zeroed.\<close>

definition parse_add_user_message :: "nat \<Rightarrow> bytes \<Rightarrow> (len_event list \<times> bytes) res" where
  "parse_add_user_message len bs =
     (if len > 128 then Inl Out_Of_Bounds
      else
        let payload = str_of_bytes (take len bs) @ replicate (128 - len) NUL;
            user = cstr payload;
            pwd = drop (length user + 1) payload
        in if NUL \<notin> set payload \<or> NUL \<notin> set pwd then Inl Out_Of_Bounds
           else Inr ([On_Add_User user (cstr pwd)], drop len bs))"

definition parse_add_route_message :: "nat \<Rightarrow> bytes \<Rightarrow> (len_event list \<times> bytes) res" where
  "parse_add_route_message len bs = (let (s, bs) = rd_str len bs in Inr ([On_Add_Route s], bs))"

text \<open>
  The tunnelled packet is decoded by the MQTT decoder in a temporary context. The codec that is passed on is that of the cluster: all
  callbacks but the one for tunnelled messages are read from the wrong structure.
\<close>

definition tunnel_ctx :: conn_ctx where
  "tunnel_ctx = \<lparr>upstream = Up_Broker, conn_state = TUNNELED, parse_state = PARSING_FIXED_HEADER,
     type_flags = 0, remain_length = 0, multiplier = 0\<rparr>"

fun tunnel_events :: "codec_event list \<Rightarrow> len_event list res" where
  "tunnel_events [] = Inr []"
| "tunnel_events (Tun_Publish p # evs) = bind (tunnel_events evs) (\<lambda>es. Inr (On_Tun_Publish p # es))"
| "tunnel_events (Force_Close # evs) = bind (tunnel_events evs) (\<lambda>es. Inr (Close_Conn # es))"
| "tunnel_events (Deliver p # evs) = Inl Type_Confusion"
| "tunnel_events (Send p # evs) = tunnel_events evs"

definition parse_tun_publish_message :: "nat \<Rightarrow> bytes \<Rightarrow> (len_event list \<times> bytes) res" where
  "parse_tun_publish_message len bs =
     bind (decode_tcp_message (\<lambda>_ s. s) SERVER_CODEC tunnel_ctx bs) (\<lambda>(evs, _, bs).
       bind (tunnel_events evs) (\<lambda>es. Inr (es, bs)))"

fun run_parser :: "payload_parser \<Rightarrow> nat \<Rightarrow> bytes \<Rightarrow> (len_event list \<times> bytes) res" where
  "run_parser Parse_Add_User = parse_add_user_message"
| "run_parser Parse_Add_Route = parse_add_route_message"
| "run_parser Parse_Tun_Publish = parse_tun_publish_message"

section \<open>The decoder\<close>

record len_codec =
  n_parsers :: nat
  payload_parsers :: "payload_parser option list"

definition tmq_len_based_codec_init :: len_codec where
  "tmq_len_based_codec_init = \<lparr>n_parsers = 10, payload_parsers = replicate 10 None\<rparr>"

text \<open>The array is reallocated with \<^verbatim>\<open>2 * n_parsers\<close> bytes; an entry has eight.\<close>

definition tmq_len_based_codec_register_parser :: "len_codec \<Rightarrow> nat \<Rightarrow> payload_parser \<Rightarrow> len_codec res" where
  "tmq_len_based_codec_register_parser c ty p =
     (let tab = (if n_parsers c \<le> ty then take (2 * n_parsers c div 8) (payload_parsers c) else payload_parsers c)
      in if ty < length tab then Inr (c\<lparr>payload_parsers := tab[ty := Some p]\<rparr>) else Inl Out_Of_Bounds)"

definition tmq_console_codec_init :: "len_codec res" where
  "tmq_console_codec_init = tmq_len_based_codec_register_parser tmq_len_based_codec_init 0 Parse_Add_User"

definition tmq_cluster_codec_init :: "len_codec res" where
  "tmq_cluster_codec_init =
     bind (tmq_len_based_codec_register_parser tmq_len_based_codec_init 0 Parse_Add_Route)
       (\<lambda>c. tmq_len_based_codec_register_parser c 2 Parse_Tun_Publish)"

definition call_parser :: "payload_parser option list \<Rightarrow> u8 \<Rightarrow> nat \<Rightarrow> bytes \<Rightarrow> (len_event list \<times> bytes) res" where
  "call_parser tab ty len bs =
     (if unat ty \<ge> length tab then Inl Out_Of_Bounds
      else case tab ! unat ty of None \<Rightarrow> Inl Uninit_Read | Some p \<Rightarrow> run_parser p len bs)"

definition parse_header :: "len_ctx \<Rightarrow> bytes \<Rightarrow> len_ctx \<times> bytes" where
  "parse_header ctx bs =
     (ctx\<lparr>message_type := hd bs, payload_len := of_nat (be_nat (take 2 (drop 1 bs)))\<rparr>, drop 3 bs)"

text \<open>The first part of the switch: the context and the bytes at the payload, or nothing when the header is incomplete.\<close>

definition header_pass :: "len_ctx \<Rightarrow> bytes \<Rightarrow> (len_ctx \<times> bytes) option" where
  "header_pass ctx bs =
     (case len_state ctx of
        PARSING_HEADER \<Rightarrow>
          if length bs < LEN_BASED_HEADER_SIZE then None
          else (let (ctx, bs) = parse_header ctx bs in Some (ctx\<lparr>len_state := PARSING_PAYLOAD\<rparr>, bs))
      | PARSING_PAYLOAD \<Rightarrow> Some (ctx, bs))"

lemma decode_shrinks: "decode_tcp_message cb ct ctx bs = Inr (evs, ctx', bs') \<Longrightarrow> length bs' \<le> length bs"
proof (induction cb ct ctx bs arbitrary: evs ctx' bs' rule: decode_tcp_message.induct)
  case (1 cb ct ctx bs)
  from "1.prems" obtain st e c b where p: "decode_pass cb ct ctx bs = Inr (st, e, c, b)"
    by (subst (asm) decode_tcp_message.simps) (auto split: sum.splits)
  then have le: "length b \<le> length bs" by (rule decode_pass_shrinks(1))
  show ?case
  proof (cases "\<not> (st \<noteq> DECODE_OK \<and> st \<noteq> NEED_MORE_DATA) \<and> conn_state c \<noteq> TUNNELED \<and> b \<noteq> [] \<and>
      parse_state c = PARSING_FIXED_HEADER")
    case True
    then obtain e' where r: "decode_tcp_message cb ct c b = Inr (e', ctx', bs')"
      using "1.prems" p by (subst (asm) decode_tcp_message.simps) (auto simp: bind_eq_Inr)
    have "length bs' \<le> length b" by (rule "1.IH" [OF p refl refl refl _ _ r]) (use True in blast)+
    then show ?thesis using le by simp
  next
    case False
    then show ?thesis using "1.prems" p le by (subst (asm) decode_tcp_message.simps) (auto split: if_splits)
  qed
qed

lemma parser_shrinks: "run_parser p len bs = Inr (evs, bs') \<Longrightarrow> length bs' \<le> length bs"
  by (cases p)
     (auto simp: parse_add_user_message_def parse_add_route_message_def parse_tun_publish_message_def rd_str_def Let_def bind_eq_Inr
        split: if_splits dest: decode_shrinks)

lemma call_shrinks: "call_parser tab ty len bs = Inr (evs, bs') \<Longrightarrow> length bs' \<le> length bs"
  by (auto simp: call_parser_def split: if_splits option.splits dest: parser_shrinks)

function decode_len_message :: "payload_parser option list \<Rightarrow> len_ctx \<Rightarrow> bytes \<Rightarrow> (len_event list \<times> len_ctx \<times> bytes) res" where
  "decode_len_message tab ctx bs =
     (case header_pass ctx bs of
        None \<Rightarrow> Inr ([], ctx, bs)
      | Some (ctx, bs) \<Rightarrow>
          if length bs < unat (payload_len ctx) then Inr ([], ctx, bs)
          else
            (case call_parser tab (message_type ctx) (unat (payload_len ctx)) bs of
               Inl f \<Rightarrow> Inl f
             | Inr (evs, bs) \<Rightarrow>
                 let ctx = ctx\<lparr>len_state := PARSING_HEADER\<rparr>
                 in if bs \<noteq> [] then bind (decode_len_message tab ctx bs) (\<lambda>(evs', c, b). Inr (evs @ evs', c, b))
                    else Inr (evs, ctx, bs)))"
  by pat_completeness auto
termination
  by (relation "measure (\<lambda>(_, ctx, bs). 2 * length bs + (if len_state ctx = PARSING_HEADER then 0 else 1))")
     (auto simp: header_pass_def parse_header_def LEN_BASED_HEADER_SIZE_def dest!: call_shrinks
        split: len_parsing_state.splits if_splits)

declare decode_len_message.simps [simp del]

section \<open>Senders\<close>

text \<open>\<^verbatim>\<open>memcpy(tmq_vec_end(buf), s, n + 1)\<close> and the resize over the copied bytes.\<close>

definition put_cstr :: "packet_buf \<Rightarrow> tmq_str \<Rightarrow> nat \<Rightarrow> packet_buf res" where
  "put_cstr buf s n =
     bind (vec_store buf (vsize buf) (map Some (take (n + 1) (bytes_of_str s @ [0]))))
       (\<lambda>buf. Inr (tmq_vec_resize buf (tmq_vec_size buf + n + 1)))"

text \<open>The cluster's messages on routes; the payload is written with its terminating NUL.\<close>

definition send_route_sync_del_message :: "u8 \<Rightarrow> tmq_str option \<Rightarrow> bytes res" where
  "send_route_sync_del_message ty s =
     (let plen = (of_nat (tmq_str_len s + 1) :: u16);
          buf = pack_uint16 (tmq_vec_push_back tmq_base_init ty) plen
      in bind (vec_write buf) (\<lambda>h.
         case s of
           None \<Rightarrow> Inl Null_Deref
         | Some t \<Rightarrow> Inr ((case h of None \<Rightarrow> [] | Some h \<Rightarrow> h) @ take (unat plen) (bytes_of_str t @ [0]))))"

text \<open>
  The result of \<^verbatim>\<open>pack_publish_packet\<close> is ignored: when the packet is too long, only its fixed header has been written.
\<close>

definition tun_publish_pkt :: "tmq_str \<Rightarrow> tmq_str \<Rightarrow> u8 \<Rightarrow> u8 \<Rightarrow> publish_pkt" where
  "tun_publish_pkt tp msg qos retain =
     \<lparr>pub_flags = push_bit 1 qos OR retain, topic = tp, packet_id = 0, payload = msg\<rparr>"

definition send_publish_tun_message :: "tmq_str \<Rightarrow> tmq_str \<Rightarrow> u8 \<Rightarrow> u8 \<Rightarrow> bytes res" where
  "send_publish_tun_message tp msg qos retain =
     (let p = tun_publish_pkt tp msg qos retain;
          buf = pack_uint16 (tmq_vec_push_back tmq_base_init 2) 0
      in bind (pack_publish_packet buf p) (\<lambda>bo.
           let buf = (case bo of Some b \<Rightarrow> b
                | None \<Rightarrow> snd (make_fixed_header MQTT_PUBLISH (pub_flags p)
                    (of_nat (4 + length tp + length msg) - (if PUBLISH_QOS (pub_flags p) = 0 then 2 else 0)) buf));
               plen = (of_nat (tmq_vec_size buf - LEN_BASED_HEADER_SIZE) :: u16);
               buf = snd (tmq_vec_set (snd (tmq_vec_set buf 1 (ucast (htobe16 plen)))) 2 (ucast (drop_bit 8 (htobe16 plen))))
           in bind (vec_write buf) (\<lambda>h. Inr (case h of None \<Rightarrow> [] | Some h \<Rightarrow> h))))"

definition send_user_operation_reply :: "tmq_str \<Rightarrow> tmq_str option \<Rightarrow> bool \<Rightarrow> bytes res" where
  "send_user_operation_reply user reason success =
     (let user_len = (of_nat (length user) :: u16);
          reason_len = (of_nat (tmq_str_len reason) :: u16);
          plen = user_len + reason_len + 1;
          plen = (if reason_len \<noteq> 0 then plen + 1 else plen);
          ty = (if success then 0 else 0x80);
          buf = pack_uint16 (tmq_vec_push_back tmq_base_init ty) plen;
          buf = tmq_vec_reserve buf (LEN_BASED_HEADER_SIZE + unat plen)
      in bind (case reason of None \<Rightarrow> Inr buf | Some r \<Rightarrow> put_cstr buf r (unat reason_len)) (\<lambda>buf.
         bind (put_cstr buf user (unat user_len)) (\<lambda>buf.
         bind (vec_write buf) (\<lambda>h. Inr (case h of None \<Rightarrow> [] | Some h \<Rightarrow> h)))))"

section \<open>The tool's side\<close>

datatype io_result = Done nat | Interrupted | Failed

text \<open>The result is whether all was written, and what was.\<close>

fun writen :: "io_result list \<Rightarrow> bytes \<Rightarrow> (bool \<times> bytes) option" where
  "writen rs [] = Some (True, [])"
| "writen [] (b # bs) = None"
| "writen (Done k # rs) (b # bs) =
     (if k = 0 then Some (False, [])
      else case writen rs (drop k (b # bs)) of None \<Rightarrow> None | Some (ok, w) \<Rightarrow> Some (ok, take k (b # bs) @ w))"
| "writen (Interrupted # rs) (b # bs) = writen rs (b # bs)"
| "writen (Failed # rs) (b # bs) = Some (False, [])"

datatype read_result = Got bytes | Read_Interrupted | Read_Failed

text \<open>\<open>Got []\<close> is the end of the stream. The result is whether no read failed, the bytes and the reads that are left.\<close>

fun readn :: "read_result list \<Rightarrow> nat \<Rightarrow> (bool \<times> bytes \<times> read_result list) option" where
  "readn rs 0 = Some (True, [], rs)"
| "readn [] (Suc n) = None"
| "readn (Got d # rs) (Suc n) =
     (if d = [] then Some (True, [], rs)
      else case readn rs (Suc n - length d) of None \<Rightarrow> None | Some (ok, w, rs) \<Rightarrow> Some (ok, take (Suc n) d @ w, rs))"
| "readn (Read_Interrupted # rs) (Suc n) = readn rs (Suc n)"
| "readn (Read_Failed # rs) (Suc n) = Some (False, [], rs)"

definition add_user_bytes :: "tmq_str \<Rightarrow> tmq_str \<Rightarrow> bytes res" where
  "add_user_bytes user pwd =
     (let user_len = (of_nat (length (cstr user)) :: u16);
          pwd_len = (of_nat (length (cstr pwd)) :: u16);
          plen = user_len + pwd_len + 2;
          buf = pack_uint16 (tmq_vec_push_back tmq_base_init 0) plen;
          buf = tmq_vec_reserve buf (LEN_BASED_HEADER_SIZE + unat plen)
      in bind (put_cstr buf (cstr user) (unat user_len)) (\<lambda>buf.
         bind (put_cstr buf (cstr pwd) (unat pwd_len)) (\<lambda>buf.
         bind (vec_write buf) (\<lambda>h. Inr (case h of None \<Rightarrow> [] | Some h \<Rightarrow> h)))))"

definition send_add_user_message :: "io_result list \<Rightarrow> tmq_str \<Rightarrow> tmq_str \<Rightarrow> (int \<times> bytes) option res" where
  "send_add_user_message rs user pwd =
     bind (add_user_bytes user pwd) (\<lambda>bs.
       Inr (case writen rs bs of None \<Rightarrow> None | Some (ok, w) \<Rightarrow> Some (if ok then 0 else -1, w)))"

text \<open>The printed line and the result. The payload is read into 100 bytes that were zeroed.\<close>

definition reply_text :: "u8 \<Rightarrow> bytes \<Rightarrow> string res" where
  "reply_text ty d =
     (let payload = str_of_bytes d @ replicate (100 - length d) NUL;
          failed = ty AND 0x80 \<noteq> 0;
          error = cstr payload;
          rest = (if failed then drop (length error + 1) payload else payload)
      in if NUL \<notin> set rest then Inl Out_Of_Bounds
         else if ty AND 0x7F \<noteq> 0 then Inr []
         else if failed then Inr (''add user ['' @ cstr rest @ ''] failed, error: '' @ error)
         else Inr (''add user ['' @ cstr rest @ ''] success''))"

definition receive_user_operation_reply :: "read_result list \<Rightarrow> (int \<times> string) option res" where
  "receive_user_operation_reply rs =
     (case readn rs LEN_BASED_HEADER_SIZE of
        None \<Rightarrow> Inr None
      | Some (ok, h, rs) \<Rightarrow>
          if \<not> ok \<or> length h < LEN_BASED_HEADER_SIZE then Inr (Some (-1, []))
          else
            let plen = be_nat (take 2 (drop 1 h))
            in case readn rs plen of
                 None \<Rightarrow> Inr None
               | Some (ok, d, rs) \<Rightarrow>
                   if length d > 100 then Inl Out_Of_Bounds
                   else if \<not> ok \<or> length d < plen then Inr (Some (-1, []))
                   else bind (reply_text (hd h) d) (\<lambda>t. Inr (Some (0, t))))"

section \<open>Streams of messages\<close>

lemma split_prefix: "b @ v = u @ w \<Longrightarrow> length u \<le> length b \<Longrightarrow> \<exists>b2. b = u @ b2 \<and> b2 @ v = w"
  by (auto simp: append_eq_append_conv2)

definition frame :: "u8 \<Rightarrow> bytes \<Rightarrow> bytes" where
  "frame ty p = ty # be16 (of_nat (length p)) @ p"

text \<open>The decoder is called with every fragment that arrives.\<close>

fun len_feed :: "payload_parser option list \<Rightarrow> len_ctx \<Rightarrow> bytes \<Rightarrow> bytes list \<Rightarrow> (len_event list \<times> len_ctx \<times> bytes) res" where
  "len_feed tab ctx b [] = Inr ([], ctx, b)"
| "len_feed tab ctx b (f # fs) =
     bind (decode_len_message tab ctx (b @ f)) (\<lambda>(evs, ctx, b).
       bind (len_feed tab ctx b fs) (\<lambda>(evs', ctx, b). Inr (evs @ evs', ctx, b)))"

text \<open>
  The contract between a table of payload parsers and the messages of a peer: the parser of a message's type turns exactly its payload
  into its events, whatever follows.
\<close>

locale framed =
  fixes tab :: "payload_parser option list"
    and type_of :: "'m \<Rightarrow> u8"
    and payload_of :: "'m \<Rightarrow> bytes"
    and events_of :: "'m \<Rightarrow> len_event list"
    and accepted_msg :: "'m \<Rightarrow> bool"
  assumes fits: "accepted_msg m \<Longrightarrow> length (payload_of m) < 65536"
    and parses: "accepted_msg m \<Longrightarrow>
      call_parser tab (type_of m) (length (payload_of m)) (payload_of m @ rest) = Inr (events_of m, rest)"
begin

abbreviation stream :: "'m list \<Rightarrow> bytes" where
  "stream ms \<equiv> concat (map (\<lambda>m. frame (type_of m) (payload_of m)) ms)"

text \<open>Between fragments the decoder waits for the rest of a header or of a payload; \<open>v\<close> is what is still to come.\<close>

definition at_payload :: "len_ctx \<Rightarrow> 'm \<Rightarrow> bool" where
  "at_payload ctx m \<longleftrightarrow> len_state ctx = PARSING_PAYLOAD \<and> message_type ctx = type_of m \<and>
     payload_len ctx = of_nat (length (payload_of m))"

definition waiting :: "len_ctx \<Rightarrow> bytes \<Rightarrow> bytes \<Rightarrow> 'm list \<Rightarrow> bool" where
  "waiting ctx b v ms \<longleftrightarrow>
     len_state ctx = PARSING_HEADER \<and> b @ v = stream ms \<and> length b < 3 \<or>
     (\<exists>m ms'. ms = m # ms' \<and> at_payload ctx m \<and> b @ v = payload_of m @ stream ms' \<and> length b < length (payload_of m))"

definition decodes :: "len_ctx \<Rightarrow> bytes \<Rightarrow> bytes \<Rightarrow> 'm list \<Rightarrow> bool" where
  "decodes ctx b v ms \<longleftrightarrow>
     (\<exists>ms1 ms2 ctx' b'. ms = ms1 @ ms2 \<and> decode_len_message tab ctx b = Inr (concat (map events_of ms1), ctx', b') \<and>
        waiting ctx' b' v ms2)"

lemma header_read:
  assumes "len_state ctx = PARSING_HEADER" and "accepted_msg m"
  shows "\<exists>ctx'. at_payload ctx' m \<and>
    decode_len_message tab ctx (type_of m # be16 (of_nat (length (payload_of m))) @ b) = decode_len_message tab ctx' b"
proof -
  let ?n = "of_nat (length (payload_of m)) :: u16"
  let ?c = "ctx\<lparr>message_type := type_of m, payload_len := ?n, len_state := PARSING_PAYLOAD\<rparr>"
  have "header_pass ctx (type_of m # be16 ?n @ b) = Some (?c, b)" "header_pass ?c b = Some (?c, b)"
    using assms(1) be_nat_be16 [of ?n]
    by (simp_all add: header_pass_def parse_header_def LEN_BASED_HEADER_SIZE_def be16_def numeral_2_eq_2 numeral_3_eq_3)
  then have "decode_len_message tab ctx (type_of m # be16 ?n @ b) = decode_len_message tab ?c b"
    by (subst (1 2) decode_len_message.simps) simp
  then show ?thesis by (intro exI [of _ ?c]) (simp add: at_payload_def)
qed

lemma payload_decodes:
  assumes "at_payload ctx m" and "accepted_msg m" and "b @ v = payload_of m @ stream ms"
    and rest: "\<And>ctx b. len_state ctx = PARSING_HEADER \<Longrightarrow> b @ v = stream ms \<Longrightarrow> decodes ctx b v ms"
  shows "decodes ctx b v (m # ms)"
proof -
  let ?n = "length (payload_of m)"
  have u: "unat (payload_len ctx) = ?n"
    using assms(1) fits [OF assms(2)] by (simp add: at_payload_def unat_of_nat_less)
  have hp: "header_pass ctx b = Some (ctx, b)" using assms(1) by (simp add: header_pass_def at_payload_def)
  show ?thesis
  proof (cases "length b < ?n")
    case True
    then have "decode_len_message tab ctx b = Inr ([], ctx, b)"
      by (subst decode_len_message.simps) (simp add: hp u)
    moreover have "waiting ctx b v (m # ms)" using True assms(1,3) by (auto simp: waiting_def)
    ultimately show ?thesis unfolding decodes_def by (intro exI [of _ "[]"] exI [of _ "m # ms"]) auto
  next
    case False
    then obtain b2 where b2: "b = payload_of m @ b2" "b2 @ v = stream ms"
      using split_prefix [OF assms(3)] by (auto simp: not_less)
    let ?c = "ctx\<lparr>len_state := PARSING_HEADER\<rparr>"
    have call: "call_parser tab (message_type ctx) (unat (payload_len ctx)) b = Inr (events_of m, b2)"
      using parses [OF assms(2), of b2] assms(1) u b2(1) by (simp add: at_payload_def)
    show ?thesis
    proof (cases "b2 = []")
      case True
      then have "decode_len_message tab ctx b = Inr (events_of m, ?c, [])"
        using False by (subst decode_len_message.simps) (simp add: hp u call [unfolded u])
      moreover have "waiting ?c [] v ms" using b2(2) True by (simp add: waiting_def)
      ultimately show ?thesis unfolding decodes_def by (intro exI [of _ "[m]"] exI [of _ ms]) auto
    next
      case ne: False
      have "decodes ?c b2 v ms" by (rule rest) (simp_all add: b2(2))
      then obtain ms1 ms2 c' b' where d: "ms = ms1 @ ms2" "waiting c' b' v ms2"
          "decode_len_message tab ?c b2 = Inr (concat (map events_of ms1), c', b')" unfolding decodes_def by blast
      have "decode_len_message tab ctx b = Inr (events_of m @ concat (map events_of ms1), c', b')"
        using False ne by (subst decode_len_message.simps) (simp add: hp u call [unfolded u] d(3))
      then show ?thesis using d(1,2) unfolding decodes_def by (intro exI [of _ "m # ms1"] exI [of _ ms2]) auto
    qed
  qed
qed

lemma header_decodes:
  "len_state ctx = PARSING_HEADER \<Longrightarrow> list_all accepted_msg ms \<Longrightarrow> b @ v = stream ms \<Longrightarrow> decodes ctx b v ms"
proof (induction ms arbitrary: ctx b)
  case Nil
  then show ?case
    unfolding decodes_def
    by (subst decode_len_message.simps) (auto simp: waiting_def header_pass_def LEN_BASED_HEADER_SIZE_def)
next
  case (Cons m ms)
  show ?case
  proof (cases "length b < 3")
    case True
    then have "decode_len_message tab ctx b = Inr ([], ctx, b)"
      using Cons.prems(1) by (subst decode_len_message.simps) (simp add: header_pass_def LEN_BASED_HEADER_SIZE_def)
    moreover have "waiting ctx b v (m # ms)" using True Cons.prems(1,3) by (simp add: waiting_def)
    ultimately show ?thesis unfolding decodes_def by (intro exI [of _ "[]"] exI [of _ "m # ms"]) auto
  next
    case False
    let ?h = "type_of m # be16 (of_nat (length (payload_of m)))"
    have "b @ v = ?h @ payload_of m @ stream ms" using Cons.prems(3) by (simp add: frame_def)
    from split_prefix [OF this] False obtain b1 where b: "b = ?h @ b1" and b1: "b1 @ v = payload_of m @ stream ms"
      by auto
    have a: "accepted_msg m" "list_all accepted_msg ms" using Cons.prems(2) by simp_all
    obtain ctx' where c: "at_payload ctx' m" "decode_len_message tab ctx (?h @ b1) = decode_len_message tab ctx' b1"
      using header_read [OF Cons.prems(1) a(1), of b1] by auto
    have "decodes ctx' b1 v (m # ms)"
      by (rule payload_decodes [OF c(1) a(1) b1]) (use Cons.IH a(2) in blast)
    then show ?thesis using c(2) b unfolding decodes_def by metis
  qed
qed

lemma waiting_decodes:
  assumes "waiting ctx b (f @ v) ms" and "list_all accepted_msg ms"
  shows "decodes ctx (b @ f) v ms"
  using assms header_decodes payload_decodes unfolding waiting_def by fastforce

lemma feed_decodes:
  assumes "waiting ctx b (concat fs) ms" and "list_all accepted_msg ms"
  shows "\<exists>ctx'. len_feed tab ctx b fs = Inr (concat (map events_of ms), ctx', []) \<and> len_state ctx' = PARSING_HEADER"
  using assms
proof (induction fs arbitrary: ctx b ms)
  case Nil
  then have "ms = [] \<and> b = [] \<and> len_state ctx = PARSING_HEADER"
    by (cases ms) (auto simp: waiting_def frame_def)
  then show ?case by simp
next
  case (Cons f fs)
  obtain ms1 ms2 c' b' where d: "ms = ms1 @ ms2" "waiting c' b' (concat fs) ms2"
      "decode_len_message tab ctx (b @ f) = Inr (concat (map events_of ms1), c', b')"
    using waiting_decodes [of ctx b f "concat fs" ms] Cons.prems unfolding decodes_def by auto
  have "list_all accepted_msg ms2" using Cons.prems(2) d(1) by simp
  from Cons.IH [OF d(2) this] show ?case using d(1,3) by auto
qed

lemma stream_delivered:
  assumes "len_state ctx = PARSING_HEADER" and "list_all accepted_msg ms" and "concat fs = stream ms"
  shows "\<exists>ctx'. len_feed tab ctx [] fs = Inr (concat (map events_of ms), ctx', []) \<and> len_state ctx' = PARSING_HEADER"
  by (rule feed_decodes [OF _ assms(2)]) (use assms in \<open>simp add: waiting_def\<close>)

end

section \<open>Messages between cluster members\<close>

lemma tunnel_publish:
  assumes s: "session_packet SERVER_CODEC (PUBLISH q)" and l: "length (packet_body (PUBLISH q)) < MAX_REMAIN"
  shows "\<exists>c'. decode_tcp_message cb SERVER_CODEC tunnel_ctx (packet_bytes (PUBLISH q) @ rest) = Inr ([Tun_Publish q], c', rest)"
proof -
  let ?c = "body_ctx tunnel_ctx (PUBLISH q)" and ?n = "length (packet_body (PUBLISH q))"
  have st: "conn_state ?c = TUNNELED" "upstream ?c = Up_Broker" "conn_state (header_ctx tunnel_ctx (PUBLISH q)) = TUNNELED"
      "remain_length ?c = of_nat ?n" "parse_state tunnel_ctx = PARSING_FIXED_HEADER"
    by (simp_all add: body_ctx_def header_ctx_def tunnel_ctx_def)
  have ty: "PACKET_TYPE ?c = 3" and fl: "FLAGS ?c = pub_flags q"
    using header_ctx_fields [of tunnel_ctx "PUBLISH q"] s by (simp_all add: body_ctx_def PACKET_TYPE_def FLAGS_def)
  have tl: "length (topic q) < 65536" using s by simp
  have pl: "publish_payload_len (of_nat ?n) (of_nat (length (topic q))) (pub_flags q) = int (length (payload q))"
    by (rule publish_payload) (use l tl in \<open>simp_all del: packet_body.simps\<close>)
  define L :: u32 where "L = of_nat ?n"
  have "parse_publish_packet cb SERVER_CODEC L ?c (packet_body (PUBLISH q) @ rest) = Inr (DECODE_OK, [Tun_Publish q], ?c, rest)"
    using s st pl unfolding L_def [symmetric] parse_publish_packet_def Let_def
    by (auto simp: lstr_def fl u16_length word_neq_0_conv)
  then have b: "decode_body cb SERVER_CODEC ?c (packet_body (PUBLISH q) @ rest) =
      Inr (DECODE_OK, [Tun_Publish q], ?c\<lparr>parse_state := PARSING_FIXED_HEADER\<rparr>, rest)"
    using remain_unat [OF l] by (simp add: decode_body_def packet_parser_def ty st L_def del: packet_body.simps)
  have "decode_pass cb SERVER_CODEC tunnel_ctx (packet_bytes (PUBLISH q) @ rest) =
      Inr (DECODE_OK, [Tun_Publish q], ?c\<lparr>parse_state := PARSING_FIXED_HEADER\<rparr>, rest)"
    using b validate_flags_ok [OF s, of tunnel_ctx] decode_remain_len [OF l, of cb SERVER_CODEC "Some DECODE_OK" tunnel_ctx] st
    by (simp add: decode_pass_def decode_fixed_def packet_bytes_def parse_fix_header_ok del: packet_body.simps)
  then show ?thesis using st by (subst decode_tcp_message.simps) simp
qed

text \<open>A route message or a tunnelled message, with its topic, text, QoS and retain flag.\<close>

datatype cluster_msg = Route_Sync tmq_str | Tun_Msg tmq_str tmq_str u8 bool

abbreviation tun_pkt :: "tmq_str \<Rightarrow> tmq_str \<Rightarrow> u8 \<Rightarrow> bool \<Rightarrow> publish_pkt" where
  "tun_pkt tp msg qos r \<equiv> tun_publish_pkt tp msg qos (if r then 1 else 0)"

fun cluster_type :: "cluster_msg \<Rightarrow> u8" where
  "cluster_type (Route_Sync s) = 0"
| "cluster_type (Tun_Msg tp msg qos r) = 2"

fun cluster_payload :: "cluster_msg \<Rightarrow> bytes" where
  "cluster_payload (Route_Sync s) = bytes_of_str s @ [0]"
| "cluster_payload (Tun_Msg tp msg qos r) = packet_bytes (PUBLISH (tun_pkt tp msg qos r))"

fun cluster_events :: "cluster_msg \<Rightarrow> len_event list" where
  "cluster_events (Route_Sync s) = [On_Add_Route (s @ [NUL])]"
| "cluster_events (Tun_Msg tp msg qos r) = [On_Tun_Publish (tun_pkt tp msg qos r)]"

fun cluster_ok :: "cluster_msg \<Rightarrow> bool" where
  "cluster_ok (Route_Sync s) \<longleftrightarrow> length s < 65535"
| "cluster_ok (Tun_Msg tp msg qos r) \<longleftrightarrow> qos \<le> 2 \<and> length (packet_bytes (PUBLISH (tun_pkt tp msg qos r))) < 65536"

fun cluster_send :: "cluster_msg \<Rightarrow> bytes res" where
  "cluster_send (Route_Sync s) = send_route_sync_del_message 0 (Some s)"
| "cluster_send (Tun_Msg tp msg qos r) = send_publish_tun_message tp msg qos (if r then 1 else 0)"

definition cluster_tab :: "payload_parser option list" where
  "cluster_tab = [Some Parse_Add_Route, None, Some Parse_Tun_Publish] @ replicate 7 None"

lemma cluster_codec: "tmq_cluster_codec_init = Inr \<lparr>n_parsers = 10, payload_parsers = cluster_tab\<rparr>"
  by (simp add: tmq_cluster_codec_init_def tmq_len_based_codec_register_parser_def tmq_len_based_codec_init_def cluster_tab_def
      numeral_eq_Suc)

lemma tun_flags:
  assumes "qos \<le> (2 :: u8)"
  shows "pub_flags (tun_pkt tp msg qos r) AND 0x0F = pub_flags (tun_pkt tp msg qos r)"
proof -
  have "qos \<in> {0, 1, 2}"
  proof -
    have "unat qos \<le> 2" using assms by (simp add: word_le_nat_alt)
    then consider "unat qos = 0" | "unat qos = 1" | "unat qos = 2" by linarith
    then have "(of_nat (unat qos) :: u8) \<in> {0, 1, 2}" by cases simp_all
    then show ?thesis by simp
  qed
  then show ?thesis by (cases r) (auto simp: tun_publish_pkt_def)
qed

lemma tun_session_packet:
  "cluster_ok (Tun_Msg tp msg qos r) \<Longrightarrow> session_packet SERVER_CODEC (PUBLISH (tun_pkt tp msg qos r))"
  using tun_flags [of qos tp msg r] by (simp add: packet_bytes_def tun_publish_pkt_def)

lemma tun_small: "cluster_ok (Tun_Msg tp msg qos r) \<Longrightarrow> length (packet_body (PUBLISH (tun_pkt tp msg qos r))) < MAX_REMAIN"
  by (simp add: packet_bytes_def del: packet_body.simps)

interpretation cluster: framed cluster_tab cluster_type cluster_payload cluster_events cluster_ok
proof
  fix m rest
  assume ok: "cluster_ok m"
  show "length (cluster_payload m) < 65536" using ok by (cases m) (simp_all del: packet_body.simps)
  show "call_parser cluster_tab (cluster_type m) (length (cluster_payload m)) (cluster_payload m @ rest) =
      Inr (cluster_events m, rest)"
  proof (cases m)
    case (Route_Sync s)
    have "rd_str (length s + 1) (bytes_of_str s @ 0 # rest) = (s @ [NUL], rest)"
      using rd_str_bytes [of "s @ [NUL]" rest] by (simp add: byte_of_char_def)
    then show ?thesis using Route_Sync
      by (simp add: call_parser_def cluster_tab_def parse_add_route_message_def)
  next
    case (Tun_Msg tp msg qos r)
    then show ?thesis
      using tunnel_publish [OF tun_session_packet tun_small, of tp msg qos r "\<lambda>_ s. s" rest] ok
      by (auto simp: call_parser_def cluster_tab_def parse_tun_publish_message_def simp del: packet_body.simps)
  qed
qed

lemma vroom_rep: "vec_rep v xs \<Longrightarrow> vroom v xs 0"
  using vec_rep_cap [of v xs] by (simp add: vroom_def)

lemma header_vroom: "\<exists>k. vroom (pack_uint16 (tmq_vec_push_back tmq_base_init ty) n) (ty # be16 n) k"
proof -
  have "vroom (tmq_base_init :: packet_buf) [] 0" by (rule vroom_rep [OF vec_rep_init])
  from vroom_pack16 [OF vroom_push [OF this, of ty], of n] show ?thesis by auto
qed

lemma route_sync_written: "length s < 65535 \<Longrightarrow> send_route_sync_del_message 0 (Some s) = Inr (frame 0 (bytes_of_str s @ [0]))"
proof -
  assume l: "length s < 65535"
  then have u: "unat (of_nat (length s + 1) :: u16) = length s + 1" by (intro unat_of_nat_less) simp
  obtain k where "vroom (pack_uint16 (tmq_vec_push_back tmq_base_init 0) (of_nat (length s + 1)))
      (0 # be16 (of_nat (length s + 1))) k" using header_vroom by blast
  from vec_write_rep [OF this] show ?thesis
    by (simp only: send_route_sync_del_message_def tmq_str_len_def option.case Let_def bind_simps u frame_def)
       (simp add: frame_def)
qed

lemma set_two:
  assumes "vec_rep v (a # b # c # xs)"
  shows "vec_rep (snd (tmq_vec_set (snd (tmq_vec_set v 1 x)) 2 y)) (a # x # y # xs)"
  using vec_rep_set [OF assms, of 1 x] vec_rep_set [of "snd (tmq_vec_set v 1 x)" "a # x # c # xs" 2 y] by simp

lemma tun_publish_written:
  assumes "cluster_ok (Tun_Msg tp msg qos r)"
  shows "send_publish_tun_message tp msg qos (if r then 1 else 0) = Inr (frame 2 (packet_bytes (PUBLISH (tun_pkt tp msg qos r))))"
proof -
  let ?p = "tun_pkt tp msg qos r" and ?buf = "pack_uint16 (tmq_vec_push_back tmq_base_init 2) 0 :: packet_buf"
  let ?bytes = "packet_bytes (PUBLISH ?p)"
  have "vec_rep ?buf (2 # be16 0)" using header_vroom [of 2 0] by (auto simp: vroom_def)
  from pack_publish_append [OF tun_small [OF assms] this] obtain b where
    b: "pack_publish_packet ?buf ?p = Inr (Some b)" "vec_rep b (2 # be16 0 @ ?bytes)" by (auto simp: vroom_def)
  let ?n = "of_nat (length ?bytes) :: u16"
  have n: "tmq_vec_size b - LEN_BASED_HEADER_SIZE = length ?bytes"
    using vec_rep_length [OF b(2)] by (simp add: tmq_vec_size_def LEN_BASED_HEADER_SIZE_def)
  let ?v = "snd (tmq_vec_set (snd (tmq_vec_set b 1 (ucast (htobe16 ?n)))) 2 (ucast (drop_bit 8 (htobe16 ?n))))"
  have c: "ucast (htobe16 ?n) = (ucast (drop_bit 8 ?n) :: u8)" "ucast (drop_bit 8 (htobe16 ?n)) = (ucast ?n :: u8)"
    by (rule bit_eqI; auto simp: htobe16_def bit_simps possible_bit_def)+
  have "vec_rep ?v (2 # be16 ?n @ ?bytes)"
    using set_two [of b 2 0 0 ?bytes "ucast (htobe16 ?n)" "ucast (drop_bit 8 (htobe16 ?n))"] b(2) unfolding c
    by (simp add: be16_def)
  then have "vroom ?v (2 # be16 ?n @ ?bytes) 0" by (rule vroom_rep)
  from vec_write_rep [OF this] show ?thesis
    by (simp add: send_publish_tun_message_def b(1) n frame_def Let_def)
qed

lemma cluster_sends: "cluster_ok m \<Longrightarrow> cluster_send m = Inr (frame (cluster_type m) (cluster_payload m))"
  using route_sync_written tun_publish_written by (cases m) simp_all

fun send_all :: "('m \<Rightarrow> bytes res) \<Rightarrow> 'm list \<Rightarrow> bytes res" where
  "send_all f [] = Inr []"
| "send_all f (m # ms) = bind (f m) (\<lambda>b. bind (send_all f ms) (\<lambda>bs. Inr (b @ bs)))"

lemma send_all_ok: "(\<And>m. m \<in> set ms \<Longrightarrow> f m = Inr (g m)) \<Longrightarrow> send_all f ms = Inr (concat (map g ms))"
  by (induction ms) auto

text \<open>
  C38. Messages between cluster members arrive. Whatever route messages and tunnelled messages (up to the 16-bit length of a message) a
  member sends, its senders stay inside their buffers; and however the bytes are divided into fragments, the other member's decoder calls
  the handlers with exactly these route strings and publish packets, in order, and is then at the start of a message with an empty buffer.
\<close>

theorem cluster_messages_arrive:
  assumes "list_all cluster_ok ms" and "len_state ctx = PARSING_HEADER"
  shows "\<exists>c bs. tmq_cluster_codec_init = Inr c \<and> send_all cluster_send ms = Inr bs \<and>
    (\<forall>fs. concat fs = bs \<longrightarrow> (\<exists>ctx'. len_feed (payload_parsers c) ctx [] fs = Inr (concat (map cluster_events ms), ctx', []) \<and>
       len_state ctx' = PARSING_HEADER))"
proof -
  have "send_all cluster_send ms = Inr (concat (map (\<lambda>m. frame (cluster_type m) (cluster_payload m)) ms))"
    using assms(1) by (intro send_all_ok cluster_sends) (auto simp: list_all_iff)
  then show ?thesis using cluster.stream_delivered [OF assms(2,1)] by (simp add: cluster_codec)
qed

definition start_ctx :: len_ctx where
  "start_ctx = \<lparr>len_state = PARSING_HEADER, message_type = 0, payload_len = 0\<rparr>"

theorem cluster_messages_arrive_witness:
  "list_all cluster_ok [Route_Sync ''a/#'', Tun_Msg ''a/b'' ''hi'' 1 True] \<and>
   (\<exists>c bs. tmq_cluster_codec_init = Inr c \<and>
      send_all cluster_send [Route_Sync ''a/#'', Tun_Msg ''a/b'' ''hi'' 1 True] = Inr bs \<and>
      (\<exists>ctx'. len_feed (payload_parsers c) start_ctx [] (map (\<lambda>b. [b]) bs) =
         Inr ([On_Add_Route (''a/#'' @ [NUL]), On_Tun_Publish (tun_pkt ''a/b'' ''hi'' 1 True)], ctx', [])))"
proof -
  have ok: "list_all cluster_ok [Route_Sync ''a/#'', Tun_Msg ''a/b'' ''hi'' 1 True]"
    by (simp add: packet_bytes_def len_bytes.simps tun_publish_pkt_def)
  have s: "concat (map (\<lambda>b. [b]) bs) = bs" for bs :: bytes by (induction bs) auto
  have "len_state start_ctx = PARSING_HEADER" by (simp add: start_ctx_def)
  from cluster_messages_arrive [OF ok this] obtain c bs where h: "tmq_cluster_codec_init = Inr c"
      "send_all cluster_send [Route_Sync ''a/#'', Tun_Msg ''a/b'' ''hi'' 1 True] = Inr bs"
      "\<And>fs. concat fs = bs \<Longrightarrow> \<exists>ctx'. len_feed (payload_parsers c) start_ctx [] fs =
         Inr (concat (map cluster_events [Route_Sync ''a/#'', Tun_Msg ''a/b'' ''hi'' 1 True]), ctx', [])" by blast
  show ?thesis using ok h(1,2) h(3) [OF s] by simp blast
qed

section \<open>The administration console\<close>

lemma put_cstr_ok:
  assumes "vroom v xs k" and "length s + 1 \<le> k" and "n = length s"
  shows "\<exists>v'. put_cstr v s n = Inr v' \<and> vroom v' (xs @ bytes_of_str s @ [0]) (k - (length s + 1))"
  using vroom_store [OF assms(1), of "s @ [NUL]" 0 "map Some (bytes_of_str s @ [0])" "bytes_of_str s @ [0]"] assms(2,3)
  by (simp add: put_cstr_def)

text \<open>A header and space for the payload behind it.\<close>

lemma header_room:
  "vroom (tmq_vec_reserve (pack_uint16 (tmq_vec_push_back tmq_base_init ty) n) (LEN_BASED_HEADER_SIZE + unat n)) (ty # be16 n) (unat n)"
proof -
  have "vec_rep (pack_uint16 (tmq_vec_push_back tmq_base_init ty) n) (ty # be16 n)" using header_vroom by (auto simp: vroom_def)
  then show ?thesis by (rule vroom_reserve) (simp add: LEN_BASED_HEADER_SIZE_def)
qed

lemma char_of_byte_0 [simp]: "char_of_byte 0 = NUL"
  using char_of_byte_of_char [of NUL] by (simp add: byte_of_char_def)

definition user_payload :: "tmq_str \<times> tmq_str \<Rightarrow> bytes" where
  "user_payload m = bytes_of_str (fst m) @ 0 # bytes_of_str (snd m) @ [0]"

definition user_ok :: "tmq_str \<times> tmq_str \<Rightarrow> bool" where
  "user_ok m \<longleftrightarrow> NUL \<notin> set (fst m) \<and> NUL \<notin> set (snd m) \<and> length (fst m) + length (snd m) \<le> 126"

definition console_tab :: "payload_parser option list" where
  "console_tab = Some Parse_Add_User # replicate 9 None"

lemma console_codec: "tmq_console_codec_init = Inr \<lparr>n_parsers = 10, payload_parsers = console_tab\<rparr>"
  by (simp add: tmq_console_codec_init_def tmq_len_based_codec_register_parser_def tmq_len_based_codec_init_def console_tab_def
      numeral_eq_Suc)

lemma cstr_prefix: "NUL \<notin> set s \<Longrightarrow> cstr (s @ NUL # t) = s"
  by (induction s) (auto simp: cstr_def)

lemma add_user_parsed:
  assumes "user_ok (u, p)"
  shows "parse_add_user_message (length u + length p + 2) (user_payload (u, p) @ rest) = Inr ([On_Add_User u p], rest)"
proof -
  let ?n = "length u + length p + 2"
  have p: "str_of_bytes (user_payload (u, p)) = u @ NUL # p @ [NUL]"
    by (simp add: user_payload_def comp_def)
  have t: "take ?n (user_payload (u, p) @ rest) = user_payload (u, p)" "drop ?n (user_payload (u, p) @ rest) = rest"
    by (simp_all add: user_payload_def)
  have c: "cstr ((u @ NUL # p @ [NUL]) @ r) = u" "cstr (p @ NUL # r) = p" for r
    using assms cstr_prefix by (simp_all add: user_ok_def)
  show ?thesis unfolding parse_add_user_message_def Let_def t p c(1) using assms c(2) by (auto simp: user_ok_def)
qed

interpretation console: framed console_tab "\<lambda>_. 0" user_payload "\<lambda>(u, p). [On_Add_User u p]" user_ok
proof
  fix m rest
  assume ok: "user_ok m"
  obtain u p where m: "m = (u, p)" by (cases m)
  have l: "length (user_payload m) = length u + length p + 2" by (simp add: user_payload_def m)
  show "length (user_payload m) < 65536" using ok l by (simp add: user_ok_def m)
  show "call_parser console_tab 0 (length (user_payload m)) (user_payload m @ rest) = Inr (case m of (u, p) \<Rightarrow> [On_Add_User u p], rest)"
    using add_user_parsed [of u p rest] ok unfolding l by (simp add: call_parser_def console_tab_def m)
qed

lemma add_user_written: "user_ok (u, p) \<Longrightarrow> add_user_bytes u p = Inr (frame 0 (user_payload (u, p)))"
proof -
  assume ok: "user_ok (u, p)"
  let ?n = "of_nat (length u) + of_nat (length p) + 2 :: u16"
  have l: "length u < 65536" "length p < 65536" "length u + length p + 2 < 65536" "cstr u = u" "cstr p = p"
    using ok by (auto simp: user_ok_def)
  have n: "?n = of_nat (length u + length p + 2)" by simp
  have un: "unat ?n = length u + length p + 2" unfolding n using l(3) by (intro unat_of_nat_less) simp
  have ul: "unat (of_nat (length u) :: u16) = length u" "unat (of_nat (length p) :: u16) = length p"
    using l(1,2) u16_length(1) by auto
  let ?b = "tmq_vec_reserve (pack_uint16 (tmq_vec_push_back tmq_base_init 0) ?n) (LEN_BASED_HEADER_SIZE + unat ?n) :: packet_buf"
  obtain b1 where b1: "put_cstr ?b u (unat (of_nat (length u) :: u16)) = Inr b1"
      "vroom b1 ((0 # be16 ?n) @ bytes_of_str u @ [0]) (unat ?n - (length u + 1))"
    using put_cstr_ok [OF header_room [of 0 ?n] _ ul(1)] un by auto
  obtain b2 where b2: "put_cstr b1 p (unat (of_nat (length p) :: u16)) = Inr b2"
      "vroom b2 (((0 # be16 ?n) @ bytes_of_str u @ [0]) @ bytes_of_str p @ [0]) (unat ?n - (length u + 1) - (length p + 1))"
    using put_cstr_ok [OF b1(2) _ ul(2)] un by auto
  show ?thesis
    using vec_write_rep [OF b2(2)]
    by (simp add: add_user_bytes_def Let_def l b1(1) b2(1) frame_def user_payload_def) (simp add: add.commute)
qed

lemma writen_all: "writen rs bs = Some (True, w) \<Longrightarrow> w = bs"
proof (induction rs bs arbitrary: w rule: writen.induct)
  case (3 k rs b bs)
  then obtain w' where "writen rs (drop k (b # bs)) = Some (True, w')" "w = take k (b # bs) @ w'"
    by (auto split: if_splits option.splits)
  then show ?case using 3 by (metis append_take_drop_id option.inject prod.inject writen.simps(3))
qed auto

text \<open>A reply: success, or a failure with its reason.\<close>

definition reply_payload :: "tmq_str \<Rightarrow> tmq_str option \<Rightarrow> bytes" where
  "reply_payload u reason = (case reason of None \<Rightarrow> [] | Some r \<Rightarrow> bytes_of_str r @ [0]) @ bytes_of_str u @ [0]"

definition reply_ok :: "tmq_str \<Rightarrow> tmq_str option \<Rightarrow> bool" where
  "reply_ok u reason \<longleftrightarrow> NUL \<notin> set u \<and> (case reason of None \<Rightarrow> True | Some r \<Rightarrow> r \<noteq> [] \<and> NUL \<notin> set r) \<and>
     length (reply_payload u reason) \<le> 100"

lemma reply_written:
  assumes "reply_ok u reason"
  shows "send_user_operation_reply u reason b = Inr (frame (if b then 0 else 0x80) (reply_payload u reason))"
proof -
  let ?ty = "if b then 0 else 0x80 :: u8" and ?ul = "of_nat (length u) :: u16" and ?rl = "of_nat (tmq_str_len reason) :: u16"
  let ?n = "of_nat (length (reply_payload u reason)) :: u16"
  have len: "length (reply_payload u reason) \<le> 100" using assms by (simp add: reply_ok_def)
  then have un: "unat ?n = length (reply_payload u reason)" by (intro u16_length) simp
  have ul: "unat ?ul = length u" using len by (intro u16_length) (simp add: reply_payload_def)
  have rl: "unat ?rl = tmq_str_len reason"
    using len by (intro u16_length) (simp add: reply_payload_def tmq_str_len_def split: option.splits)
  have z: "?rl = 0 \<longleftrightarrow> reason = None"
    using assms rl by (auto simp: reply_ok_def tmq_str_len_def unat_eq_zero split: option.splits)
  have n: "(if ?rl \<noteq> 0 then ?ul + ?rl + 1 + 1 else ?ul + ?rl + 1) = ?n"
    unfolding z by (cases reason) (simp_all add: reply_payload_def tmq_str_len_def algebra_simps)
  let ?b = "tmq_vec_reserve (pack_uint16 (tmq_vec_push_back tmq_base_init ?ty) ?n) (LEN_BASED_HEADER_SIZE + unat ?n) :: packet_buf"
  have "\<exists>b1. (case reason of None \<Rightarrow> Inr ?b | Some r \<Rightarrow> put_cstr ?b r (unat ?rl)) = Inr b1 \<and>
      vroom b1 ((?ty # be16 ?n) @ (case reason of None \<Rightarrow> [] | Some r \<Rightarrow> bytes_of_str r @ [0])) (length u + 1)"
  proof (cases reason)
    case None
    then show ?thesis using header_room [of ?ty ?n] un by (simp add: reply_payload_def)
  next
    case (Some r)
    then show ?thesis using put_cstr_ok [OF header_room [of ?ty ?n], of r "unat ?rl"] un rl
      by (auto simp: reply_payload_def tmq_str_len_def)
  qed
  then obtain b1 where b1: "(case reason of None \<Rightarrow> Inr ?b | Some r \<Rightarrow> put_cstr ?b r (unat ?rl)) = Inr b1"
      "vroom b1 ((?ty # be16 ?n) @ (case reason of None \<Rightarrow> [] | Some r \<Rightarrow> bytes_of_str r @ [0])) (length u + 1)" by blast
  obtain b2 where b2: "put_cstr b1 u (unat ?ul) = Inr b2" "vroom b2 (?ty # be16 ?n @ reply_payload u reason) 0"
    using put_cstr_ok [OF b1(2) _ ul] by (auto simp: reply_payload_def)
  show ?thesis
    unfolding send_user_operation_reply_def Let_def n b1(1) using vec_write_rep [OF b2(2)] b2(1) by (simp add: frame_def)
qed

lemma readn_all: "[] \<notin> set ds \<Longrightarrow> readn (map Got ds @ rs) (length (concat ds)) = Some (True, concat ds, rs)"
proof (induction ds)
  case (Cons d ds)
  then obtain n where n: "length (concat (d # ds)) = Suc n" by (cases d) auto
  have "Suc n - length d = length (concat ds)" "take (Suc n) d = d" using n by auto
  moreover have "d \<noteq> []" using Cons.prems by auto
  ultimately show ?case using Cons n by simp
qed simp

lemma reply_text_ok:
  assumes "reply_ok u reason"
  shows "reply_text (if reason = None then 0 else 0x80) (reply_payload u reason) = Inr (case reason of
      None \<Rightarrow> ''add user ['' @ u @ ''] success'' | Some r \<Rightarrow> ''add user ['' @ u @ ''] failed, error: '' @ r)"
proof -
  have s: "str_of_bytes (reply_payload u reason) = (case reason of None \<Rightarrow> [] | Some r \<Rightarrow> r @ [NUL]) @ u @ [NUL]"
    by (simp add: reply_payload_def comp_def split: option.splits)
  show ?thesis
    using assms unfolding reply_text_def Let_def s
    by (cases reason) (auto simp: reply_ok_def cstr_prefix)
qed

lemma reply_received:
  assumes "concat hs @ concat ds = frame (if reason = None then 0 else 0x80) (reply_payload u reason)" and "length (concat hs) = 3"
    and "[] \<notin> set hs" and "[] \<notin> set ds" and "reply_ok u reason"
  shows "receive_user_operation_reply (map Got hs @ map Got ds) = Inr (Some (0,
      case reason of None \<Rightarrow> ''add user ['' @ u @ ''] success'' | Some r \<Rightarrow> ''add user ['' @ u @ ''] failed, error: '' @ r))"
proof -
  let ?ty = "if reason = None then 0 else 0x80 :: u8" and ?p = "reply_payload u reason"
  let ?n = "of_nat (length ?p) :: u16"
  have len: "length ?p \<le> 100" using assms(5) by (simp add: reply_ok_def)
  have h: "concat hs = ?ty # be16 ?n" "concat ds = ?p"
    using assms(1,2) append_eq_append_conv [of "concat hs" "?ty # be16 ?n" "concat ds" ?p] by (auto simp: frame_def)
  have n: "be_nat (be16 ?n) = length ?p" using len by (simp add: be_nat_be16_unat u16_length)
  have r: "readn (map Got hs @ map Got ds) LEN_BASED_HEADER_SIZE = Some (True, ?ty # be16 ?n, map Got ds)"
    using readn_all [OF assms(3), of "map Got ds"] assms(2) h(1) by (simp add: LEN_BASED_HEADER_SIZE_def)
  have q: "readn (map Got ds) (length ?p) = Some (True, ?p, [])"
    using readn_all [OF assms(4), of "[]"] h(2) by simp
  have t: "take 2 (drop 1 (?ty # be16 ?n)) = be16 ?n" by (simp add: be16_def)
  show ?thesis
    unfolding receive_user_operation_reply_def r option.case prod.case t n q Let_def list.sel reply_text_ok [OF assms(5)]
    using len by (simp add: LEN_BASED_HEADER_SIZE_def)
qed

text \<open>
  C39. Adding a user from the console. For a name and a password without NUL bytes that fit into the server's buffer of 128 bytes with a NUL after each, the tool
  writes one message inside its buffer (or reports an error); however it is fragmented, the server, at the start of a message, is asked to add
  exactly this user with exactly this password. If moreover the reply, which has the name and a reason that is not empty unless the user was added, has at
  most the 100 bytes the tool has room for (\<open>reply_ok\<close>), it is written inside the server's buffer, and the tool, reading it in any pieces, prints the
  name and the reason.
\<close>

theorem console_adds_user:
  assumes "user_ok (u, p)" and "len_state ctx = PARSING_HEADER"
  shows "\<exists>c bs. tmq_console_codec_init = Inr c \<and> add_user_bytes u p = Inr bs \<and>
    (\<forall>io w. send_add_user_message io u p = Inr (Some (0, w)) \<longrightarrow> w = bs) \<and>
    (\<forall>fs. concat fs = bs \<longrightarrow> (\<exists>ctx'. len_feed (payload_parsers c) ctx [] fs = Inr ([On_Add_User u p], ctx', []))) \<and>
    (reply_ok u reason \<longrightarrow> (\<exists>rs. send_user_operation_reply u reason (reason = None) = Inr rs \<and>
      (\<forall>hs ds. concat hs @ concat ds = rs \<and> length (concat hs) = 3 \<and> [] \<notin> set hs \<and> [] \<notin> set ds \<longrightarrow>
       receive_user_operation_reply (map Got hs @ map Got ds) = Inr (Some (0,
         case reason of None \<Rightarrow> ''add user ['' @ u @ ''] success'' | Some r \<Rightarrow> ''add user ['' @ u @ ''] failed, error: '' @ r)))))"
proof -
  have w: "w = frame 0 (user_payload (u, p))" if "send_add_user_message io u p = Inr (Some (0, w))" for io w
    using that writen_all
    by (auto simp: send_add_user_message_def add_user_written [OF assms(1)] split: option.splits if_splits)
  have "list_all user_ok [(u, p)]" using assms(1) by simp
  note d = console.stream_delivered [OF assms(2) this, simplified]
  have "\<exists>rs. send_user_operation_reply u reason (reason = None) = Inr rs \<and>
      (\<forall>hs ds. concat hs @ concat ds = rs \<and> length (concat hs) = 3 \<and> [] \<notin> set hs \<and> [] \<notin> set ds \<longrightarrow>
       receive_user_operation_reply (map Got hs @ map Got ds) = Inr (Some (0,
         case reason of None \<Rightarrow> ''add user ['' @ u @ ''] success'' | Some r \<Rightarrow> ''add user ['' @ u @ ''] failed, error: '' @ r)))"
    if "reply_ok u reason"
    unfolding reply_written [OF that] using reply_received [OF _ _ _ _ that] by blast
  moreover have "\<exists>ctx'. len_feed console_tab ctx [] fs = Inr ([On_Add_User u p], ctx', [])" if "concat fs = frame 0 (user_payload (u, p))" for fs
    using d [OF that] by blast
  ultimately show ?thesis unfolding console_codec add_user_written [OF assms(1)] using w by auto
qed

theorem console_adds_user_witness:
  "user_ok (''bob'', ''secret'') \<and> reply_ok ''bob'' (Some ''exists'') \<and>
   (\<exists>c bs rs. tmq_console_codec_init = Inr c \<and> add_user_bytes ''bob'' ''secret'' = Inr bs \<and>
     (\<exists>ctx'. len_feed (payload_parsers c) start_ctx [] [take 5 bs, drop 5 bs] = Inr ([On_Add_User ''bob'' ''secret''], ctx', [])) \<and>
     send_user_operation_reply ''bob'' (Some ''exists'') False = Inr rs)"
proof -
  have ok: "user_ok (''bob'', ''secret'')" "reply_ok ''bob'' (Some ''exists'')" "len_state start_ctx = PARSING_HEADER"
    by (simp_all add: user_ok_def reply_ok_def reply_payload_def start_ctx_def)
  from console_adds_user [OF ok(1,3), of "Some ''exists''"] ok(2) obtain c bs rs where h: "tmq_console_codec_init = Inr c" "add_user_bytes ''bob'' ''secret'' = Inr bs"
      "\<And>fs. concat fs = bs \<Longrightarrow> \<exists>ctx'. len_feed (payload_parsers c) start_ctx [] fs = Inr ([On_Add_User ''bob'' ''secret''], ctx', [])"
      "send_user_operation_reply ''bob'' (Some ''exists'') False = Inr rs" by auto
  have "concat [take 5 bs, drop 5 bs] = bs" by simp
  from h(3) [OF this] show ?thesis using ok h(1,2,4) by blast
qed

section \<open>What goes wrong\<close>

text \<open>A longer message overruns the server's buffer, a type without a parser calls an uninitialised pointer.\<close>

theorem long_console_message_faults: "len_feed console_tab start_ctx [] [frame 0 (replicate 200 65)] = Inl Out_Of_Bounds"
  by code_simp

theorem unregistered_message_faults:
  "len_feed console_tab start_ctx [] [frame 1 []] = Inl Uninit_Read \<and> len_feed console_tab start_ctx [] [frame 16 []] = Inl Out_Of_Bounds"
  by code_simp

text \<open>A parser with a type of ten or more is stored behind the array, which was made smaller instead of larger.\<close>

theorem register_beyond_faults:
  assumes "10 \<le> ty"
  shows "tmq_len_based_codec_register_parser tmq_len_based_codec_init ty p = Inl Out_Of_Bounds"
  using assms by (simp add: tmq_len_based_codec_register_parser_def tmq_len_based_codec_init_def)

end
