(* ===== verification/Msg_Store.thy ===== *)
theory Msg_Store
  imports Packet
begin

text \<open>
  The outgoing message store of a session, \<^verbatim>\<open>store/mqtt_msg_store.c\<close>: an intrusive linked list of
  packets of which the first ones are in flight and the rest wait (\<^verbatim>\<open>pending_pointer\<close> is the first that
  waits). The list is modelled as in the source, by nodes on a heap with \<^verbatim>\<open>next\<close> pointers, because the
  removal walks it with a pointer to the previous \<^verbatim>\<open>next\<close> field and later casts that pointer to the
  previous node (\<^verbatim>\<open>next\<close> is the first member). Reading through a pointer that is not allocated faults.

  The specification is a sliding window over a list: \<open>wq_store\<close> and \<open>wq_ack\<close>.
\<close>

record sending_packet =
  sp_next :: "addr option"
  store_timestamp :: u64
  send_time :: int
  sp_packet_id :: u16
  sp_packet :: any_packet

type_synonym packet_heap = "addr \<Rightarrow> sending_packet option"

record message_store =
  total_size :: u16
  sending_queue_head :: "addr option"
  sending_queue_tail :: "addr option"
  pending_pointer :: "addr option"

text \<open>
  The part of \<^verbatim>\<open>tmq_session_t\<close> that the store reads and writes; \<open>tmq_session\<close> extends this record.
  \<open>has_publish_finish\<close> tells whether the callback \<^verbatim>\<open>on_publish_finish\<close> is set.
\<close>

record inflight =
  inflight_window_size :: u8
  inflight_packets :: u8
  session_timestamp :: u64
  has_publish_finish :: bool

definition deref :: "packet_heap \<Rightarrow> addr \<Rightarrow> sending_packet res" where
  "deref h a = (case h a of None \<Rightarrow> Inl Use_After_Free | Some n \<Rightarrow> Inr n)"

section \<open>The store in memory\<close>

definition tmq_message_store_memory_new :: message_store where
  "tmq_message_store_memory_new =
     \<lparr>total_size = 0, sending_queue_head = None, sending_queue_tail = None, pending_pointer = None\<rparr>"

definition link_last :: "packet_heap \<Rightarrow> 'a message_store_scheme \<Rightarrow> addr \<Rightarrow>
    (packet_heap \<times> 'a message_store_scheme) res" where
  "link_last h st p =
     (case sending_queue_tail st of
        None \<Rightarrow> Inr (h, st\<lparr>sending_queue_head := Some p, sending_queue_tail := Some p\<rparr>)
      | Some t \<Rightarrow>
          bind (deref h t) (\<lambda>n. Inr (h(t \<mapsto> n\<lparr>sp_next := Some p\<rparr>), st\<lparr>sending_queue_tail := Some p\<rparr>)))"

definition memory_store_store_message ::
    "packet_heap \<Rightarrow> 'a message_store_scheme \<Rightarrow> 'b inflight_scheme \<Rightarrow> addr \<Rightarrow>
     (bool \<times> packet_heap \<times> 'a message_store_scheme \<times> 'b inflight_scheme) res" where
  "memory_store_store_message h st se p =
     bind (link_last h st p) (\<lambda>(h', st').
       let send_now = inflight_packets se < inflight_window_size se;
           se' = (if send_now then se\<lparr>inflight_packets := inflight_packets se + 1\<rparr> else se);
           st'' = (if send_now \<or> pending_pointer st' \<noteq> None then st' else st'\<lparr>pending_pointer := Some p\<rparr>)
       in Inr (send_now, h', st''\<lparr>total_size := total_size st'' + 1\<rparr>, se'))"

text \<open>
  The pointer \<^verbatim>\<open>p\<close> of the removal loop: the address of the head of the queue, or of the \<^verbatim>\<open>next\<close> field of
  a node. The cast of the latter to a node is that node; the cast of the former has the wrong type.
\<close>

datatype link = Head | Next addr

definition read_link :: "packet_heap \<Rightarrow> 'a message_store_scheme \<Rightarrow> link \<Rightarrow> addr option res" where
  "read_link h st l = (case l of Head \<Rightarrow> Inr (sending_queue_head st) | Next a \<Rightarrow> bind (deref h a) (\<lambda>n. Inr (sp_next n)))"

definition write_link :: "packet_heap \<Rightarrow> 'a message_store_scheme \<Rightarrow> link \<Rightarrow> addr option \<Rightarrow>
    (packet_heap \<times> 'a message_store_scheme) res" where
  "write_link h st l v =
     (case l of
        Head \<Rightarrow> Inr (h, st\<lparr>sending_queue_head := v\<rparr>)
      | Next a \<Rightarrow> bind (deref h a) (\<lambda>n. Inr (h(a \<mapsto> n\<lparr>sp_next := v\<rparr>), st)))"

definition link_node :: "link \<Rightarrow> addr option res" where
  "link_node l = (case l of Head \<Rightarrow> Inl Type_Confusion | Next a \<Rightarrow> Inr (Some a))"

definition acks :: "u16 \<Rightarrow> packet_type \<Rightarrow> int \<Rightarrow> u16 \<Rightarrow> any_packet \<Rightarrow> bool" where
  "acks pid ty qos i p \<longleftrightarrow> i = pid \<and> any_packet_type p = ty \<and>
     (case p of PUBLISH pkt \<Rightarrow> uint (PUBLISH_QOS (pub_flags pkt)) = qos | _ \<Rightarrow> True)"

text \<open>The loop, at most \<^verbatim>\<open>inflight_packets\<close> rounds: the link to the acknowledged packet, if any.\<close>

fun find_acked :: "packet_heap \<Rightarrow> 'a message_store_scheme \<Rightarrow> u16 \<Rightarrow> packet_type \<Rightarrow> int \<Rightarrow> link \<Rightarrow> nat \<Rightarrow>
    (link \<times> addr \<times> sending_packet) option res" where
  "find_acked h st pid ty qos l 0 = bind (read_link h st l) (\<lambda>_. Inr None)"
| "find_acked h st pid ty qos l (Suc k) =
     bind (read_link h st l) (\<lambda>p.
       case p of
         None \<Rightarrow> Inr None
       | Some a \<Rightarrow>
           bind (deref h a) (\<lambda>n.
             if acks pid ty qos (sp_packet_id n) (sp_packet n) then Inr (Some (l, a, n))
             else find_acked h st pid ty qos (Next a) k))"

definition unlink :: "packet_heap \<Rightarrow> 'a message_store_scheme \<Rightarrow> link \<Rightarrow> addr \<Rightarrow> sending_packet \<Rightarrow>
    (packet_heap \<times> 'a message_store_scheme) res" where
  "unlink h st l a n =
     bind (write_link h st l (sp_next n)) (\<lambda>(h1, st1).
     bind (if sending_queue_tail st1 = Some a then
             (if sending_queue_head st1 \<noteq> None
              then bind (link_node l) (\<lambda>t. Inr (st1\<lparr>sending_queue_tail := t\<rparr>))
              else Inr (st1\<lparr>sending_queue_tail := None\<rparr>))
           else Inr st1) (\<lambda>st2.
     Inr (h1(a := None), st2\<lparr>total_size := total_size st2 - 1\<rparr>)))"

definition advance_pending :: "int \<Rightarrow> packet_heap \<Rightarrow> 'a message_store_scheme \<Rightarrow> 'b inflight_scheme \<Rightarrow>
    (addr option \<times> packet_heap \<times> 'a message_store_scheme \<times> 'b inflight_scheme) res" where
  "advance_pending now h st se =
     (case pending_pointer st of
        None \<Rightarrow> Inr (None, h, st, se)
      | Some p \<Rightarrow>
          bind (deref h p) (\<lambda>n.
            Inr (Some p, h(p \<mapsto> n\<lparr>send_time := now\<rparr>), st\<lparr>pending_pointer := sp_next n\<rparr>,
                 se\<lparr>inflight_packets := inflight_packets se + 1\<rparr>)))"

text \<open>
  The result: the packet to send next, and the calls of \<^verbatim>\<open>on_publish_finish\<close> as pairs of packet
  identifier and QoS.
\<close>

definition publish_finished :: "'b inflight_scheme \<Rightarrow> int \<Rightarrow> sending_packet \<Rightarrow> (u16 \<times> int) list" where
  "publish_finished se qos n =
     (case sp_packet n of
        PUBLISH pkt \<Rightarrow> (if has_publish_finish se then [(packet_id pkt, qos)] else [])
      | _ \<Rightarrow> [])"

definition memory_store_acknowledge ::
    "int \<Rightarrow> packet_heap \<Rightarrow> 'a message_store_scheme \<Rightarrow> 'b inflight_scheme \<Rightarrow> u16 \<Rightarrow> packet_type \<Rightarrow> int \<Rightarrow>
     (addr option \<times> (u16 \<times> int) list \<times> packet_heap \<times> 'a message_store_scheme \<times> 'b inflight_scheme) res" where
  "memory_store_acknowledge now h st se pid ty qos =
     bind (find_acked h st pid ty qos Head (unat (inflight_packets se))) (\<lambda>r.
       case r of
         None \<Rightarrow> Inr (None, [], h, st, se)
       | Some (l, a, n) \<Rightarrow>
           bind (unlink h st l a n) (\<lambda>(h', st').
           bind (advance_pending now h' st' (se\<lparr>inflight_packets := inflight_packets se - 1\<rparr>)) (\<lambda>(nx, h'', st'', se').
           Inr (nx, publish_finished se qos n, h'', st'', se'))))"

section \<open>The sliding window\<close>

type_synonym content = "u16 \<times> any_packet"

definition wq_store :: "nat \<Rightarrow> content list \<Rightarrow> content \<Rightarrow> bool \<times> content list" where
  "wq_store w q x = (length q < w, q @ [x])"

fun drop_first :: "('a \<Rightarrow> bool) \<Rightarrow> 'a list \<Rightarrow> ('a \<times> 'a list) option" where
  "drop_first P [] = None"
| "drop_first P (x # xs) =
     (if P x then Some (x, xs) else map_option (\<lambda>(y, ys). (y, x # ys)) (drop_first P xs))"

text \<open>An acknowledgement removes the first match within the window; the window moves on by one.\<close>

definition wq_ack :: "nat \<Rightarrow> content list \<Rightarrow> (content \<Rightarrow> bool) \<Rightarrow> (content \<times> content option \<times> content list) option" where
  "wq_ack w q P =
     (case drop_first P (take w q) of
        None \<Rightarrow> None
      | Some (x, ys) \<Rightarrow> Some (x, if w < length q then Some (q ! w) else None, ys @ drop w q))"

section \<open>List segments\<close>

fun lseg :: "packet_heap \<Rightarrow> addr option \<Rightarrow> addr list \<Rightarrow> addr option \<Rightarrow> bool" where
  "lseg h p [] q \<longleftrightarrow> p = q"
| "lseg h p (a # as) q \<longleftrightarrow> p = Some a \<and> (\<exists>n. h a = Some n \<and> lseg h (sp_next n) as q)"

lemma lseg_append: "lseg h p (xs @ ys) q \<longleftrightarrow> (\<exists>r. lseg h p xs r \<and> lseg h r ys q)"
  by (induction xs arbitrary: p) auto

lemma lseg_frame [simp]: "a \<notin> set xs \<Longrightarrow> lseg (h(a := v)) p xs q = lseg h p xs q"
  by (induction xs arbitrary: p) auto

lemma lseg_functional: "lseg h p xs q \<Longrightarrow> lseg h p xs r \<Longrightarrow> q = r"
  by (induction xs arbitrary: p) auto

lemma lseg_alloc: "lseg h p xs q \<Longrightarrow> a \<in> set xs \<Longrightarrow> \<exists>n. h a = Some n"
  by (induction xs arbitrary: p) auto

lemma lseg_head: "lseg h p xs q \<Longrightarrow> xs \<noteq> [] \<Longrightarrow> p = Some (hd xs)"
  by (cases xs) auto

definition node_content :: "packet_heap \<Rightarrow> addr \<Rightarrow> content" where
  "node_content h a = (sp_packet_id (the (h a)), sp_packet (the (h a)))"

lemma node_content_upd: "a \<noteq> b \<Longrightarrow> node_content (h(b := v)) a = node_content h a"
  by (simp add: node_content_def)

lemma map_content_upd [simp]: "b \<notin> set xs \<Longrightarrow> map (node_content (h(b := v))) xs = map (node_content h) xs"
  by (induction xs) (auto simp: node_content_upd)

section \<open>The list represents the window\<close>

definition window :: "'b inflight_scheme \<Rightarrow> nat" where
  "window se = unat (inflight_window_size se)"

text \<open>
  The queue holds the nodes \<open>as\<close>; the first \<open>window\<close> of them are in flight, and \<^verbatim>\<open>pending_pointer\<close> is the
  first of the others.
\<close>

definition queue_rel :: "packet_heap \<Rightarrow> 'a message_store_scheme \<Rightarrow> 'b inflight_scheme \<Rightarrow> addr list \<Rightarrow> bool" where
  "queue_rel h st se as \<longleftrightarrow>
     lseg h (sending_queue_head st) as None \<and> distinct as \<and>
     sending_queue_tail st = (if as = [] then None else Some (last as)) \<and>
     unat (inflight_packets se) = min (window se) (length as) \<and>
     pending_pointer st = (if window se < length as then Some (as ! window se) else None)"

lemma window_upd [simp]: "window (se\<lparr>inflight_packets := i\<rparr>) = window se"
  by (simp add: window_def)

lemma window_less: "window se < 256"
  using unsigned_less [of "inflight_window_size se"] by (simp add: window_def)

lemma inflight_less:
  "queue_rel h st se as \<Longrightarrow> inflight_packets se < inflight_window_size se \<longleftrightarrow> length as < window se"
  by (auto simp: queue_rel_def word_less_nat_alt window_def min_def)

lemma link_last_rel:
  assumes "lseg h (sending_queue_head st) as None" and "distinct as"
    and "sending_queue_tail st = (if as = [] then None else Some (last as))"
    and "h p = Some n" and "sp_next n = None" and "p \<notin> set as"
  shows "\<exists>h' hd'. link_last h st p = Inr (h', st\<lparr>sending_queue_head := hd', sending_queue_tail := Some p\<rparr>) \<and>
    lseg h' hd' (as @ [p]) None \<and> map (node_content h') (as @ [p]) = map (node_content h) (as @ [p]) \<and>
    (\<forall>a. a \<notin> set as \<longrightarrow> h' a = h a)"
proof (cases as rule: rev_cases)
  case Nil
  then show ?thesis using assms by (simp add: link_last_def)
next
  case (snoc bs b)
  then obtain m where m: "h b = Some m" "lseg h (sending_queue_head st) bs (Some b)"
    using assms(1) by (auto simp: lseg_append)
  let ?h = "h(b \<mapsto> m\<lparr>sp_next := Some p\<rparr>)"
  have "link_last h st p = Inr (?h, st\<lparr>sending_queue_head := sending_queue_head st, sending_queue_tail := Some p\<rparr>)"
    using assms(3) snoc m by (simp add: link_last_def deref_def)
  moreover have "lseg ?h (sending_queue_head st) (as @ [p]) None"
    using assms m snoc by (auto simp: lseg_append)
  moreover have "map (node_content ?h) (as @ [p]) = map (node_content h) (as @ [p])"
    using assms(2,6) snoc m by (auto simp: node_content_def)
  ultimately show ?thesis using snoc by fastforce
qed

lemma memory_store_rel:
  assumes "queue_rel h st se as" and "h p = Some n" and "sp_next n = None" and "p \<notin> set as"
  shows "\<exists>h' st' se'. memory_store_store_message h st se p = Inr (length as < window se, h', st', se') \<and>
    queue_rel h' st' se' (as @ [p]) \<and> map (node_content h') (as @ [p]) = map (node_content h) (as @ [p]) \<and>
    (\<forall>a. a \<notin> set as \<longrightarrow> h' a = h a) \<and> total_size st' = total_size st + 1 \<and>
    message_store.more st' = message_store.more st \<and> se' = se\<lparr>inflight_packets := inflight_packets se'\<rparr>"
proof -
  obtain h' hd' where l: "link_last h st p = Inr (h', st\<lparr>sending_queue_head := hd', sending_queue_tail := Some p\<rparr>)"
      "lseg h' hd' (as @ [p]) None" "map (node_content h') (as @ [p]) = map (node_content h) (as @ [p])"
      "\<forall>a. a \<notin> set as \<longrightarrow> h' a = h a"
    using link_last_rel [of h st as p n] assms by (auto simp: queue_rel_def)
  let ?now = "length as < window se"
  let ?st = "(st\<lparr>sending_queue_head := hd', sending_queue_tail := Some p\<rparr>)
      \<lparr>pending_pointer := if ?now \<or> pending_pointer st \<noteq> None then pending_pointer st else Some p,
       total_size := total_size st + 1\<rparr>"
  let ?se = "se\<lparr>inflight_packets := if ?now then inflight_packets se + 1 else inflight_packets se\<rparr>"
  have "memory_store_store_message h st se p = Inr (?now, h', ?st, ?se)"
    using inflight_less [OF assms(1)] by (auto simp: memory_store_store_message_def l(1) Let_def)
  moreover have "unat (inflight_packets se + 1) = Suc (unat (inflight_packets se))" if ?now
    using that inflight_less [OF assms(1)] unat_Suc_less by blast
  then have "queue_rel h' ?st ?se (as @ [p])"
    using assms(1,4) l(2) by (auto simp: queue_rel_def nth_append min_def)
  ultimately show ?thesis using l(3,4) by auto
qed

section \<open>Acknowledgements\<close>

abbreviation acked :: "u16 \<Rightarrow> packet_type \<Rightarrow> int \<Rightarrow> content \<Rightarrow> bool" where
  "acked pid ty qos \<equiv> \<lambda>(i, p). acks pid ty qos i p"

lemma drop_first_None: "drop_first P xs = None \<longleftrightarrow> (\<forall>x\<in>set xs. \<not> P x)"
  by (induction xs) auto

lemma drop_first_append:
  "(\<forall>x\<in>set xs. \<not> P x) \<Longrightarrow> P y \<Longrightarrow> drop_first P (xs @ y # ys) = Some (y, xs @ ys)"
  by (induction xs) auto

lemma find_acked_spec:
  assumes "read_link h st l = Inr p" and "lseg h p xs None"
  shows "find_acked h st pid ty qos l k = Inr None \<and>
      (\<forall>a\<in>set (take k xs). \<not> acked pid ty qos (node_content h a)) \<or>
    (\<exists>ys a zs n. xs = ys @ a # zs \<and> length ys < k \<and>
      (\<forall>b\<in>set ys. \<not> acked pid ty qos (node_content h b)) \<and>
      h a = Some n \<and> acked pid ty qos (node_content h a) \<and>
      find_acked h st pid ty qos l k = Inr (Some (if ys = [] then l else Next (last ys), a, n)))"
  using assms
proof (induction k arbitrary: l p xs)
  case (Suc k)
  show ?case
  proof (cases xs)
    case Nil
    then show ?thesis using Suc.prems by simp
  next
    case (Cons a as)
    then obtain n where n: "p = Some a" "h a = Some n" "lseg h (sp_next n) as None" using Suc.prems(2) by auto
    have c: "node_content h a = (sp_packet_id n, sp_packet n)" using n(2) by (simp add: node_content_def)
    show ?thesis
    proof (cases "acks pid ty qos (sp_packet_id n) (sp_packet n)")
      case True
      then show ?thesis using Suc.prems(1) Cons n c
        by (intro disjI2 exI [of _ "[]"]) (simp add: deref_def)
    next
      case False
      have r: "read_link h st (Next a) = Inr (sp_next n)" using n(2) by (simp add: read_link_def deref_def)
      have e: "find_acked h st pid ty qos l (Suc k) = find_acked h st pid ty qos (Next a) k"
        using Suc.prems(1) n False by (simp add: deref_def)
      show ?thesis using Suc.IH [OF r n(3)]
      proof
        assume "find_acked h st pid ty qos (Next a) k = Inr None \<and>
          (\<forall>a\<in>set (take k as). \<not> acked pid ty qos (node_content h a))"
        then show ?thesis using e Cons False c by simp
      next
        assume "\<exists>ys b zs m. as = ys @ b # zs \<and> length ys < k \<and>
          (\<forall>b\<in>set ys. \<not> acked pid ty qos (node_content h b)) \<and> h b = Some m \<and>
          acked pid ty qos (node_content h b) \<and>
          find_acked h st pid ty qos (Next a) k = Inr (Some (if ys = [] then Next a else Next (last ys), b, m))"
        then obtain ys b zs m where y: "as = ys @ b # zs" "length ys < k"
            "\<forall>b\<in>set ys. \<not> acked pid ty qos (node_content h b)" "h b = Some m"
            "acked pid ty qos (node_content h b)"
            "find_acked h st pid ty qos (Next a) k = Inr (Some (if ys = [] then Next a else Next (last ys), b, m))"
          by (elim exE conjE) (rule that)
        have "find_acked h st pid ty qos l (Suc k) = Inr (Some (if a # ys = [] then l else Next (last (a # ys)), b, m))"
          using e y(6) by simp
        moreover have "\<forall>b\<in>set (a # ys). \<not> acked pid ty qos (node_content h b)"
          using y(3) False c by simp
        ultimately show ?thesis using Cons y(1,2,4,5)
          by (intro disjI2 exI [of _ "a # ys"] exI [of _ b] exI [of _ zs] exI [of _ m] conjI)
             (simp_all only: append.simps length_Cons Suc_less_eq)
      qed
    qed
  qed
qed (simp add: read_link_def)

lemma unlink_rel:
  assumes "lseg h (sending_queue_head st) (ys @ a # zs) None" and d: "distinct (ys @ a # zs)"
    and t: "sending_queue_tail st = Some (last (a # zs))" and n: "h a = Some n"
    and l: "l = (if ys = [] then Head else Next (last ys))"
  shows "\<exists>h' st'. unlink h st l a n = Inr (h', st') \<and> lseg h' (sending_queue_head st') (ys @ zs) None \<and>
    sending_queue_tail st' = (if ys @ zs = [] then None else Some (last (ys @ zs))) \<and>
    pending_pointer st' = pending_pointer st \<and> total_size st' = total_size st - 1 \<and>
    message_store.more st' = message_store.more st \<and>
    map (node_content h') (ys @ zs) = map (node_content h) (ys @ zs) \<and>
    (\<forall>b. b \<notin> set (ys @ a # zs) \<longrightarrow> h' b = h b)"
proof -
  have zs: "lseg h (sp_next n) zs None" and ys: "lseg h (sending_queue_head st) ys (Some a)"
    using assms(1) n by (auto simp: lseg_append)
  have az: "last (a # zs) = a \<longleftrightarrow> zs = []" using d by (auto dest: last_in_set)
  have nx: "sp_next n = None \<longleftrightarrow> zs = []" using zs by (cases zs) auto
  show ?thesis
  proof (cases ys rule: rev_cases)
    case Nil
    then show ?thesis
      using zs d t az nx by (auto simp: unlink_def l write_link_def Let_def node_content_def)
  next
    case (snoc bs b)
    obtain m where m: "h b = Some m" "lseg h (sending_queue_head st) bs (Some b)"
      using ys snoc by (auto simp: lseg_append)
    have hd: "sending_queue_head st \<noteq> None" using m(2) by (cases bs) auto
    let ?h = "(h(b \<mapsto> m\<lparr>sp_next := sp_next n\<rparr>))(a := None)"
    let ?st = "st\<lparr>sending_queue_tail := if zs = [] then Some b else sending_queue_tail st, total_size := total_size st - 1\<rparr>"
    have u: "unlink h st l a n = Inr (?h, ?st)"
      using snoc l m t az hd by (auto simp: unlink_def write_link_def deref_def link_node_def)
    have s: "lseg ?h (sending_queue_head st) (ys @ zs) None"
      using m zs d snoc by (auto simp: lseg_append)
    have c: "map (node_content ?h) (ys @ zs) = map (node_content h) (ys @ zs)"
      using d snoc m(1) by (auto simp: node_content_def)
    show ?thesis using u s c t snoc by (intro exI [of _ ?h] exI [of _ ?st]) auto
  qed
qed

text \<open>
  After the removal the window has one free place: the queue holds \<open>as\<close> and \<open>w - 1\<close> packets are in
  flight (or all, if fewer); \<^verbatim>\<open>pending_pointer\<close> is the packet to send next.
\<close>

lemma advance_rel:
  assumes seg: "lseg h (sending_queue_head st) as None" and d: "distinct as"
    and t: "sending_queue_tail st = (if as = [] then None else Some (last as))"
    and w: "window se = Suc w" and i: "unat (inflight_packets se) = min w (length as)"
    and p: "pending_pointer st = (if w < length as then Some (as ! w) else None)"
  shows "\<exists>h' st' se'. advance_pending now h st se =
      Inr (if w < length as then Some (as ! w) else None, h', st', se') \<and> queue_rel h' st' se' as \<and>
    map (node_content h') as = map (node_content h) as \<and> (\<forall>b. b \<notin> set as \<longrightarrow> h' b = h b) \<and>
    total_size st' = total_size st \<and> message_store.more st' = message_store.more st \<and>
    se' = se\<lparr>inflight_packets := inflight_packets se'\<rparr>"
proof (cases "w < length as")
  case False
  then have "pending_pointer st = None" using p by simp
  moreover have "queue_rel h st se as" using seg d t w i p False by (simp add: queue_rel_def)
  ultimately show ?thesis using False by (simp add: advance_pending_def)
next
  case True
  let ?us = "take w as" and ?a = "as ! w" and ?vs = "drop (Suc w) as"
  have as: "as = ?us @ ?a # ?vs" using True by (simp add: id_take_nth_drop)
  obtain n where n: "h ?a = Some n" "lseg h (sending_queue_head st) ?us (Some ?a)" "lseg h (sp_next n) ?vs None"
    using seg by (subst (asm) as) (auto simp: lseg_append)
  let ?h = "h(?a \<mapsto> n\<lparr>send_time := now\<rparr>)"
  let ?st = "st\<lparr>pending_pointer := sp_next n\<rparr>"
  let ?se = "se\<lparr>inflight_packets := inflight_packets se + 1\<rparr>"
  have "?a \<notin> set ?us" "?a \<notin> set ?vs" using d as by (metis disjoint_iff distinct_append list.set_intros(1), metis distinct.simps(2) distinct_append)
  then have s: "lseg ?h (sending_queue_head st) as None"
    by (subst as) (use n in \<open>auto simp: lseg_append\<close>)
  have "inflight_packets se < inflight_window_size se"
    using i w by (simp add: word_less_nat_alt window_def min_def split: if_splits)
  then have "unat (inflight_packets se + 1) = Suc w" using i True by (simp add: unat_Suc_less)
  moreover have "sp_next n = (if Suc w < length as then Some (as ! Suc w) else None)"
    using n(3) lseg_head [OF n(3)] by (auto simp: hd_drop_conv_nth)
  ultimately have "queue_rel ?h ?st ?se as" using s d t w True by (simp add: queue_rel_def)
  moreover have "map (node_content ?h) as = map (node_content h) as"
    using n(1) by (auto simp: node_content_def)
  moreover have "advance_pending now h st se = Inr (Some ?a, ?h, ?st, ?se)"
    using p True n(1) by (simp add: advance_pending_def deref_def)
  ultimately show ?thesis using True by (intro exI [of _ ?h] exI [of _ ?st] exI [of _ ?se]) auto
qed

lemma memory_ack_none:
  assumes "queue_rel h st se as"
    and "wq_ack (window se) (map (node_content h) as) (acked pid ty qos) = None"
  shows "memory_store_acknowledge now h st se pid ty qos = Inr (None, [], h, st, se)"
proof -
  let ?k = "unat (inflight_packets se)"
  have k: "take ?k as = take (window se) as" using assms(1) by (simp add: queue_rel_def min_def)
  have no: "\<forall>a\<in>set (take ?k as). \<not> acked pid ty qos (node_content h a)"
    using assms(2) by (auto simp: wq_ack_def drop_first_None take_map k split: option.splits)
  have seg: "lseg h (sending_queue_head st) as None" using assms(1) by (simp add: queue_rel_def)
  have "find_acked h st pid ty qos Head ?k = Inr None"
    using find_acked_spec [OF _ seg, of st Head pid ty qos ?k] no
    by (auto simp: read_link_def take_Cons')
  then show ?thesis by (simp add: memory_store_acknowledge_def)
qed

lemma memory_ack_some:
  assumes q: "queue_rel h st se as"
    and a: "wq_ack (window se) (map (node_content h) as) (acked pid ty qos) = Some (x, y, q')"
  shows "\<exists>nx fin h' st' se' as'. memory_store_acknowledge now h st se pid ty qos = Inr (nx, fin, h', st', se') \<and>
    queue_rel h' st' se' as' \<and> map (node_content h') as' = q' \<and> map_option (node_content h') nx = y \<and>
    set as' \<subseteq> set as \<and> set_option nx \<subseteq> set as' \<and>
    (\<forall>b. b \<notin> set as \<longrightarrow> h' b = h b) \<and> total_size st' = total_size st - 1 \<and>
    message_store.more st' = message_store.more st \<and> se' = se\<lparr>inflight_packets := inflight_packets se'\<rparr> \<and>
    fin = (case snd x of PUBLISH pkt \<Rightarrow> if has_publish_finish se then [(packet_id pkt, qos)] else [] | _ \<Rightarrow> [])"
proof -
  let ?k = "unat (inflight_packets se)" and ?P = "acked pid ty qos" and ?c = "node_content h"
  have seg: "lseg h (sending_queue_head st) as None" and d: "distinct as"
    and t: "sending_queue_tail st = (if as = [] then None else Some (last as))"
    and k: "?k = min (window se) (length as)"
    and pp: "pending_pointer st = (if window se < length as then Some (as ! window se) else None)"
    using q by (simp_all add: queue_rel_def)
  have tk: "take ?k as = take (window se) as" using k by (simp add: min_def)
  have "drop_first ?P (map ?c (take ?k as)) \<noteq> None"
    using a by (auto simp: wq_ack_def take_map tk split: option.splits)
  then have "\<not> (\<forall>b\<in>set (take ?k as). \<not> ?P (?c b))" by (auto simp: drop_first_None)
  then obtain ys b zs n where f: "as = ys @ b # zs" "length ys < ?k" "\<forall>c\<in>set ys. \<not> ?P (?c c)"
      "h b = Some n" "?P (?c b)"
      "find_acked h st pid ty qos Head ?k = Inr (Some (if ys = [] then Head else Next (last ys), b, n))"
    using find_acked_spec [OF _ seg, of st Head pid ty qos ?k] by (auto simp: read_link_def)
  obtain w where w: "window se = Suc w" using f(2) k by (cases "window se") auto
  have ly: "length ys \<le> w" using f(2) k w by simp
  have "take (window se) as = ys @ b # take (w - length ys) zs"
    using f(1) w ly by (simp add: Suc_diff_le)
  then have "drop_first ?P (take (window se) (map ?c as)) = Some (?c b, map ?c ys @ map ?c (take (w - length ys) zs))"
    using f(3,5) by (simp add: take_map drop_first_append del: case_prod_conv split: prod.splits)
  then have x: "x = ?c b" and q': "q' = map ?c (ys @ zs)"
    and y: "y = (if window se < length as then Some (?c (as ! window se)) else None)"
    using a f(1) w ly by (auto simp: wq_ack_def drop_map Suc_diff_le simp flip: map_append)
  obtain h1 st1 where u: "unlink h st (if ys = [] then Head else Next (last ys)) b n = Inr (h1, st1)"
      "lseg h1 (sending_queue_head st1) (ys @ zs) None"
      "sending_queue_tail st1 = (if ys @ zs = [] then None else Some (last (ys @ zs)))"
      "pending_pointer st1 = pending_pointer st" "total_size st1 = total_size st - 1"
      "message_store.more st1 = message_store.more st"
      "map (node_content h1) (ys @ zs) = map ?c (ys @ zs)" "\<forall>c. c \<notin> set (ys @ b # zs) \<longrightarrow> h1 c = h c"
    using unlink_rel [of h st ys b zs n] seg d t f(1,4) by auto
  let ?se = "se\<lparr>inflight_packets := inflight_packets se - 1\<rparr>"
  have "inflight_packets se \<noteq> 0" using f(2) by auto
  then have i: "unat (inflight_packets ?se) = min w (length (ys @ zs))"
    using k w f(1) by (simp add: unat_minus_one)
  have p1: "pending_pointer st1 = (if w < length (ys @ zs) then Some ((ys @ zs) ! w) else None)"
    using pp u(4) f(1) w ly by (simp add: nth_append Suc_diff_le)
  have d1: "distinct (ys @ zs)" using d f(1) by auto
  obtain h2 st2 se2 where v: "advance_pending now h1 st1 ?se =
      Inr (if w < length (ys @ zs) then Some ((ys @ zs) ! w) else None, h2, st2, se2)"
      "queue_rel h2 st2 se2 (ys @ zs)" "map (node_content h2) (ys @ zs) = map (node_content h1) (ys @ zs)"
      "\<forall>b. b \<notin> set (ys @ zs) \<longrightarrow> h2 b = h1 b" "total_size st2 = total_size st1"
      "message_store.more st2 = message_store.more st1" "se2 = ?se\<lparr>inflight_packets := inflight_packets se2\<rparr>"
    using advance_rel [OF u(2) d1 u(3) _ i p1, of now] w by auto
  have "memory_store_acknowledge now h st se pid ty qos =
      Inr (if w < length (ys @ zs) then Some ((ys @ zs) ! w) else None, publish_finished se qos n, h2, st2, se2)"
    using f(6) u(1) v(1) by (simp add: memory_store_acknowledge_def)
  moreover have "map_option (node_content h2) (if w < length (ys @ zs) then Some ((ys @ zs) ! w) else None) = y"
  proof -
    have "node_content h2 ((ys @ zs) ! w) = ?c ((ys @ zs) ! w)" if "w < length (ys @ zs)"
      using v(3) u(7) nth_map [OF that] by metis
    then show ?thesis using y f(1) w ly by (auto simp: nth_append Suc_diff_le)
  qed
  moreover have "publish_finished se qos n =
      (case snd x of PUBLISH pkt \<Rightarrow> if has_publish_finish se then [(packet_id pkt, qos)] else [] | _ \<Rightarrow> [])"
    using x f(4) by (simp add: publish_finished_def node_content_def)
  moreover have "set_option (if w < length (ys @ zs) then Some ((ys @ zs) ! w) else None) \<subseteq> set (ys @ zs)"
    using nth_mem [of w "ys @ zs"] by (cases "w < length (ys @ zs)") (simp_all only: if_True if_False option.set insert_subset empty_subsetI simp_thms)
  ultimately show ?thesis using v(2-7) u(5-8) q' f(1)
    by (intro exI conjI) (assumption | force)+
qed

section \<open>Runs of the store\<close>

text \<open>
  A step stores a packet in a freshly allocated node (\<^verbatim>\<open>sending_packet_new\<close> of the session), or handles
  an acknowledgement. The event tells what was stored and whether the caller is to send it now;
  whether a packet was removed, and what the caller is to send next.
\<close>

definition sending_packet_new :: "any_packet \<Rightarrow> u16 \<Rightarrow> u64 \<Rightarrow> sending_packet" where
  "sending_packet_new p i ts =
     \<lparr>sp_next = None, store_timestamp = ts, send_time = 0, sp_packet_id = i, sp_packet = p\<rparr>"

datatype store_event = Ev_Store content bool | Ev_Ack bool "content option"

type_synonym store_config = "packet_heap \<times> message_store \<times> inflight"

inductive store_step :: "store_config \<Rightarrow> store_event \<Rightarrow> store_config \<Rightarrow> bool" where
  step_store: "h a = None \<Longrightarrow>
    memory_store_store_message (h(a \<mapsto> sending_packet_new p i ts)) st se a = Inr (send_now, h', st', se') \<Longrightarrow>
    store_step (h, st, se) (Ev_Store (i, p) send_now) (h', st', se')"
| step_ack: "memory_store_acknowledge now h st se pid ty qos = Inr (nx, fin, h', st', se') \<Longrightarrow>
    store_step (h, st, se)
      (Ev_Ack (total_size st' \<noteq> total_size st) (map_option (node_content h') nx)) (h', st', se')"

inductive_cases store_stepE [consumes 1, case_names store ack]: "store_step (h, st, se) e c'"

inductive store_run :: "u8 \<Rightarrow> store_event list \<Rightarrow> store_config \<Rightarrow> bool" for w :: u8 where
  run_init: "inflight_window_size se = w \<Longrightarrow> inflight_packets se = 0 \<Longrightarrow>
    store_run w [] (Map.empty, tmq_message_store_memory_new, se)"
| run_step: "store_run w tr c \<Longrightarrow> store_step c e c' \<Longrightarrow> store_run w (tr @ [e]) c'"

fun stored :: "store_event list \<Rightarrow> content list" where
  "stored [] = []"
| "stored (Ev_Store x _ # tr) = x # stored tr"
| "stored (Ev_Ack _ _ # tr) = stored tr"

fun sent :: "store_event list \<Rightarrow> content list" where
  "sent [] = []"
| "sent (Ev_Store x now # tr) = (if now then x # sent tr else sent tr)"
| "sent (Ev_Ack _ y # tr) = (case y of None \<Rightarrow> sent tr | Some x \<Rightarrow> x # sent tr)"

fun removed :: "store_event list \<Rightarrow> nat" where
  "removed [] = 0"
| "removed (Ev_Store _ _ # tr) = removed tr"
| "removed (Ev_Ack r _ # tr) = (if r then Suc (removed tr) else removed tr)"

lemma trace_append [simp]:
  "stored (tr @ tr') = stored tr @ stored tr'" "removed (tr @ tr') = removed tr + removed tr'"
  "sent (tr @ tr') = sent tr @ sent tr'"
  by (induction tr rule: stored.induct) (simp_all split: option.splits)

definition run_inv :: "nat \<Rightarrow> store_event list \<Rightarrow> store_config \<Rightarrow> addr list \<Rightarrow> bool" where
  "run_inv w tr = (\<lambda>(h, st, se) as.
     queue_rel h st se as \<and> window se = w \<and> length (stored tr) = removed tr + length as \<and>
     drop w (map (node_content h) as) = drop (removed tr + w) (stored tr) \<and>
     sent tr = take (removed tr + w) (stored tr))"

lemma run_inv_store:
  assumes "run_inv w tr (h, st, se) as" and "h a = None"
  shows "\<exists>h' st' se'. memory_store_store_message (h(a \<mapsto> sending_packet_new p i ts)) st se a =
      Inr (length as < w, h', st', se') \<and>
    run_inv w (tr @ [Ev_Store (i, p) (length as < w)]) (h', st', se') (as @ [a])"
proof -
  let ?h = "h(a \<mapsto> sending_packet_new p i ts)"
  have inv: "queue_rel h st se as" "window se = w" "length (stored tr) = removed tr + length as"
      "drop w (map (node_content h) as) = drop (removed tr + w) (stored tr)"
      "sent tr = take (removed tr + w) (stored tr)"
    using assms(1) by (simp_all add: run_inv_def)
  have a: "a \<notin> set as" using inv(1) assms(2) lseg_alloc by (fastforce simp: queue_rel_def)
  then have "queue_rel ?h st se as" using inv(1) by (simp add: queue_rel_def)
  from memory_store_rel [OF this, of a "sending_packet_new p i ts"] a inv(2)
  obtain h' st' se' where s: "memory_store_store_message ?h st se a = Inr (length as < w, h', st', se')"
      "queue_rel h' st' se' (as @ [a])" "map (node_content h') (as @ [a]) = map (node_content ?h) (as @ [a])"
      "se' = se\<lparr>inflight_packets := inflight_packets se'\<rparr>"
    by (auto simp: sending_packet_new_def)
  have "window se' = w" using s(4) inv(2) by (metis window_upd)
  moreover have "map (node_content h') (as @ [a]) = map (node_content h) as @ [(i, p)]"
    using s(3) a by (simp add: node_content_def sending_packet_new_def)
  then have "drop w (map (node_content h') (as @ [a])) = drop (removed tr + w) (stored tr @ [(i, p)])"
    using inv(3,4) by (simp only: drop_append length_map) simp
  ultimately show ?thesis using s(1,2) inv(3,5) by (auto simp: run_inv_def)
qed

lemma wq_ack_trace:
  assumes "wq_ack w q P = Some (x, y, q')" and "drop w q = drop (r + w) s" and "length s = r + length q"
  shows "length q = Suc (length q')" and "drop w q' = drop (Suc r + w) s"
    and "take (r + w) s @ (case y of None \<Rightarrow> [] | Some z \<Rightarrow> [z]) = take (Suc r + w) s"
proof -
  obtain ys where d: "drop_first P (take w q) = Some (x, ys)" and q': "q' = ys @ drop w q"
    and y: "y = (if w < length q then Some (q ! w) else None)"
    using assms(1) by (auto simp: wq_ack_def split: option.splits)
  have len: "drop_first P zs = Some (x, ys) \<Longrightarrow> length zs = Suc (length ys)" for zs ys
    by (induction zs arbitrary: ys) (auto split: if_splits)
  have l: "Suc (length ys) = min w (length q)" using len [OF d] by (simp add: min.commute)
  then show "length q = Suc (length q')" using q' by (auto simp: min_def split: if_splits)
  have "drop w q' = drop 1 (drop w q)"
    using l q' by (auto simp: min_def split: if_splits)
  then show "drop w q' = drop (Suc r + w) s" using assms(2) by (simp add: drop_drop add.commute)
  show "take (r + w) s @ (case y of None \<Rightarrow> [] | Some z \<Rightarrow> [z]) = take (Suc r + w) s"
  proof (cases "w < length q")
    case True
    then have "q ! w = s ! (r + w)" using assms(2,3) by (metis Cons_nth_drop_Suc add_less_cancel_left list.inject)
    then show ?thesis using True y assms(3) by (simp add: take_Suc_conv_app_nth)
  qed (use y assms(3) in simp)
qed

lemma run_inv_ack:
  assumes "run_inv w tr (h, st, se) as"
  shows "\<exists>nx fin h' st' se' as'. memory_store_acknowledge now h st se pid ty qos = Inr (nx, fin, h', st', se') \<and>
    run_inv w (tr @ [Ev_Ack (total_size st' \<noteq> total_size st) (map_option (node_content h') nx)]) (h', st', se') as'"
proof -
  let ?q = "map (node_content h) as"
  have inv: "queue_rel h st se as" "window se = w" "length (stored tr) = removed tr + length as"
      "drop w ?q = drop (removed tr + w) (stored tr)" "sent tr = take (removed tr + w) (stored tr)"
    using assms by (simp_all add: run_inv_def)
  show ?thesis
  proof (cases "wq_ack w ?q (acked pid ty qos)")
    case None
    then show ?thesis using memory_ack_none [OF inv(1)] inv by (auto simp: run_inv_def)
  next
    case (Some r)
    obtain x y q' where r: "r = (x, y, q')" by (cases r)
    note t = wq_ack_trace [OF Some [unfolded r] inv(4)]
    obtain nx fin h' st' se' as' where s:
        "memory_store_acknowledge now h st se pid ty qos = Inr (nx, fin, h', st', se')"
        "queue_rel h' st' se' as'" "map (node_content h') as' = q'" "map_option (node_content h') nx = y"
        "total_size st' = total_size st - 1" "se' = se\<lparr>inflight_packets := inflight_packets se'\<rparr>"
      using memory_ack_some [OF inv(1), of pid ty qos x y q' now] Some inv(2) r by auto
    have "window se' = w" using s(6) inv(2) by (metis window_upd)
    moreover have "total_size st' \<noteq> total_size st" using s(5) by simp
    moreover have "length as' = length q'" using s(3) by (metis length_map)
    moreover have "sent [Ev_Ack True y] = (case y of None \<Rightarrow> [] | Some z \<Rightarrow> [z])"
      by (simp split: option.splits)
    ultimately show ?thesis using s t inv(3,5)
      by (intro exI [of _ nx] exI [of _ fin] exI [of _ h'] exI [of _ st'] exI [of _ se'] exI [of _ as'])
         (simp add: run_inv_def del: sent.simps)
  qed
qed

lemma store_run_inv: "store_run w tr c \<Longrightarrow> \<exists>as. run_inv (unat w) tr c as"
proof (induction rule: store_run.induct)
  case (run_init se)
  then show ?case
    by (intro exI [of _ "[]"]) (simp add: run_inv_def queue_rel_def tmq_message_store_memory_new_def window_def)
next
  case (run_step tr c e c')
  then obtain as where as: "run_inv (unat w) tr c as" by blast
  obtain h st se where c: "c = (h, st, se)" by (cases c)
  from run_step.hyps(2) [unfolded c] show ?case
  proof (cases rule: store_stepE)
    case (store a p i ts send_now h' st' se')
    then show ?thesis using run_inv_store [of "unat w" tr h st se as a p i ts] as c by auto
  next
    case (ack now pid ty qos nx fin h' st' se')
    then show ?thesis using run_inv_ack [of "unat w" tr h st se as now pid ty qos] as c by auto
  qed
qed

section \<open>Properties\<close>

text \<open>
  C8. Outgoing messages keep their order. In every run of the store from its creation, whatever packets
  are stored and whatever acknowledgements arrive, the packets handed out for their first
  transmission are exactly the first ones stored, each once and in the order of storing: as many as
  have been acknowledged plus the inflight window. The counter of packets in flight is the number of
  stored and unacknowledged packets, cut off at the window size.
\<close>

theorem messages_sent_once_in_order:
  assumes "store_run w tr (h, st, se)"
  shows "sent tr = take (removed tr + unat w) (stored tr) \<and>
    unat (inflight_packets se) = min (unat w) (length (stored tr) - removed tr)"
  using store_run_inv [OF assms] by (auto simp: run_inv_def queue_rel_def)

text \<open>
  C9. The linked list implements the sliding window and never goes wrong: in every reachable state a
  further store or acknowledgement returns without touching freed memory and without the cast of a
  pointer to the queue head; storing appends and asks for immediate transmission exactly when the
  window has room; an acknowledgement removes the first packet in flight that has the identifier,
  type and QoS, and then hands out the first waiting packet; any other changes nothing.
\<close>

theorem message_store_refines_window:
  assumes "store_run w tr (h, st, se)"
  shows "\<exists>as. lseg h (sending_queue_head st) as None \<and>
    (h a = None \<longrightarrow> (\<exists>h' st' se'. memory_store_store_message (h(a \<mapsto> sending_packet_new p i ts)) st se a =
        Inr (fst (wq_store (unat w) (map (node_content h) as) (i, p)), h', st', se') \<and>
      lseg h' (sending_queue_head st') (as @ [a]) None \<and>
      map (node_content h') (as @ [a]) = snd (wq_store (unat w) (map (node_content h) as) (i, p)))) \<and>
    (case wq_ack (unat w) (map (node_content h) as) (acked pid ty qos) of
       None \<Rightarrow> memory_store_acknowledge now h st se pid ty qos = Inr (None, [], h, st, se)
     | Some (x, y, q) \<Rightarrow> \<exists>nx fin h' st' se' as'.
         memory_store_acknowledge now h st se pid ty qos = Inr (nx, fin, h', st', se') \<and>
         lseg h' (sending_queue_head st') as' None \<and> map (node_content h') as' = q \<and>
         map_option (node_content h') nx = y)"
proof -
  obtain as where as: "queue_rel h st se as" "window se = unat w"
    using store_run_inv [OF assms] by (auto simp: run_inv_def)
  have "\<exists>h' st' se'. memory_store_store_message (h(a \<mapsto> sending_packet_new p i ts)) st se a =
        Inr (fst (wq_store (unat w) (map (node_content h) as) (i, p)), h', st', se') \<and>
      lseg h' (sending_queue_head st') (as @ [a]) None \<and>
      map (node_content h') (as @ [a]) = snd (wq_store (unat w) (map (node_content h) as) (i, p))"
    if "h a = None"
  proof -
    have a: "a \<notin> set as" using as(1) that lseg_alloc by (fastforce simp: queue_rel_def)
    then have "queue_rel (h(a \<mapsto> sending_packet_new p i ts)) st se as" using as(1) by (simp add: queue_rel_def)
    from memory_store_rel [OF this, of a "sending_packet_new p i ts"] a show ?thesis
      by (auto simp: queue_rel_def as(2) wq_store_def node_content_def sending_packet_new_def)
  qed
  moreover have "\<exists>nx fin h' st' se' as'.
         memory_store_acknowledge now h st se pid ty qos = Inr (nx, fin, h', st', se') \<and>
         lseg h' (sending_queue_head st') as' None \<and> map (node_content h') as' = q \<and>
         map_option (node_content h') nx = y"
    if "wq_ack (unat w) (map (node_content h) as) (acked pid ty qos) = Some (x, y, q)" for x y q
    using memory_ack_some [OF as(1), of pid ty qos x y q now] that as(2) by (fastforce simp: queue_rel_def)
  ultimately show ?thesis
    using memory_ack_none [OF as(1)] as
    by (intro exI [of _ as]) (auto simp: queue_rel_def split: option.splits)
qed

definition example_se :: "u8 \<Rightarrow> inflight" where
  "example_se i = \<lparr>inflight_window_size = 1, inflight_packets = i, session_timestamp = 0, has_publish_finish = False\<rparr>"

definition example_heap :: packet_heap where
  "example_heap =
     (Map.empty(1 := None))(2 \<mapsto> (sending_packet_new (PUBREL 8) 8 0)\<lparr>send_time := 5\<rparr>)"

definition example_store :: message_store where
  "example_store = \<lparr>total_size = 1, sending_queue_head = Some 2, sending_queue_tail = Some 2, pending_pointer = None\<rparr>"

lemma example_run:
  "store_run 1 [Ev_Store (7, PUBREL 7) True, Ev_Store (8, PUBREL 8) False, Ev_Ack True (Some (8, PUBREL 8))]
     (example_heap, example_store, example_se 1)"
proof -
  let ?n1 = "sending_packet_new (PUBREL 7) 7 0" and ?n2 = "sending_packet_new (PUBREL 8) 8 0"
  let ?st1 = "\<lparr>total_size = 1, sending_queue_head = Some 1, sending_queue_tail = Some 1, pending_pointer = None\<rparr>"
  let ?st2 = "\<lparr>total_size = 2, sending_queue_head = Some 1, sending_queue_tail = Some 2, pending_pointer = Some 2\<rparr>"
  let ?h2 = "(Map.empty(1 \<mapsto> ?n1))(2 \<mapsto> ?n2, 1 \<mapsto> ?n1\<lparr>sp_next := Some 2\<rparr>)"
  note d = memory_store_store_message_def link_last_def tmq_message_store_memory_new_def example_se_def deref_def
    memory_store_acknowledge_def read_link_def write_link_def link_node_def unlink_def advance_pending_def
    sending_packet_new_def acks_def publish_finished_def example_heap_def example_store_def node_content_def
  have "store_run 1 [] (Map.empty, tmq_message_store_memory_new, example_se 0)"
    by (rule run_init) (simp_all add: example_se_def)
  moreover have "store_step (Map.empty, tmq_message_store_memory_new, example_se 0) (Ev_Store (7, PUBREL 7) True)
      (Map.empty(1 \<mapsto> ?n1), ?st1, example_se 1)"
    by (rule step_store [where a = 1 and ts = 0]) (simp_all add: d)
  ultimately have "store_run 1 ([] @ [Ev_Store (7, PUBREL 7) True]) (Map.empty(1 \<mapsto> ?n1), ?st1, example_se 1)"
    by (rule run_step)
  moreover have "store_step (Map.empty(1 \<mapsto> ?n1), ?st1, example_se 1) (Ev_Store (8, PUBREL 8) False) (?h2, ?st2, example_se 1)"
    by (rule step_store [where a = 2 and ts = 0]) (simp_all add: d)
  ultimately have "store_run 1 (([] @ [Ev_Store (7, PUBREL 7) True]) @ [Ev_Store (8, PUBREL 8) False]) (?h2, ?st2, example_se 1)"
    by (rule run_step)
  moreover have "memory_store_acknowledge 5 ?h2 ?st2 (example_se 1) 7 MQTT_PUBREL (- 1) =
      Inr (Some 2, [], example_heap, example_store, example_se 1)"
    by (simp add: d fun_upd_twist)
  then have "store_step (?h2, ?st2, example_se 1)
      (Ev_Ack (total_size example_store \<noteq> total_size ?st2) (map_option (node_content example_heap) (Some 2)))
      (example_heap, example_store, example_se 1)"
    by (rule step_ack)
  then have "store_step (?h2, ?st2, example_se 1) (Ev_Ack True (Some (8, PUBREL 8))) (example_heap, example_store, example_se 1)"
    by (simp add: d)
  ultimately show ?thesis using run_step by fastforce
qed

theorem messages_sent_once_in_order_witness:
  "unat (inflight_packets (example_se 1)) = 1"
  using messages_sent_once_in_order [OF example_run] by simp

theorem message_store_refines_window_witness:
  "\<exists>nx fin h' st' se' as'. lseg example_heap (Some 2) [2] None \<and>
     memory_store_acknowledge 6 example_heap example_store (example_se 1) 8 MQTT_PUBREL (- 1) =
       Inr (nx, fin, h', st', se') \<and>
     lseg h' (sending_queue_head st') as' None \<and> map (node_content h') as' = []"
proof -
  have as: "as = [2]" if "lseg example_heap (Some 2) as None" for as
    using that by (cases as; cases "List.tl as") (auto simp: example_heap_def sending_packet_new_def)
  have hd: "sending_queue_head example_store = Some 2" by (simp add: example_store_def)
  have ack: "wq_ack (unat (1 :: u8)) (map (node_content example_heap) [2]) (acked 8 MQTT_PUBREL (- 1)) =
      Some ((8, PUBREL 8), None, [])"
    by (simp add: wq_ack_def node_content_def example_heap_def sending_packet_new_def acks_def)
  obtain as where l: "lseg example_heap (Some 2) as None"
    and c: "case wq_ack (unat (1 :: u8)) (map (node_content example_heap) as) (acked 8 MQTT_PUBREL (- 1)) of
       None \<Rightarrow> memory_store_acknowledge 6 example_heap example_store (example_se 1) 8 MQTT_PUBREL (- 1) =
         Inr (None, [], example_heap, example_store, example_se 1)
     | Some (x, y, q) \<Rightarrow> \<exists>nx fin h' st' se' as'.
         memory_store_acknowledge 6 example_heap example_store (example_se 1) 8 MQTT_PUBREL (- 1) =
           Inr (nx, fin, h', st', se') \<and>
         lseg h' (sending_queue_head st') as' None \<and> map (node_content h') as' = q \<and>
         map_option (node_content h') nx = y"
    using message_store_refines_window [OF example_run, where pid = 8 and ty = MQTT_PUBREL and qos = "- 1" and now = 6]
    unfolding hd by blast
  show ?thesis using l c unfolding as [OF l] ack by auto
qed

end
