(* ===== verification/Mongo_Store.thy ===== *)
theory Mongo_Store
  imports Msg_Store
begin

text \<open>
  The message store that spills to MongoDB, the second half of \<^verbatim>\<open>store/mqtt_msg_store.c\<close>. Its record
  extends the one in memory by a buffer list and six state bits. The jobs it hands to the thread
  pool are values (\<open>db_task\<close>); their completions \<open>store_message_done\<close> and \<open>fetch_message_done\<close> are
  operations, the latter with what the database returned. The database itself is not modelled:
  the nodes of a fetch result are in the heap argument.
\<close>

record mongodb_store = message_store +
  buffer_queue_head :: "addr option"
  buffer_queue_tail :: link
  trigger :: u16
  buffer_size :: u16
  states :: u8

datatype db_task = Store_Task "addr option" u16 | Fetch_Task nat

section \<open>State bits\<close>

definition HAS_BUFFERED_MESSAGES :: "u8 \<Rightarrow> bool" where "HAS_BUFFERED_MESSAGES s \<longleftrightarrow> s AND 0x01 \<noteq> 0"
definition SET_BUFFERED_MESSAGES :: "u8 \<Rightarrow> u8" where "SET_BUFFERED_MESSAGES s = s OR 0x01"
definition CLEAR_BUFFERED_MESSAGES :: "u8 \<Rightarrow> u8" where "CLEAR_BUFFERED_MESSAGES s = s AND NOT 0x01"
definition HAS_STORED_MESSAGES :: "u8 \<Rightarrow> bool" where "HAS_STORED_MESSAGES s \<longleftrightarrow> s AND 0x02 \<noteq> 0"
definition SET_STORED_MESSAGES :: "u8 \<Rightarrow> u8" where "SET_STORED_MESSAGES s = s OR 0x02"
definition CLEAR_STORED_MESSAGES :: "u8 \<Rightarrow> u8" where "CLEAR_STORED_MESSAGES s = s AND NOT 0x02"
definition STORING :: "u8 \<Rightarrow> bool" where "STORING s \<longleftrightarrow> s AND 0x04 \<noteq> 0"
definition SET_STORING :: "u8 \<Rightarrow> u8" where "SET_STORING s = s OR 0x04"
definition CLEAR_STORING :: "u8 \<Rightarrow> u8" where "CLEAR_STORING s = s AND NOT 0x04"
definition FETCHING :: "u8 \<Rightarrow> bool" where "FETCHING s \<longleftrightarrow> s AND 0x08 \<noteq> 0"
definition SET_FETCHING :: "u8 \<Rightarrow> u8" where "SET_FETCHING s = s OR 0x08"
definition CLEAR_FETCHING :: "u8 \<Rightarrow> u8" where "CLEAR_FETCHING s = s AND NOT 0x08"
definition NEED_STORE :: "u8 \<Rightarrow> bool" where "NEED_STORE s \<longleftrightarrow> s AND 0x10 \<noteq> 0"
definition SET_NEED_STORE :: "u8 \<Rightarrow> u8" where "SET_NEED_STORE s = s OR 0x10"
definition CLEAR_NEED_STORE :: "u8 \<Rightarrow> u8" where "CLEAR_NEED_STORE s = s AND NOT 0x10"
definition NEED_FETCH :: "u8 \<Rightarrow> bool" where "NEED_FETCH s \<longleftrightarrow> s AND 0x20 \<noteq> 0"
definition SET_NEED_FETCH :: "u8 \<Rightarrow> u8" where "SET_NEED_FETCH s = s OR 0x20"
definition CLEAR_NEED_FETCH :: "u8 \<Rightarrow> u8" where "CLEAR_NEED_FETCH s = s AND NOT 0x20"

lemmas flag_defs =
  HAS_BUFFERED_MESSAGES_def SET_BUFFERED_MESSAGES_def CLEAR_BUFFERED_MESSAGES_def
  HAS_STORED_MESSAGES_def SET_STORED_MESSAGES_def CLEAR_STORED_MESSAGES_def
  STORING_def SET_STORING_def CLEAR_STORING_def FETCHING_def SET_FETCHING_def CLEAR_FETCHING_def
  NEED_STORE_def SET_NEED_STORE_def CLEAR_NEED_STORE_def NEED_FETCH_def SET_NEED_FETCH_def CLEAR_NEED_FETCH_def

section \<open>Operations\<close>

definition tmq_message_store_mongodb_new :: "u16 \<Rightarrow> mongodb_store" where
  "tmq_message_store_mongodb_new trig =
     \<lparr>total_size = 0, sending_queue_head = None, sending_queue_tail = None, pending_pointer = None,
      buffer_queue_head = None, buffer_queue_tail = Head, trigger = trig, buffer_size = 0, states = 0\<rparr>"

definition initiate_storing_task :: "mongodb_store \<Rightarrow> db_task \<times> mongodb_store" where
  "initiate_storing_task st =
     (Store_Task (buffer_queue_head st) (buffer_size st),
      st\<lparr>total_size := total_size st - buffer_size st, buffer_size := 0,
         buffer_queue_head := None, buffer_queue_tail := Head,
         states := SET_STORED_MESSAGES (SET_STORING (CLEAR_NEED_STORE (states st)))\<rparr>)"

definition initiate_fetching_task :: "mongodb_store \<Rightarrow> db_task \<times> mongodb_store" where
  "initiate_fetching_task st =
     (Fetch_Task 50, st\<lparr>states := CLEAR_NEED_FETCH (SET_FETCHING (states st))\<rparr>)"

definition store_message_done :: "mongodb_store \<Rightarrow> db_task list \<times> mongodb_store" where
  "store_message_done st =
     (let st1 = st\<lparr>states := CLEAR_STORING (states st)\<rparr>
      in if NEED_STORE (states st1) then (let (t, st2) = initiate_storing_task st1 in ([t], st2))
         else if NEED_FETCH (states st1) then (let (t, st2) = initiate_fetching_task st1 in ([t], st2))
         else ([], st1))"

text \<open>
  \<^verbatim>\<open>use_buffered_messages\<close> casts the address of the last \<^verbatim>\<open>next\<close> field to a node.
\<close>

definition use_buffered_messages :: "mongodb_store \<Rightarrow> mongodb_store res" where
  "use_buffered_messages st =
     bind (link_node (buffer_queue_tail st)) (\<lambda>t.
       Inr (st\<lparr>sending_queue_head := buffer_queue_head st, sending_queue_tail := t, pending_pointer := None,
               buffer_queue_head := None, buffer_queue_tail := Head, buffer_size := 0,
               states := CLEAR_BUFFERED_MESSAGES (states st)\<rparr>))"

text \<open>
  \<^verbatim>\<open>continue_send_messages\<close>: the loop runs while a packet is left and the window has room, which is at
  most \<open>k\<close> rounds for \<open>k\<close> free places. Every packet is cloned as a PUBLISH.
\<close>

fun continue_loop :: "packet_heap \<Rightarrow> addr option \<Rightarrow> u8 \<Rightarrow> nat \<Rightarrow> (any_packet list \<times> addr option \<times> u8) res" where
  "continue_loop h None i k = Inr ([], None, i)"
| "continue_loop h (Some a) i 0 = Inr ([], Some a, i)"
| "continue_loop h (Some a) i (Suc k) =
     bind (deref h a) (\<lambda>n.
       case sp_packet n of
         PUBLISH pkt \<Rightarrow>
           bind (continue_loop h (sp_next n) (i + 1) k) (\<lambda>(sends, p, i').
             Inr (PUBLISH (tmq_publish_pkt_clone pkt) # sends, p, i'))
       | _ \<Rightarrow> Inl Type_Confusion)"

definition continue_send_messages :: "packet_heap \<Rightarrow> mongodb_store \<Rightarrow> 'b inflight_scheme \<Rightarrow>
    (any_packet list \<times> mongodb_store \<times> 'b inflight_scheme) res" where
  "continue_send_messages h st se =
     bind (continue_loop h (sending_queue_head st) (inflight_packets se)
             (unat (inflight_window_size se) - unat (inflight_packets se))) (\<lambda>(sends, p, i).
       Inr (sends, if p \<noteq> None then st\<lparr>pending_pointer := p\<rparr> else st, se\<lparr>inflight_packets := i\<rparr>))"

record fetch_result =
  n_messages :: nat
  messages_head :: "addr option"
  messages_tail :: "addr option"

definition take_fetched :: "packet_heap \<Rightarrow> mongodb_store \<Rightarrow> 'b inflight_scheme \<Rightarrow> fetch_result \<Rightarrow>
    (any_packet list \<times> mongodb_store \<times> 'b inflight_scheme) res" where
  "take_fetched h st se r =
     (if n_messages r > 0 then
        continue_send_messages h
          (st\<lparr>total_size := total_size st + of_nat (n_messages r),
              sending_queue_head := messages_head r, sending_queue_tail := messages_tail r,
              pending_pointer := None\<rparr>) se
      else
        let st1 = st\<lparr>states := CLEAR_STORED_MESSAGES (states st)\<rparr>
        in if buffer_size st1 > 0
           then bind (use_buffered_messages st1) (\<lambda>st2. continue_send_messages h st2 se)
           else Inr ([], st1\<lparr>states := CLEAR_BUFFERED_MESSAGES (states st1)\<rparr>, se))"

definition next_task :: "mongodb_store \<Rightarrow> db_task list \<times> mongodb_store" where
  "next_task st =
     (if NEED_STORE (states st) then
        if buffer_size st > 0 then (let (t, st') = initiate_storing_task st in ([t], st'))
        else ([], st\<lparr>states := CLEAR_NEED_STORE (states st)\<rparr>)
      else if NEED_FETCH (states st) then (let (t, st') = initiate_fetching_task st in ([t], st'))
      else ([], st))"

definition fetch_message_done :: "packet_heap \<Rightarrow> mongodb_store \<Rightarrow> 'b inflight_scheme \<Rightarrow> fetch_result \<Rightarrow>
    (any_packet list \<times> db_task list \<times> mongodb_store \<times> 'b inflight_scheme) res" where
  "fetch_message_done h st se r =
     bind (take_fetched h (st\<lparr>states := CLEAR_FETCHING (states st)\<rparr>) se r) (\<lambda>(sends, st1, se1).
       let (tasks, st2) = next_task st1 in Inr (sends, tasks, st2, se1))"

definition write_buffer_tail :: "packet_heap \<Rightarrow> mongodb_store \<Rightarrow> addr \<Rightarrow> (packet_heap \<times> mongodb_store) res" where
  "write_buffer_tail h st p =
     (case buffer_queue_tail st of
        Head \<Rightarrow> Inr (h, st\<lparr>buffer_queue_head := Some p\<rparr>)
      | Next a \<Rightarrow> bind (deref h a) (\<lambda>n. Inr (h(a \<mapsto> n\<lparr>sp_next := Some p\<rparr>), st)))"

definition mongodb_store_store_message :: "packet_heap \<Rightarrow> mongodb_store \<Rightarrow> 'b inflight_scheme \<Rightarrow> addr \<Rightarrow>
    (bool \<times> db_task list \<times> packet_heap \<times> mongodb_store \<times> 'b inflight_scheme) res" where
  "mongodb_store_store_message h st se p =
     bind (deref h p) (\<lambda>n.
       let h1 = h(p \<mapsto> n\<lparr>store_timestamp := session_timestamp se\<rparr>);
           se1 = se\<lparr>session_timestamp := session_timestamp se + 1\<rparr>
       in if unat (total_size st) < unat (trigger st) div 2 \<and> \<not> HAS_BUFFERED_MESSAGES (states st) \<or>
             any_packet_type (sp_packet n) = MQTT_PUBREL
          then bind (memory_store_store_message h1 st se1 p) (\<lambda>(send_now, h2, st2, se2).
                 Inr (send_now, [], h2, st2, se2))
          else bind (write_buffer_tail h1 (st\<lparr>total_size := total_size st + 1, buffer_size := buffer_size st + 1\<rparr>) p)
                 (\<lambda>(h2, st2).
                   let st3 = st2\<lparr>buffer_queue_tail := Next p, states := SET_BUFFERED_MESSAGES (states st2)\<rparr>
                   in if total_size st3 \<ge> trigger st3 then
                        if FETCHING (states st3) \<or> STORING (states st3)
                        then Inr (False, [], h2, st3\<lparr>states := SET_NEED_STORE (states st3)\<rparr>, se1)
                        else (let (t, st4) = initiate_storing_task st3 in Inr (False, [t], h2, st4, se1))
                      else Inr (False, [], h2, st3, se1)))"

definition mongodb_store_acknowledge :: "int \<Rightarrow> packet_heap \<Rightarrow> mongodb_store \<Rightarrow> 'b inflight_scheme \<Rightarrow>
    u16 \<Rightarrow> packet_type \<Rightarrow> int \<Rightarrow>
    (addr option \<times> (u16 \<times> int) list \<times> any_packet list \<times> db_task list \<times>
     packet_heap \<times> mongodb_store \<times> 'b inflight_scheme) res" where
  "mongodb_store_acknowledge now h st se pid ty qos =
     bind (memory_store_acknowledge now h st se pid ty qos) (\<lambda>(nx, fin, h1, st1, se1).
       if total_size st1 = buffer_size st1 \<and> HAS_BUFFERED_MESSAGES (states st1) then
         if HAS_STORED_MESSAGES (states st1) then
           if FETCHING (states st1) \<or> STORING (states st1)
           then Inr (nx, fin, [], [], h1, st1\<lparr>states := SET_NEED_FETCH (states st1)\<rparr>, se1)
           else (let (t, st2) = initiate_fetching_task st1 in Inr (nx, fin, [], [t], h1, st2, se1))
         else
           bind (use_buffered_messages st1) (\<lambda>st2.
           bind (continue_send_messages h1 st2 se1) (\<lambda>(sends, st3, se3).
             Inr (nx, fin, sends, [], h1, st3, se3)))
       else Inr (nx, fin, [], [], h1, st1, se1))"

section \<open>What a completed fetch does to the sending queue\<close>

lemma continue_send_queue:
  "continue_send_messages h st se = Inr (sends, st', se') \<Longrightarrow>
   sending_queue_head st' = sending_queue_head st \<and> sending_queue_tail st' = sending_queue_tail st"
  by (auto simp: continue_send_messages_def bind_eq_Inr split: if_splits prod.splits)

lemma initiate_queue [simp]:
  "sending_queue_head (snd (initiate_storing_task st)) = sending_queue_head st"
  "sending_queue_head (snd (initiate_fetching_task st)) = sending_queue_head st"
  by (simp_all add: initiate_storing_task_def initiate_fetching_task_def)

lemma next_task_queue [simp]: "sending_queue_head (snd (next_task st)) = sending_queue_head st"
  by (simp add: next_task_def Let_def split_beta)

text \<open>
  A fetch that returns messages replaces the sending queue. A PUBREL that was put there while the
  fetch was running (the answer to the PUBREC that emptied the queue and so started the fetch) is no
  longer in any list.
\<close>

theorem fetch_replaces_sending_queue:
  assumes "fetch_message_done h st se r = Inr (sends, tasks, st', se')" and "n_messages r > 0"
  shows "sending_queue_head st' = messages_head r"
  using assms
  by (auto simp: fetch_message_done_def take_fetched_def bind_eq_Inr split_beta simp flip: One_nat_def
      dest!: continue_send_queue)

definition pubrel_waiting :: mongodb_store where
  "pubrel_waiting = (tmq_message_store_mongodb_new 10)
     \<lparr>total_size := 1, sending_queue_head := Some 1, sending_queue_tail := Some 1, states := 0x0B\<rparr>"

definition fetched_heap :: packet_heap where
  "fetched_heap = [1 \<mapsto> sending_packet_new (PUBREL 7) 7 0,
     2 \<mapsto> sending_packet_new (PUBLISH \<lparr>pub_flags = 2, topic = ''t'', packet_id = 9, payload = ''m''\<rparr>) 9 0]"

theorem fetch_replaces_sending_queue_witness:
  "\<exists>sends tasks st' se'.
     fetch_message_done fetched_heap pubrel_waiting (example_se 0)
       \<lparr>n_messages = 1, messages_head = Some 2, messages_tail = Some 2\<rparr> = Inr (sends, tasks, st', se') \<and>
     total_size st' = 2 \<and> lseg fetched_heap (sending_queue_head st') [2] None"
proof -
  let ?r = "\<lparr>n_messages = 1, messages_head = Some 2, messages_tail = Some 2\<rparr>"
  obtain sends tasks st' se' where f:
    "fetch_message_done fetched_heap pubrel_waiting (example_se 0) ?r = Inr (sends, tasks, st', se')" "total_size st' = 2"
    by (simp add: fetch_message_done_def take_fetched_def next_task_def pubrel_waiting_def tmq_message_store_mongodb_new_def example_se_def
        continue_send_messages_def fetched_heap_def deref_def sending_packet_new_def flag_defs Let_def numeral_eq_Suc)
  have "sending_queue_head st' = Some 2" using fetch_replaces_sending_queue [OF f(1)] by simp
  then show ?thesis using f by (auto simp: fetched_heap_def sending_packet_new_def)
qed

end
