(* ===== verification/Session.thy ===== *)
theory Session
  imports Mongo_Store Topic_Tree
begin

text \<open>
  Sessions, \<^verbatim>\<open>mqtt/mqtt_session.c\<close>. The record extends \<open>inflight\<close>; \<^verbatim>\<open>session->message_store\<close> with its two
  function pointers is the datatype \<open>any_store\<close>. The nodes of the store live on the heap of the
  session; \<^verbatim>\<open>malloc\<close> returns the next unused address. Packets written to the connection and calls into
  the broker or the client are events, in the order in which they happen. The time of \<^verbatim>\<open>time_now()\<close> is
  an argument.
\<close>

datatype session_state = OPEN | CLOSED

datatype any_store = Memory_Store message_store | Mongodb_Store mongodb_store

record tmq_session = inflight +
  s_client_id :: tmq_str
  s_username :: tmq_str
  s_will_topic :: "tmq_str option"
  s_will_message :: "tmq_str option"
  s_will_qos :: u8
  s_will_retain :: u8
  s_conn :: nat
  has_on_close :: bool
  s_store :: any_store
  s_heap :: packet_heap
  next_addr :: addr
  last_pkt_ts :: int
  next_packet_id :: u16
  s_keep_alive :: u16
  s_state :: session_state
  s_clean_session :: u8
  io_context_idx :: u8
  subscriptions :: "(tmq_str, u8) alist"
  qos2_packet_ids :: "(u32, u8) alist"

datatype session_event =
    Send any_packet
  | Publish_Finish u16 int
  | New_Message tmq_str mqtt_message bool tmq_str tmq_str
  | Broker_Subscribe tmq_str subscribe_pkt
  | Broker_Unsubscribe tmq_str unsubscribe_pkt
  | Client_Suback suback_pkt
  | Client_Unsuback u16
  | Task db_task
  | Conn_Release nat
  | On_Close bool

section \<open>The calls through the store's function pointers\<close>

definition store_message :: "tmq_session \<Rightarrow> addr \<Rightarrow> (bool \<times> session_event list \<times> tmq_session) res" where
  "store_message s a =
     (case s_store s of
        Memory_Store st \<Rightarrow>
          bind (memory_store_store_message (s_heap s) st s a) (\<lambda>(now, h, st', s').
            Inr (now, [], s'\<lparr>s_heap := h, s_store := Memory_Store st'\<rparr>))
      | Mongodb_Store st \<Rightarrow>
          bind (mongodb_store_store_message (s_heap s) st s a) (\<lambda>(now, ts, h, st', s').
            Inr (now, map Task ts, s'\<lparr>s_heap := h, s_store := Mongodb_Store st'\<rparr>)))"

definition acknowledge_and_next :: "int \<Rightarrow> tmq_session \<Rightarrow> u16 \<Rightarrow> packet_type \<Rightarrow> int \<Rightarrow>
    (addr option \<times> session_event list \<times> tmq_session) res" where
  "acknowledge_and_next now s pid ty qos =
     (case s_store s of
        Memory_Store st \<Rightarrow>
          bind (memory_store_acknowledge now (s_heap s) st s pid ty qos) (\<lambda>(nx, fin, h, st', s').
            Inr (nx, map (\<lambda>(i, q). Publish_Finish i q) fin, s'\<lparr>s_heap := h, s_store := Memory_Store st'\<rparr>))
      | Mongodb_Store st \<Rightarrow>
          bind (mongodb_store_acknowledge now (s_heap s) st s pid ty qos) (\<lambda>(nx, fin, sends, ts, h, st', s').
            Inr (nx, map (\<lambda>(i, q). Publish_Finish i q) fin @ map Send sends @ map Task ts,
                 s'\<lparr>s_heap := h, s_store := Mongodb_Store st'\<rparr>)))"

definition store_of :: "tmq_session \<Rightarrow> message_store" where
  "store_of s = (case s_store s of Memory_Store st \<Rightarrow> st | Mongodb_Store st \<Rightarrow> message_store.truncate st)"

section \<open>Sending\<close>

text \<open>
  A queued packet is cloned before it is sent: as a PUBLISH, or else as a PUBREL.
\<close>

fun clone_packet :: "any_packet \<Rightarrow> any_packet res" where
  "clone_packet (PUBLISH p) = Inr (PUBLISH (tmq_publish_pkt_clone p))"
| "clone_packet (PUBREL i) = Inr (PUBREL i)"
| "clone_packet _ = Inl Type_Confusion"

definition acknowledge :: "int \<Rightarrow> tmq_session \<Rightarrow> u16 \<Rightarrow> packet_type \<Rightarrow> int \<Rightarrow> (session_event list \<times> tmq_session) res" where
  "acknowledge now s pid ty qos =
     bind (acknowledge_and_next now s pid ty qos) (\<lambda>(nx, evs, s').
       case nx of
         None \<Rightarrow> Inr (evs, s')
       | Some a \<Rightarrow>
           bind (deref (s_heap s') a) (\<lambda>n.
           bind (clone_packet (sp_packet n)) (\<lambda>p. Inr (evs @ [Send p], s'))))"

text \<open>
  \<^verbatim>\<open>resend_messages\<close> walks the queue up to the pending pointer. The first argument bounds the number of
  nodes; the result is \<open>None\<close> when it is used up.
\<close>

fun resend_loop :: "nat \<Rightarrow> packet_heap \<Rightarrow> addr option \<Rightarrow> addr option \<Rightarrow> session_event list res option" where
  "resend_loop 0 h pend p = None"
| "resend_loop (Suc k) h pend p =
     (case p of
        None \<Rightarrow> Some (Inr [])
      | Some a \<Rightarrow>
          if p = pend then Some (Inr [])
          else (case bind (deref h a) (\<lambda>n. bind (clone_packet (sp_packet n)) (\<lambda>c. Inr (c, sp_next n))) of
                  Inl e \<Rightarrow> Some (Inl e)
                | Inr (c, nx) \<Rightarrow> map_option (map_sum id ((#) (Send c))) (resend_loop k h pend nx)))"

definition resend_messages :: "tmq_session \<Rightarrow> session_event list res option" where
  "resend_messages s =
     resend_loop (Suc (next_addr s)) (s_heap s) (pending_pointer (store_of s)) (sending_queue_head (store_of s))"

definition tmq_session_start :: "tmq_session \<Rightarrow> session_event list res option" where
  "tmq_session_start s = resend_messages s"

section \<open>Creation, closing and resumption\<close>

text \<open>
  \<open>rnd\<close> is the value of \<^verbatim>\<open>rand_r\<close>; the identifier is it modulo \<^verbatim>\<open>UINT16_MAX\<close>.
\<close>

definition first_packet_id :: "nat \<Rightarrow> u16" where
  "first_packet_id rnd = of_nat (rnd mod 65535)"

lemma first_packet_id_code [code]: "first_packet_id rnd = of_int (int rnd mod 65535)"
proof -
  have "of_int (int rnd mod 65535) = (of_int (int (rnd mod 65535)) :: u16)" by (simp add: zmod_int)
  also have "\<dots> = of_nat (rnd mod 65535)" by (rule of_int_of_nat_eq)
  finally show ?thesis by (simp add: first_packet_id_def)
qed

definition tmq_session_new :: "nat \<Rightarrow> int \<Rightarrow> bool \<Rightarrow> nat \<Rightarrow> u8 \<Rightarrow> tmq_str \<Rightarrow> tmq_str option \<Rightarrow> u8 \<Rightarrow> u16 \<Rightarrow>
    tmq_str option \<Rightarrow> tmq_str option \<Rightarrow> u8 \<Rightarrow> u8 \<Rightarrow> u8 \<Rightarrow> any_store \<Rightarrow> tmq_session" where
  "tmq_session_new rnd now on_close conn ctx_index cid user clean keep wtopic wmsg wqos wretain max_inflight st =
     \<lparr>inflight_window_size = max_inflight, inflight_packets = 0, session_timestamp = 0, has_publish_finish = False,
      s_client_id = cstr cid, s_username = (case user of None \<Rightarrow> [] | Some u \<Rightarrow> cstr u),
      s_will_topic = map_option cstr wtopic,
      s_will_message = (if wtopic = None then None else Some (case wmsg of None \<Rightarrow> [] | Some m \<Rightarrow> cstr m)),
      s_will_qos = (if wtopic = None then 0 else wqos),
      s_will_retain = (if wtopic = None then 0 else wretain),
      s_conn = conn, has_on_close = on_close, s_store = st, s_heap = Map.empty, next_addr = 1, last_pkt_ts = now,
      next_packet_id = first_packet_id rnd, s_keep_alive = keep, s_state = OPEN, s_clean_session = clean,
      io_context_idx = ctx_index, subscriptions = [], qos2_packet_ids = []\<rparr>"

definition tmq_session_close :: "bool \<Rightarrow> tmq_session \<Rightarrow> session_event list \<times> tmq_session" where
  "tmq_session_close force_clean s =
     (Conn_Release (s_conn s) # (if has_on_close s then [On_Close force_clean] else []), s\<lparr>s_state := CLOSED\<rparr>)"

definition tmq_session_resume :: "int \<Rightarrow> nat \<Rightarrow> tmq_str option \<Rightarrow> u16 \<Rightarrow> tmq_str option \<Rightarrow> tmq_str option \<Rightarrow> u8 \<Rightarrow> u8 \<Rightarrow>
    tmq_session \<Rightarrow> tmq_session" where
  "tmq_session_resume now conn user keep wtopic wmsg wqos wretain s =
     (let s' = s\<lparr>s_conn := conn, s_state := OPEN, s_username := (case user of None \<Rightarrow> [] | Some u \<Rightarrow> cstr u), last_pkt_ts := now,
                 s_keep_alive := keep, s_will_topic := None, s_will_message := None\<rparr>
      in case wtopic of
           None \<Rightarrow> s'
         | Some t \<Rightarrow> s'\<lparr>s_will_topic := Some (cstr t),
                       s_will_message := Some (case wmsg of None \<Rightarrow> [] | Some m \<Rightarrow> cstr m),
                       s_will_qos := wqos, s_will_retain := wretain\<rparr>)"

definition tmq_session_set_publish_finish_callback :: "bool \<Rightarrow> tmq_session \<Rightarrow> tmq_session" where
  "tmq_session_set_publish_finish_callback cb s = s\<lparr>has_publish_finish := cb\<rparr>"

section \<open>Handlers of incoming packets\<close>

definition tmq_session_handle_subscribe :: "int \<Rightarrow> subscribe_pkt \<Rightarrow> tmq_session \<Rightarrow> session_event list \<times> tmq_session" where
  "tmq_session_handle_subscribe now p s =
     (let s' = s\<lparr>last_pkt_ts := now,
                 subscriptions := fold (\<lambda>tf m. al_put m (cstr (topic_filter tf)) (tf_qos tf)) (sub_topics p) (subscriptions s)\<rparr>
      in ([Broker_Subscribe (s_client_id s') p], s'))"

definition tmq_session_handle_unsubscribe :: "int \<Rightarrow> unsubscribe_pkt \<Rightarrow> tmq_session \<Rightarrow> session_event list \<times> tmq_session" where
  "tmq_session_handle_unsubscribe now p s =
     (let s' = s\<lparr>last_pkt_ts := now,
                 subscriptions := fold (\<lambda>tf m. al_erase m (cstr tf)) (unsub_topics p) (subscriptions s)\<rparr>
      in ([Broker_Unsubscribe (s_client_id s') p], s'))"

definition tmq_session_handle_suback :: "int \<Rightarrow> suback_pkt \<Rightarrow> tmq_session \<Rightarrow> session_event list \<times> tmq_session" where
  "tmq_session_handle_suback now p s = ([Client_Suback p], s\<lparr>last_pkt_ts := now\<rparr>)"

definition tmq_session_handle_unsuback :: "int \<Rightarrow> u16 \<Rightarrow> tmq_session \<Rightarrow> session_event list \<times> tmq_session" where
  "tmq_session_handle_unsuback now p s = ([Client_Unsuback p], s\<lparr>last_pkt_ts := now\<rparr>)"

definition tmq_session_handle_publish :: "int \<Rightarrow> publish_pkt \<Rightarrow> tmq_session \<Rightarrow> session_event list \<times> tmq_session" where
  "tmq_session_handle_publish now p s =
     (let s1 = s\<lparr>last_pkt_ts := now\<rparr>;
          pid = ucast (packet_id p) :: u32;
          deliver = New_Message (topic p) \<lparr>message = payload p, msg_qos = PUBLISH_QOS (pub_flags p)\<rparr>
            (PUBLISH_RETAIN (pub_flags p)) (s_username s1) (s_client_id s1)
      in if PUBLISH_QOS (pub_flags p) = 2 then
           if map_of (qos2_packet_ids s1) pid = None
           then ([deliver], s1\<lparr>qos2_packet_ids := al_put (qos2_packet_ids s1) pid 1\<rparr>)
           else ([], s1)
         else ([deliver], s1))"

definition tmq_session_handle_pingreq :: "int \<Rightarrow> tmq_session \<Rightarrow> tmq_session" where
  "tmq_session_handle_pingreq now s = s\<lparr>last_pkt_ts := now\<rparr>"

definition tmq_session_handle_pingresp :: "int \<Rightarrow> tmq_session \<Rightarrow> tmq_session" where
  "tmq_session_handle_pingresp now s = s\<lparr>last_pkt_ts := now\<rparr>"

definition tmq_session_handle_puback :: "int \<Rightarrow> u16 \<Rightarrow> tmq_session \<Rightarrow> (session_event list \<times> tmq_session) res" where
  "tmq_session_handle_puback now pid s = acknowledge now (s\<lparr>last_pkt_ts := now\<rparr>) pid MQTT_PUBLISH 1"

definition alloc_packet :: "tmq_session \<Rightarrow> any_packet \<Rightarrow> u16 \<Rightarrow> addr \<times> tmq_session" where
  "alloc_packet s p pid =
     (next_addr s,
      s\<lparr>s_heap := (s_heap s)(next_addr s \<mapsto> sending_packet_new p pid 0), next_addr := Suc (next_addr s)\<rparr>)"

definition set_send_time :: "int \<Rightarrow> addr \<Rightarrow> tmq_session \<Rightarrow> tmq_session res" where
  "set_send_time now a s =
     bind (deref (s_heap s) a) (\<lambda>n. Inr (s\<lparr>s_heap := (s_heap s)(a \<mapsto> n\<lparr>send_time := now\<rparr>)\<rparr>))"

definition tmq_session_handle_pubrec :: "int \<Rightarrow> u16 \<Rightarrow> tmq_session \<Rightarrow> (session_event list \<times> tmq_session) res" where
  "tmq_session_handle_pubrec now pid s =
     bind (acknowledge now (s\<lparr>last_pkt_ts := now\<rparr>) pid MQTT_PUBLISH 2) (\<lambda>(evs1, s1).
       let (a, s2) = alloc_packet s1 (PUBREL pid) pid
       in bind (store_message s2 a) (\<lambda>(send_now, evs2, s3).
            if send_now then bind (set_send_time now a s3) (\<lambda>s4. Inr (evs1 @ evs2 @ [Send (PUBREL pid)], s4))
            else Inr (evs1 @ evs2, s3)))"

definition tmq_session_handle_pubrel :: "int \<Rightarrow> u16 \<Rightarrow> tmq_session \<Rightarrow> tmq_session" where
  "tmq_session_handle_pubrel now pid s =
     s\<lparr>last_pkt_ts := now, qos2_packet_ids := al_erase (qos2_packet_ids s) (ucast pid)\<rparr>"

definition tmq_session_handle_pubcomp :: "int \<Rightarrow> u16 \<Rightarrow> tmq_session \<Rightarrow> (session_event list \<times> tmq_session) res" where
  "tmq_session_handle_pubcomp now pid s = acknowledge now (s\<lparr>last_pkt_ts := now\<rparr>) pid MQTT_PUBREL (- 1)"

section \<open>Outgoing requests\<close>

definition bump_packet_id :: "u16 \<Rightarrow> u16" where
  "bump_packet_id i = (if i = 65535 then 0 else i + 1)"

definition tmq_session_publish :: "int \<Rightarrow> tmq_str \<Rightarrow> tmq_str \<Rightarrow> u8 \<Rightarrow> u8 \<Rightarrow> bool \<Rightarrow> tmq_session \<Rightarrow>
    (session_event list \<times> tmq_session) res" where
  "tmq_session_publish now t pl qos retain store_only s =
     (let pkt = \<lparr>pub_flags = retain, topic = cstr t, packet_id = 0, payload = cstr pl\<rparr>
      in if qos > 0 then
           let pkt' = pkt\<lparr>packet_id := next_packet_id s, pub_flags := retain OR push_bit 1 qos\<rparr>;
               s1 = s\<lparr>next_packet_id := bump_packet_id (next_packet_id s)\<rparr>;
               (a, s2) = alloc_packet s1 (PUBLISH (tmq_publish_pkt_clone pkt')) (packet_id pkt')
           in bind (store_message s2 a) (\<lambda>(send_now, evs, s3).
              bind (if send_now then set_send_time now a s3 else Inr s3) (\<lambda>s4.
                Inr (evs @ (if send_now \<and> \<not> store_only then [Send (PUBLISH pkt')] else []), s4)))
         else Inr (if store_only then [] else [Send (PUBLISH pkt)], s))"

definition tmq_session_subscribe :: "tmq_str \<Rightarrow> u8 \<Rightarrow> tmq_session \<Rightarrow> session_event list \<times> tmq_session" where
  "tmq_session_subscribe tf qos s =
     ([Send (SUBSCRIBE \<lparr>sub_packet_id = next_packet_id s, sub_topics = [\<lparr>topic_filter = cstr tf, tf_qos = qos\<rparr>]\<rparr>)],
      s\<lparr>next_packet_id := bump_packet_id (next_packet_id s)\<rparr>)"

definition tmq_session_unsubscribe :: "tmq_str \<Rightarrow> tmq_session \<Rightarrow> session_event list \<times> tmq_session" where
  "tmq_session_unsubscribe tf s =
     ([Send (UNSUBSCRIBE \<lparr>unsub_packet_id = next_packet_id s, unsub_topics = [cstr tf]\<rparr>)],
      s\<lparr>next_packet_id := bump_packet_id (next_packet_id s)\<rparr>)"

section \<open>The invariant of a session with its store in memory\<close>

fun queueable :: "any_packet \<Rightarrow> bool" where
  "queueable (PUBLISH _) \<longleftrightarrow> True"
| "queueable (PUBREL _) \<longleftrightarrow> True"
| "queueable _ \<longleftrightarrow> False"

lemma clone_queueable: "queueable p \<Longrightarrow> \<exists>c. clone_packet p = Inr c"
  by (cases p) auto

definition session_inv :: "tmq_session \<Rightarrow> addr list \<Rightarrow> bool" where
  "session_inv s as \<longleftrightarrow>
     (\<exists>st. s_store s = Memory_Store st \<and> queue_rel (s_heap s) st s as) \<and>
     (\<forall>a\<in>set as. a < next_addr s) \<and>
     (\<forall>c\<in>set (map (node_content (s_heap s)) as). queueable (snd c))"

text \<open>What the handlers of acknowledgements leave alone.\<close>

definition incoming :: "tmq_session \<Rightarrow> (u32, u8) alist \<times> tmq_str \<times> tmq_str" where
  "incoming s = (qos2_packet_ids s, s_username s, s_client_id s)"

fun new_messages :: "session_event list \<Rightarrow> session_event list" where
  "new_messages [] = []"
| "new_messages (New_Message t m r u c # evs) = New_Message t m r u c # new_messages evs"
| "new_messages (_ # evs) = new_messages evs"

lemma new_messages_append [simp]: "new_messages (xs @ ys) = new_messages xs @ new_messages ys"
  by (induction xs rule: new_messages.induct) auto

lemma new_messages_finish [simp]: "new_messages (map (\<lambda>(i, q). Publish_Finish i q) fin) = []"
  by (induction fin) auto

lemma session_update_queue [simp]:
  "queue_rel h st (s\<lparr>last_pkt_ts := t\<rparr>) as = queue_rel h st s as"
  "queue_rel h st (s\<lparr>s_heap := h', s_store := x\<rparr>) as = queue_rel h st s as"
  "queue_rel h st (s\<lparr>s_heap := h', next_addr := n\<rparr>) as = queue_rel h st s as"
  "queue_rel h st (s\<lparr>next_packet_id := i\<rparr>) as = queue_rel h st s as"
  "queue_rel h st (s\<lparr>s_heap := h'\<rparr>) as = queue_rel h st s as"
  "queue_rel h st (s\<lparr>last_pkt_ts := t, qos2_packet_ids := ids\<rparr>) as = queue_rel h st s as"
  "queue_rel h st (s\<lparr>last_pkt_ts := t, subscriptions := sub\<rparr>) as = queue_rel h st s as"
  by (simp_all add: queue_rel_def window_def)

lemma session_inv_update [simp]:
  "session_inv (s\<lparr>last_pkt_ts := t\<rparr>) as = session_inv s as"
  "session_inv (s\<lparr>next_packet_id := i\<rparr>) as = session_inv s as"
  "session_inv (s\<lparr>last_pkt_ts := t, qos2_packet_ids := ids\<rparr>) as = session_inv s as"
  "session_inv (s\<lparr>last_pkt_ts := t, subscriptions := sub\<rparr>) as = session_inv s as"
  by (simp_all add: session_inv_def)

lemma drop_first_subset: "drop_first P xs = Some (x, ys) \<Longrightarrow> set ys \<subseteq> set xs \<and> x \<in> set xs"
  by (induction xs arbitrary: ys) (auto split: if_splits)

lemma wq_ack_subset:
  assumes "wq_ack w q P = Some (x, y, q')"
  shows "set q' \<subseteq> set q"
proof -
  obtain ys where "drop_first P (take w q) = Some (x, ys)" "q' = ys @ drop w q"
    using assms by (auto simp: wq_ack_def split: option.splits)
  then show ?thesis
    using drop_first_subset set_take_subset [of w q] set_drop_subset [of w q] by fastforce
qed

lemma acknowledge_ok:
  assumes "session_inv s as"
  shows "\<exists>evs s' as'. acknowledge now s pid ty qos = Inr (evs, s') \<and> session_inv s' as' \<and>
    new_messages evs = [] \<and> incoming s' = incoming s \<and> window s' = window s"
proof -
  obtain st where st: "s_store s = Memory_Store st" and q: "queue_rel (s_heap s) st s as"
    using assms by (auto simp: session_inv_def)
  let ?c = "node_content (s_heap s)"
  show ?thesis
  proof (cases "wq_ack (window s) (map ?c as) (acked pid ty qos)")
    case None
    then have "acknowledge now s pid ty qos = Inr ([], s)"
      using memory_ack_none [OF q None] st
      by (simp add: acknowledge_def acknowledge_and_next_def)
    then show ?thesis using assms by auto
  next
    case (Some r)
    obtain x y q' where r: "r = (x, y, q')" by (cases r)
    obtain nx fin h' st' s' as' where m:
        "memory_store_acknowledge now (s_heap s) st s pid ty qos = Inr (nx, fin, h', st', s')"
        "queue_rel h' st' s' as'" "map (node_content h') as' = q'"
        "set as' \<subseteq> set as" "set_option nx \<subseteq> set as'" "s' = s\<lparr>inflight_packets := inflight_packets s'\<rparr>"
      using memory_ack_some [OF q Some [unfolded r], of now] by auto
    let ?s = "s'\<lparr>s_heap := h', s_store := Memory_Store st'\<rparr>"
    have old: "next_addr s' = next_addr s" "incoming ?s = incoming s" "window ?s = window s"
      by (subst m(6); simp add: incoming_def window_def)+
    have c: "\<forall>a\<in>set as'. queueable (snd (node_content h' a))"
      using wq_ack_subset [OF Some [unfolded r]] assms m(3) by (fastforce simp: session_inv_def)
    have inv: "session_inv ?s as'"
      using assms m(2,4) c old(1) st by (auto simp: session_inv_def)
    have an: "acknowledge_and_next now s pid ty qos = Inr (nx, map (\<lambda>(i, q). Publish_Finish i q) fin, ?s)"
      using m(1) st by (simp add: acknowledge_and_next_def)
    show ?thesis
    proof (cases nx)
      case None
      then show ?thesis using an inv old by (auto simp: acknowledge_def)
    next
      case (Some a)
      have a: "a \<in> set as'" using m(5) Some by simp
      then obtain n where n: "h' a = Some n" using m(2) lseg_alloc by (fastforce simp: queue_rel_def)
      have "queueable (sp_packet n)" using bspec [OF c a] n by (simp add: node_content_def)
      then obtain p where "clone_packet (sp_packet n) = Inr p" using clone_queueable by blast
      then show ?thesis using an inv old Some n by (auto simp: acknowledge_def deref_def)
    qed
  qed
qed

lemma store_packet_ok:
  assumes "session_inv s as" and "queueable p"
  shows "\<exists>send_now s' as'. store_message (snd (alloc_packet s p pid)) (next_addr s) = Inr (send_now, [], s') \<and>
    session_inv s' as' \<and> next_addr s \<in> set as' \<and> incoming s' = incoming s \<and> window s' = window s"
proof -
  obtain st where st: "s_store s = Memory_Store st" and q: "queue_rel (s_heap s) st s as"
    using assms by (auto simp: session_inv_def)
  let ?a = "next_addr s" and ?n = "sending_packet_new p pid 0"
  let ?h = "(s_heap s)(?a \<mapsto> ?n)" and ?s = "s\<lparr>s_heap := (s_heap s)(?a \<mapsto> ?n), next_addr := Suc ?a\<rparr>"
  have a: "?a \<notin> set as" using assms(1) by (auto simp: session_inv_def)
  have "queue_rel ?h st ?s as" using q a by (simp add: queue_rel_def window_def)
  from memory_store_rel [OF this, of ?a ?n] a
  obtain b h' st' s' where m: "memory_store_store_message ?h st ?s ?a = Inr (b, h', st', s')"
      "queue_rel h' st' s' (as @ [?a])" "map (node_content h') (as @ [?a]) = map (node_content ?h) (as @ [?a])"
      "s' = ?s\<lparr>inflight_packets := inflight_packets s'\<rparr>"
    by (auto simp: sending_packet_new_def)
  let ?s' = "s'\<lparr>s_heap := h', s_store := Memory_Store st'\<rparr>"
  have old: "next_addr s' = Suc (next_addr s)" "incoming ?s' = incoming s" "window ?s' = window s"
    by (subst m(4); simp add: incoming_def window_def)+
  have "map (node_content h') (as @ [?a]) = map (node_content (s_heap s)) as @ [(pid, p)]"
    using m(3) a by (simp add: node_content_def sending_packet_new_def)
  then have "\<forall>c\<in>set (map (node_content h') (as @ [?a])). queueable (snd c)"
    using assms by (simp only: session_inv_def) auto
  then have "session_inv ?s' (as @ [?a])" using m(2) assms(1) old(1) by (auto simp: session_inv_def)
  then show ?thesis using m(1) st old
    by (intro exI [of _ b] exI [of _ ?s'] exI [of _ "as @ [?a]"])
       (simp add: store_message_def alloc_packet_def)
qed

lemma set_send_time_ok:
  assumes "session_inv s as" and "a \<in> set as"
  shows "\<exists>s'. set_send_time now a s = Inr s' \<and> session_inv s' as \<and> incoming s' = incoming s \<and> window s' = window s"
proof -
  obtain st where st: "s_store s = Memory_Store st" and q: "queue_rel (s_heap s) st s as"
    using assms by (auto simp: session_inv_def)
  then obtain n where n: "s_heap s a = Some n" using assms(2) lseg_alloc by (fastforce simp: queue_rel_def)
  let ?h = "(s_heap s)(a \<mapsto> n\<lparr>send_time := now\<rparr>)"
  have l: "lseg ?h p xs r = lseg (s_heap s) p xs r" for p xs r
    by (induction xs arbitrary: p) (use n in auto)
  have "node_content ?h = node_content (s_heap s)" using n by (auto simp: node_content_def fun_eq_iff)
  then have "session_inv (s\<lparr>s_heap := ?h\<rparr>) as"
    using assms(1) st by (auto simp: session_inv_def queue_rel_def window_def l)
  then show ?thesis using n
    by (simp add: set_send_time_def deref_def incoming_def window_def)
qed

section \<open>Runs of a session\<close>

datatype session_op =
    In_Publish publish_pkt
  | In_Puback u16
  | In_Pubrec u16
  | In_Pubrel u16
  | In_Pubcomp u16
  | In_Subscribe subscribe_pkt
  | In_Unsubscribe unsubscribe_pkt
  | In_Pingreq
  | Out_Publish tmq_str tmq_str u8 u8 bool

fun session_step :: "int \<Rightarrow> session_op \<Rightarrow> tmq_session \<Rightarrow> (session_event list \<times> tmq_session) res" where
  "session_step now (In_Publish p) s = Inr (tmq_session_handle_publish now p s)"
| "session_step now (In_Puback i) s = tmq_session_handle_puback now i s"
| "session_step now (In_Pubrec i) s = tmq_session_handle_pubrec now i s"
| "session_step now (In_Pubrel i) s = Inr ([], tmq_session_handle_pubrel now i s)"
| "session_step now (In_Pubcomp i) s = tmq_session_handle_pubcomp now i s"
| "session_step now (In_Subscribe p) s = Inr (tmq_session_handle_subscribe now p s)"
| "session_step now (In_Unsubscribe p) s = Inr (tmq_session_handle_unsubscribe now p s)"
| "session_step now In_Pingreq s = Inr ([], tmq_session_handle_pingreq now s)"
| "session_step now (Out_Publish t p q r so) s = tmq_session_publish now t p q r so s"

fun session_run :: "(int \<times> session_op) list \<Rightarrow> tmq_session \<Rightarrow> (session_event list \<times> tmq_session) res" where
  "session_run [] s = Inr ([], s)"
| "session_run ((now, op) # ops) s =
     bind (session_step now op s) (\<lambda>(evs, s').
     bind (session_run ops s') (\<lambda>(evs', s''). Inr (evs @ evs', s'')))"

text \<open>
  The specification of incoming messages: a QoS 2 identifier is open from its first PUBLISH to its
  PUBREL, and a PUBLISH with an open identifier is a retransmission.
\<close>

fun delivered :: "session_op list \<Rightarrow> u16 set \<Rightarrow> publish_pkt list" where
  "delivered [] ids = []"
| "delivered (In_Publish p # ops) ids =
     (if PUBLISH_QOS (pub_flags p) = 2 then
        if packet_id p \<in> ids then delivered ops ids else p # delivered ops (insert (packet_id p) ids)
      else p # delivered ops ids)"
| "delivered (In_Pubrel i # ops) ids = delivered ops (ids - {i})"
| "delivered (_ # ops) ids = delivered ops ids"

definition deliver :: "tmq_session \<Rightarrow> publish_pkt \<Rightarrow> session_event" where
  "deliver s p = New_Message (topic p) \<lparr>message = payload p, msg_qos = PUBLISH_QOS (pub_flags p)\<rparr>
     (PUBLISH_RETAIN (pub_flags p)) (s_username s) (s_client_id s)"

definition open_ids :: "tmq_session \<Rightarrow> u16 set" where
  "open_ids s = {i. map_of (qos2_packet_ids s) (ucast i) \<noteq> None}"

lemma pid_key [simp]: "ucast (i :: u16) = (ucast j :: u32) \<longleftrightarrow> i = j"
  by transfer (simp add: take_bit_take_bit)

lemma publish_ok:
  assumes "session_inv s as"
  shows "\<exists>evs s' as'. tmq_session_publish now t pl qos r so s = Inr (evs, s') \<and> session_inv s' as' \<and>
    new_messages evs = [] \<and> incoming s' = incoming s \<and> window s' = window s"
proof (cases "qos > 0")
  case True
  let ?pkt = "\<lparr>pub_flags = r OR push_bit 1 qos, topic = cstr t, packet_id = next_packet_id s, payload = cstr pl\<rparr>"
  let ?s1 = "s\<lparr>next_packet_id := bump_packet_id (next_packet_id s)\<rparr>"
  have "session_inv ?s1 as" using assms by simp
  from store_packet_ok [OF this, of "PUBLISH (tmq_publish_pkt_clone ?pkt)" "next_packet_id s"]
  obtain b s3 as3 where s3: "store_message (snd (alloc_packet ?s1 (PUBLISH (tmq_publish_pkt_clone ?pkt)) (next_packet_id s)))
        (next_addr s) = Inr (b, [], s3)" "session_inv s3 as3" "next_addr s \<in> set as3"
        "incoming s3 = incoming s" "window s3 = window s"
    by (auto simp: incoming_def window_def)
  obtain s4 where s4: "set_send_time now (next_addr s) s3 = Inr s4" "session_inv s4 as3"
      "incoming s4 = incoming s3" "window s4 = window s3"
    using set_send_time_ok [OF s3(2,3)] by blast
  have f: "fst (alloc_packet ?s1 p i) = next_addr s" for p i by (simp add: alloc_packet_def)
  show ?thesis using True s3 s4 f
    by (cases b) (auto simp: tmq_session_publish_def Let_def split_beta)
qed (use assms in \<open>auto simp: tmq_session_publish_def\<close>)

lemma pubrec_ok:
  assumes "session_inv s as"
  shows "\<exists>evs s' as'. tmq_session_handle_pubrec now i s = Inr (evs, s') \<and> session_inv s' as' \<and>
    new_messages evs = [] \<and> incoming s' = incoming s \<and> window s' = window s"
proof -
  have "session_inv (s\<lparr>last_pkt_ts := now\<rparr>) as" using assms by simp
  from acknowledge_ok [OF this, of now i MQTT_PUBLISH 2]
  obtain evs s1 as1 where s1: "acknowledge now (s\<lparr>last_pkt_ts := now\<rparr>) i MQTT_PUBLISH 2 = Inr (evs, s1)"
      "session_inv s1 as1" "new_messages evs = []" "incoming s1 = incoming s" "window s1 = window s"
    by (auto simp: incoming_def window_def)
  obtain b s3 as3 where s3: "store_message (snd (alloc_packet s1 (PUBREL i) i)) (next_addr s1) = Inr (b, [], s3)"
      "session_inv s3 as3" "next_addr s1 \<in> set as3" "incoming s3 = incoming s1" "window s3 = window s1"
    using store_packet_ok [OF s1(2), of "PUBREL i" i] by auto
  obtain s4 where s4: "set_send_time now (next_addr s1) s3 = Inr s4" "session_inv s4 as3"
      "incoming s4 = incoming s3" "window s4 = window s3"
    using set_send_time_ok [OF s3(2,3)] by blast
  have f: "fst (alloc_packet s1 p i) = next_addr s1" for p i by (simp add: alloc_packet_def)
  show ?thesis using s1 s3 s4 f
    by (cases b) (auto simp: tmq_session_handle_pubrec_def Let_def split_beta)
qed

definition step_ok :: "int \<Rightarrow> session_op \<Rightarrow> tmq_session \<Rightarrow> bool" where
  "step_ok now op s \<longleftrightarrow> (\<exists>evs s' as'. session_step now op s = Inr (evs, s') \<and> session_inv s' as' \<and>
     window s' = window s \<and> deliver s' = deliver s \<and>
     (\<forall>ops. map (deliver s) (delivered (op # ops) (open_ids s)) =
        new_messages evs @ map (deliver s) (delivered ops (open_ids s'))))"

lemma step_ok_silent:
  assumes "\<exists>evs s' as'. session_step now op s = Inr (evs, s') \<and> session_inv s' as' \<and>
      new_messages evs = [] \<and> incoming s' = incoming s \<and> window s' = window s"
    and "\<And>ops ids. delivered (op # ops) ids = delivered ops ids"
  shows "step_ok now op s"
proof -
  obtain evs s' as' where s': "session_step now op s = Inr (evs, s')" "session_inv s' as'"
      "new_messages evs = []" "incoming s' = incoming s" "window s' = window s"
    using assms(1) by blast
  then have "open_ids s' = open_ids s" "deliver s' = deliver s"
    by (simp_all add: incoming_def open_ids_def deliver_def fun_eq_iff)
  then show ?thesis unfolding step_ok_def using s' assms(2)
    by (intro exI [of _ evs] exI [of _ s'] exI [of _ as']) simp
qed

lemma step_ok_publish:
  assumes "session_inv s as"
  shows "step_ok now (In_Publish p) s"
proof -
  let ?ids = "al_put (qos2_packet_ids s) (ucast (packet_id p)) 1"
  have o: "open_ids (s\<lparr>last_pkt_ts := now, qos2_packet_ids := ?ids\<rparr>) = insert (packet_id p) (open_ids s)"
      "open_ids (s\<lparr>last_pkt_ts := now\<rparr>) = open_ids s"
      "packet_id p \<in> open_ids s \<longleftrightarrow> map_of (qos2_packet_ids s) (ucast (packet_id p)) \<noteq> None"
    by (auto simp: open_ids_def map_of_al_put)
  have d: "deliver (s\<lparr>last_pkt_ts := now, qos2_packet_ids := ?ids\<rparr>) = deliver s" "deliver (s\<lparr>last_pkt_ts := now\<rparr>) = deliver s"
      "window (s\<lparr>last_pkt_ts := now, qos2_packet_ids := ?ids\<rparr>) = window s" "window (s\<lparr>last_pkt_ts := now\<rparr>) = window s"
    by (simp_all add: deliver_def fun_eq_iff window_def)
  let ?r = "tmq_session_handle_publish now p s"
  have "session_inv (snd ?r) as \<and> window (snd ?r) = window s \<and> deliver (snd ?r) = deliver s \<and>
     (\<forall>ops. map (deliver s) (delivered (In_Publish p # ops) (open_ids s)) =
        new_messages (fst ?r) @ map (deliver s) (delivered ops (open_ids (snd ?r))))"
    using assms o d by (auto simp: tmq_session_handle_publish_def Let_def deliver_def)
  then show ?thesis unfolding step_ok_def
    by (intro exI [of _ "fst ?r"] exI [of _ "snd ?r"] exI [of _ as]) simp
qed

lemma step_ok_pubrel:
  assumes "session_inv s as"
  shows "step_ok now (In_Pubrel i) s"
proof -
  have "open_ids (tmq_session_handle_pubrel now i s) = open_ids s - {i}"
    by (auto simp: tmq_session_handle_pubrel_def open_ids_def map_of_al_erase)
  moreover have "session_inv (tmq_session_handle_pubrel now i s) as"
      "window (tmq_session_handle_pubrel now i s) = window s"
      "deliver (tmq_session_handle_pubrel now i s) = deliver s"
    using assms by (simp_all add: tmq_session_handle_pubrel_def window_def deliver_def fun_eq_iff)
  ultimately show ?thesis unfolding step_ok_def
    by (intro exI [of _ "[]"] exI [of _ "tmq_session_handle_pubrel now i s"] exI [of _ as]) simp
qed

lemma acknowledge_step:
  assumes "session_inv s as"
  shows "\<exists>evs s' as'. acknowledge now (s\<lparr>last_pkt_ts := t\<rparr>) pid ty qos = Inr (evs, s') \<and> session_inv s' as' \<and>
    new_messages evs = [] \<and> incoming s' = incoming s \<and> window s' = window s"
  using acknowledge_ok [of "s\<lparr>last_pkt_ts := t\<rparr>" as now pid ty qos] assms
  by (simp add: incoming_def window_def)

lemma session_step_ok:
  assumes "session_inv s as"
  shows "step_ok now op s"
proof (cases op)
  case (In_Puback i)
  show ?thesis unfolding In_Puback using acknowledge_step [OF assms, of now now i MQTT_PUBLISH 1]
    by (intro step_ok_silent) (simp_all add: tmq_session_handle_puback_def)
next
  case (In_Pubrec i)
  show ?thesis unfolding In_Pubrec using pubrec_ok [OF assms, of now i]
    by (intro step_ok_silent) simp_all
next
  case (In_Pubcomp i)
  show ?thesis unfolding In_Pubcomp using acknowledge_step [OF assms, of now now i MQTT_PUBREL "- 1"]
    by (intro step_ok_silent) (simp_all add: tmq_session_handle_pubcomp_def)
next
  case (Out_Publish t p q r so)
  show ?thesis unfolding Out_Publish using publish_ok [OF assms, of now t p q r so]
    by (intro step_ok_silent) simp_all
next
  case (In_Subscribe p)
  show ?thesis unfolding In_Subscribe
    by (rule step_ok_silent) (use assms in \<open>auto simp: tmq_session_handle_subscribe_def incoming_def window_def Let_def\<close>)
next
  case (In_Unsubscribe p)
  show ?thesis unfolding In_Unsubscribe
    by (rule step_ok_silent) (use assms in \<open>auto simp: tmq_session_handle_unsubscribe_def incoming_def window_def Let_def\<close>)
next
  case In_Pingreq
  show ?thesis unfolding In_Pingreq
    by (rule step_ok_silent) (use assms in \<open>auto simp: tmq_session_handle_pingreq_def incoming_def window_def\<close>)
qed (use step_ok_publish [OF assms] step_ok_pubrel [OF assms] in simp_all)

lemma session_run_ok:
  "session_inv s as \<Longrightarrow>
   \<exists>evs s' as'. session_run ops s = Inr (evs, s') \<and> session_inv s' as' \<and> window s' = window s \<and>
     new_messages evs = map (deliver s) (delivered (map snd ops) (open_ids s))"
proof (induction ops arbitrary: s as)
  case (Cons x ops)
  obtain now op where x: "x = (now, op)" by (cases x)
  obtain evs s1 as1 where s1: "session_step now op s = Inr (evs, s1)" "session_inv s1 as1" "window s1 = window s"
      "deliver s1 = deliver s"
      "map (deliver s) (delivered (op # map snd ops) (open_ids s)) =
        new_messages evs @ map (deliver s) (delivered (map snd ops) (open_ids s1))"
    using session_step_ok [OF Cons.prems, of now op] unfolding step_ok_def by blast
  obtain evs' s2 as2 where s2: "session_run ops s1 = Inr (evs', s2)" "session_inv s2 as2" "window s2 = window s1"
      "new_messages evs' = map (deliver s1) (delivered (map snd ops) (open_ids s1))"
    using Cons.IH [OF s1(2)] by blast
  show ?case using x s1 s2 by (auto simp del: delivered.simps)
qed auto

section \<open>Retransmission\<close>

definition cloned :: "any_packet \<Rightarrow> any_packet" where
  "cloned p = (case p of PUBLISH q \<Rightarrow> PUBLISH (tmq_publish_pkt_clone q) | _ \<Rightarrow> p)"

lemma clone_cloned: "queueable p \<Longrightarrow> clone_packet p = Inr (cloned p)"
  by (cases p) (auto simp: cloned_def)

lemma resend_loop_seg:
  "lseg h p xs None \<Longrightarrow> distinct xs \<Longrightarrow> pend = (if w < length xs then Some (xs ! w) else None) \<Longrightarrow>
   list_all (\<lambda>a. queueable (snd (node_content h a))) xs \<Longrightarrow> length xs < k \<Longrightarrow>
   resend_loop k h pend p = Some (Inr (map (\<lambda>a. Send (cloned (snd (node_content h a)))) (take w xs)))"
proof (induction xs arbitrary: p w k)
  case Nil
  then obtain k' where "k = Suc k'" by (cases k) auto
  then show ?case using Nil by simp
next
  case (Cons a xs)
  obtain k' where k: "k = Suc k'" "length xs < k'" using Cons.prems(5) by (cases k) auto
  obtain n where n: "p = Some a" "h a = Some n" "lseg h (sp_next n) xs None" using Cons.prems(1) by auto
  show ?case
  proof (cases w)
    case 0
    then show ?thesis using Cons.prems(3) k n by simp
  next
    case (Suc w')
    have p: "pend = (if w' < length xs then Some (xs ! w') else None)" using Cons.prems(3) Suc by simp
    then have "pend \<noteq> Some a" using Cons.prems(2) nth_mem [of w' xs] by (cases "w' < length xs") auto
    moreover have "clone_packet (sp_packet n) = Inr (cloned (sp_packet n))"
      using Cons.prems(4) n(2) clone_cloned by (simp add: node_content_def)
    moreover have "resend_loop k' h pend (sp_next n) =
        Some (Inr (map (\<lambda>a. Send (cloned (snd (node_content h a)))) (take w' xs)))"
      using Cons.IH [OF n(3) _ p _ k(2)] Cons.prems(2,4) by simp
    ultimately show ?thesis using k n Suc by (auto simp: deref_def node_content_def)
  qed
qed

lemma session_start_inv:
  assumes "session_inv s as"
  shows "tmq_session_start s =
    Some (Inr (map (\<lambda>a. Send (cloned (snd (node_content (s_heap s) a)))) (take (unat (inflight_packets s)) as)))"
proof -
  obtain st where st: "s_store s = Memory_Store st" and q: "queue_rel (s_heap s) st s as"
    using assms by (auto simp: session_inv_def)
  have "length as \<le> next_addr s"
    using assms q card_mono [of "{..<next_addr s}" "set as"]
    by (auto simp: session_inv_def queue_rel_def distinct_card)
  then have "tmq_session_start s = Some (Inr (map (\<lambda>a. Send (cloned (snd (node_content (s_heap s) a)))) (take (window s) as)))"
    unfolding tmq_session_start_def resend_messages_def
    using assms q st by (intro resend_loop_seg) (auto simp: store_of_def queue_rel_def session_inv_def list_all_iff)
  moreover have "take (window s) as = take (unat (inflight_packets s)) as"
    using q by (simp add: queue_rel_def min_def)
  ultimately show ?thesis by simp
qed

lemma session_inv_new:
  "session_inv (tmq_session_new rnd now cb conn ix cid user clean keep wt wm wq wr w (Memory_Store tmq_message_store_memory_new)) []"
  by (simp add: session_inv_def tmq_session_new_def queue_rel_def tmq_message_store_memory_new_def)

lemma open_ids_new: "open_ids (tmq_session_new rnd now cb conn ix cid user clean keep wt wm wq wr w st) = {}"
  by (simp add: open_ids_def tmq_session_new_def)

lemma inflight_window:
  assumes "session_inv s as"
  shows "inflight_packets s \<le> inflight_window_size s"
  using assms by (auto simp: session_inv_def queue_rel_def window_def word_le_nat_alt)

section \<open>Properties\<close>

text \<open>
  C7. Incoming QoS 2 messages are delivered exactly once. A new session with its store in memory
  handles every sequence of incoming packets and outgoing publishes without a fault, and the messages
  it passes on are exactly the incoming PUBLISH packets, in order, except that between the first
  PUBLISH of a QoS 2 identifier and its PUBREL every further PUBLISH with the identifier is dropped.
  Never more packets are in flight than the window allows.
\<close>

theorem incoming_delivered_exactly_once:
  fixes rnd conn :: nat and now :: int and cb :: bool and ix clean wq wr w :: u8 and keep :: u16
    and cid :: tmq_str and user wt wm :: "tmq_str option"
  defines "s \<equiv> tmq_session_new rnd now cb conn ix cid user clean keep wt wm wq wr w
    (Memory_Store tmq_message_store_memory_new)"
  shows "\<exists>evs s'. session_run ops s = Inr (evs, s') \<and>
    new_messages evs = map (deliver s) (delivered (map snd ops) {}) \<and> inflight_packets s' \<le> w"
proof -
  have "session_inv s []" unfolding s_def by (rule session_inv_new)
  then obtain evs s' as' where r: "session_run ops s = Inr (evs, s')" "session_inv s' as'" "window s' = window s"
      "new_messages evs = map (deliver s) (delivered (map snd ops) (open_ids s))"
    using session_run_ok [of s "[]" ops] by blast
  moreover have "inflight_window_size s' = w"
    using r(3) by (intro unsigned_word_eqI) (simp add: window_def s_def tmq_session_new_def)
  moreover have "open_ids s = {}" unfolding s_def by (rule open_ids_new)
  ultimately show ?thesis using inflight_window [OF r(2)] by auto
qed

text \<open>
  C16. Restarting a session resends exactly what is in flight: after any sequence of operations on a new
  session, the loop of \<^verbatim>\<open>resend_messages\<close> ends and sends copies of the first packets of the queue, in
  order, as many as are in flight.
\<close>

theorem restart_resends_inflight:
  fixes rnd conn :: nat and now :: int and cb :: bool and ix clean wq wr w :: u8 and keep :: u16
    and cid :: tmq_str and user wt wm :: "tmq_str option"
  defines "s \<equiv> tmq_session_new rnd now cb conn ix cid user clean keep wt wm wq wr w
    (Memory_Store tmq_message_store_memory_new)"
  shows "\<exists>evs s' as. session_run ops s = Inr (evs, s') \<and>
    lseg (s_heap s') (sending_queue_head (store_of s')) as None \<and>
    unat (inflight_packets s') = min (unat w) (length as) \<and>
    tmq_session_start s' =
      Some (Inr (map (\<lambda>a. Send (cloned (snd (node_content (s_heap s') a)))) (take (unat (inflight_packets s')) as)))"
proof -
  have "session_inv s []" unfolding s_def by (rule session_inv_new)
  then obtain evs s' as' where r: "session_run ops s = Inr (evs, s')" "session_inv s' as'" "window s' = window s"
    using session_run_ok [of s "[]" ops] by blast
  moreover have "window s = unat w" by (simp add: window_def s_def tmq_session_new_def)
  moreover have "lseg (s_heap s') (sending_queue_head (store_of s')) as' None"
      "unat (inflight_packets s') = min (window s') (length as')"
    using r(2) by (auto simp: session_inv_def queue_rel_def store_of_def)
  ultimately show ?thesis using session_start_inv [OF r(2)] by auto
qed

text \<open>
  The packet identifier after 65535 is 0, which MQTT does not allow: two requests in a row, the second
  with identifier 0.
\<close>

theorem packet_id_zero_used:
  assumes "next_packet_id s = 65535"
  shows "fst (tmq_session_unsubscribe tf (snd (tmq_session_unsubscribe tf s))) =
    [Send (UNSUBSCRIBE \<lparr>unsub_packet_id = 0, unsub_topics = [cstr tf]\<rparr>)]"
  using assms by (simp add: tmq_session_unsubscribe_def bump_packet_id_def)

end
