(* ===== verification/Client.thy ===== *)
theory Client
  imports Session Codec_Roundtrip
begin

text \<open>
  The client library, \<^verbatim>\<open>mqtt/mqtt_client.c\<close>: calls of the application, and callbacks of the event loop, of the codec and of the
  session. A client is synchronous (a call runs the event loop until a callback stops it) or asynchronous (calls are queued for the thread
  that runs the loop, and the application is called back). Running, stopping and waking up the loop, starting the connector and
  calling the application are events; what a synchronous call does after its loop has ended is a definition of its own.
\<close>

section \<open>State\<close>

record connect_options =
  opt_username :: "tmq_str option"
  opt_password :: "tmq_str option"
  opt_client_id :: "tmq_str option"
  opt_clean_session :: bool
  opt_keep_alive :: u16
  opt_will_message :: "tmq_str option"
  opt_will_topic :: "tmq_str option"
  opt_will_qos :: u8
  opt_will_retain :: bool

datatype async_op =
    ASYNC_CONNECT
  | ASYNC_SUBSCRIBE tmq_str u8
  | ASYNC_UNSUBSCRIBE tmq_str
  | ASYNC_PUBLISH tmq_str tmq_str u8 u8
  | ASYNC_DISCONNECT

datatype write_callback = No_Callback | On_Disconnected | On_Qos0_Publish_Finished

text \<open>The connection: its context, its callback for written data, and whether \<^verbatim>\<open>cb_arg\<close> points to the client.\<close>

record client_conn =
  cc_id :: nat
  cc_state :: conn_state_e
  cc_upstream :: upstream_e
  cc_on_write_complete :: write_callback
  cc_arg :: bool

record tiny_mqtt =
  c_conn :: "client_conn option"
  c_session :: "tmq_session option"
  c_ready :: bool
  c_async :: bool
  async_ops :: "async_op list"
  options :: connect_options
  connect_res :: int
  subscribe_res :: "u8 list"
  has_on_message :: bool
  has_on_connect :: bool
  has_on_subscribe :: bool
  has_on_unsubscribe :: bool
  has_on_publish :: bool
  has_on_disconnect :: bool

datatype client_event =
    Session_Event session_event
  | Write_Packet any_packet
  | Start_Connector
  | Run_Loop
  | Quit_Loop
  | Notify
  | Shutdown
  | Start_Ping_Timer nat
  | App_Message tmq_str tmq_str u8 bool
  | App_Connect u8
  | App_Subscribe "u8 list"
  | App_Unsubscribe
  | App_Publish u16 int
  | App_Disconnect

type_synonym client_step = "client_event list \<times> tiny_mqtt"

definition deref :: "'a option \<Rightarrow> 'a res" where
  "deref p = (case p of None \<Rightarrow> Inl Null_Deref | Some x \<Rightarrow> Inr x)"

text \<open>In asynchronous mode the application's callback, if there is one; otherwise the loop of the waiting call ends.\<close>

definition tell :: "tiny_mqtt \<Rightarrow> bool \<Rightarrow> client_event \<Rightarrow> client_event list" where
  "tell c has_cb e = (if c_async c then (if has_cb then [e] else []) else [Quit_Loop])"

section \<open>Callbacks\<close>

definition tcp_conn_close_cb :: "client_conn \<Rightarrow> tiny_mqtt \<Rightarrow> client_step res" where
  "tcp_conn_close_cb k c =
     (if \<not> cc_arg k then Inl Null_Deref
      else
        let c1 = c\<lparr>c_conn := None\<rparr>
        in if cc_state k \<noteq> IN_SESSION then Inr ([], c1)
           else bind (deref (c_session c)) (\<lambda>s.
             let (evs, s') = tmq_session_close False s
             in Inr (map Session_Event evs, c1\<lparr>c_session := if s_clean_session s' \<noteq> 0 then None else Some s'\<rparr>)))"

definition connect_flags :: "connect_options \<Rightarrow> u8" where
  "connect_flags o1 =
     (let f = (if opt_clean_session o1 then 0x02 else 0);
          f = (if opt_will_message o1 \<noteq> None
               then (let g = f OR 0x04 OR push_bit 3 (opt_will_qos o1) in if opt_will_retain o1 then g OR 0x20 else g) else f);
          f = (if opt_username o1 \<noteq> None then f OR 0x80 else f)
      in if opt_password o1 \<noteq> None then f OR 0x40 else f)"

text \<open>\<^verbatim>\<open>tmq_str_new\<close> of NULL is the empty string.\<close>

definition str_new :: "tmq_str option \<Rightarrow> tmq_str" where
  "str_new s = (case s of None \<Rightarrow> [] | Some t \<Rightarrow> cstr t)"

definition connect_packet :: "connect_options \<Rightarrow> connect_pkt" where
  "connect_packet o1 =
     \<lparr>conn_flags = connect_flags o1, keep_alive = opt_keep_alive o1, client_id = Some (str_new (opt_client_id o1)),
      will_topic = (if opt_will_message o1 \<noteq> None then Some (str_new (opt_will_topic o1)) else None),
      will_message = map_option cstr (opt_will_message o1),
      username = map_option cstr (opt_username o1), password = map_option cstr (opt_password o1)\<rparr>"

definition on_tcp_connected :: "nat \<Rightarrow> tiny_mqtt \<Rightarrow> client_step" where
  "on_tcp_connected k c =
     ([Write_Packet (CONNECT (connect_packet (options c)))],
      c\<lparr>c_conn := Some \<lparr>cc_id = k, cc_state = NO_SESSION, cc_upstream = Up_Client, cc_on_write_complete = No_Callback, cc_arg = True\<rparr>\<rparr>)"

definition on_tcp_connect_failed :: "tiny_mqtt \<Rightarrow> client_step" where
  "on_tcp_connect_failed c =
     (let c = c\<lparr>connect_res := -1\<rparr> in (tell c (has_on_disconnect c) App_Disconnect, c))"

definition on_mqtt_message :: "tmq_str \<Rightarrow> mqtt_message \<Rightarrow> bool \<Rightarrow> tiny_mqtt \<Rightarrow> client_step" where
  "on_mqtt_message t m retain c =
     (if has_on_message c then [App_Message t (message m) (msg_qos m) retain] else [], c)"

definition on_publish_finish :: "u16 \<Rightarrow> int \<Rightarrow> tiny_mqtt \<Rightarrow> client_step" where
  "on_publish_finish pid qos c = (tell c (has_on_publish c) (App_Publish pid qos), c)"

definition on_disconnected :: "tiny_mqtt \<Rightarrow> client_step res" where
  "on_disconnected c =
     (if c_async c then bind (deref (c_conn c)) (\<lambda>_. Inr (Shutdown # tell c (has_on_disconnect c) App_Disconnect, c))
      else Inr ([Quit_Loop], c))"

definition on_qos0_publish_finished :: "tiny_mqtt \<Rightarrow> client_step res" where
  "on_qos0_publish_finished c =
     bind (deref (c_conn c)) (\<lambda>k.
       Inr ([Quit_Loop], c\<lparr>c_conn := Some (k\<lparr>cc_on_write_complete := No_Callback, cc_arg := False\<rparr>)\<rparr>))"

text \<open>What the connection calls when all data has been written, with \<^verbatim>\<open>cb_arg\<close>.\<close>

definition write_complete :: "tiny_mqtt \<Rightarrow> client_step res" where
  "write_complete c =
     bind (deref (c_conn c)) (\<lambda>k.
       case cc_on_write_complete k of
         No_Callback \<Rightarrow> Inr ([], c)
       | cb \<Rightarrow> if \<not> cc_arg k then Inl Null_Deref
               else if cb = On_Disconnected then on_disconnected c else on_qos0_publish_finished c)"

definition on_connect_response :: "nat \<Rightarrow> int \<Rightarrow> connack_pkt \<Rightarrow> tiny_mqtt \<Rightarrow> client_step res" where
  "on_connect_response rnd now p c =
     bind (deref (c_conn c)) (\<lambda>k.
       let o1 = options c;
           s = (case c_session c of
                  None \<Rightarrow> tmq_session_new rnd now False (cc_id k) 0 (str_new (opt_client_id o1)) (opt_username o1)
                            (if opt_clean_session o1 then 1 else 0) (opt_keep_alive o1) (opt_will_topic o1) (opt_will_message o1)
                            (opt_will_qos o1) (if opt_will_retain o1 then 1 else 0) 1 (Memory_Store tmq_message_store_memory_new)
                | Some s \<Rightarrow> s\<lparr>s_state := OPEN, s_conn := cc_id k\<rparr>);
           s = tmq_session_set_publish_finish_callback True s;
           c = c\<lparr>connect_res := uint (return_code p), c_session := Some s,
                 c_conn := Some (k\<lparr>cc_state := IN_SESSION, cc_upstream := Up_Session\<rparr>)\<rparr>
       in Inr (tell c (has_on_connect c) (App_Connect (return_code p)), c))"

definition on_mqtt_subscribe_response :: "suback_pkt \<Rightarrow> tiny_mqtt \<Rightarrow> client_step" where
  "on_mqtt_subscribe_response p c =
     (tell c (has_on_subscribe c) (App_Subscribe (return_codes p)),
      c\<lparr>subscribe_res := if c_async c then [] else return_codes p\<rparr>)"

definition on_mqtt_unsubscribe_response :: "tiny_mqtt \<Rightarrow> client_step" where
  "on_mqtt_unsubscribe_response c = (tell c (has_on_unsubscribe c) App_Unsubscribe, c)"

section \<open>Operations on the session\<close>

definition with_session :: "(tmq_session \<Rightarrow> (session_event list \<times> tmq_session) res) \<Rightarrow> tiny_mqtt \<Rightarrow> client_step res" where
  "with_session f c =
     bind (deref (c_session c)) (\<lambda>s. bind (f s) (\<lambda>(evs, s). Inr (map Session_Event evs, c\<lparr>c_session := Some s\<rparr>)))"

text \<open>Sending DISCONNECT with \<^verbatim>\<open>on_disconnected\<close> as the callback of the connection.\<close>

definition send_disconnect :: "tiny_mqtt \<Rightarrow> client_step res" where
  "send_disconnect c =
     bind (deref (c_conn c)) (\<lambda>k.
       Inr ([Write_Packet DISCONNECT], c\<lparr>c_conn := Some (k\<lparr>cc_on_write_complete := On_Disconnected, cc_arg := True\<rparr>)\<rparr>))"

fun async_step :: "int \<Rightarrow> async_op \<Rightarrow> tiny_mqtt \<Rightarrow> client_step res" where
  "async_step now ASYNC_CONNECT c = Inr ([Start_Connector], c)"
| "async_step now (ASYNC_SUBSCRIBE tf qos) c = with_session (\<lambda>s. Inr (tmq_session_subscribe tf qos s)) c"
| "async_step now (ASYNC_UNSUBSCRIBE tf) c = with_session (\<lambda>s. Inr (tmq_session_unsubscribe tf s)) c"
| "async_step now (ASYNC_PUBLISH t m qos retain) c = with_session (tmq_session_publish now t m qos retain False) c"
| "async_step now ASYNC_DISCONNECT c = send_disconnect c"

fun async_loop :: "int \<Rightarrow> async_op list \<Rightarrow> tiny_mqtt \<Rightarrow> client_step res" where
  "async_loop now [] c = Inr ([], c)"
| "async_loop now (op # ops) c =
     bind (async_step now op c) (\<lambda>(evs, c). bind (async_loop now ops c) (\<lambda>(evs', c). Inr (evs @ evs', c)))"

definition handle_async_operations :: "int \<Rightarrow> tiny_mqtt \<Rightarrow> client_step res" where
  "handle_async_operations now c =
     bind (async_loop now (async_ops c) c) (\<lambda>(evs, c). Inr (evs, c\<lparr>async_ops := []\<rparr>))"

section \<open>The interface\<close>

definition no_options :: connect_options where
  "no_options = \<lparr>opt_username = None, opt_password = None, opt_client_id = None, opt_clean_session = False, opt_keep_alive = 0,
     opt_will_message = None, opt_will_topic = None, opt_will_qos = 0, opt_will_retain = False\<rparr>"

definition tinymqtt_new :: tiny_mqtt where
  "tinymqtt_new =
     \<lparr>c_conn = None, c_session = None, c_ready = False, c_async = False, async_ops = [], options = no_options, connect_res = 0,
      subscribe_res = [], has_on_message = False, has_on_connect = False, has_on_subscribe = False, has_on_unsubscribe = False,
      has_on_publish = False, has_on_disconnect = False\<rparr>"

definition post_op :: "async_op \<Rightarrow> tiny_mqtt \<Rightarrow> client_step" where
  "post_op op c = ([Notify], c\<lparr>async_ops := async_ops c @ [op]\<rparr>)"

definition tinymqtt_connect :: "connect_options \<Rightarrow> tiny_mqtt \<Rightarrow> client_step" where
  "tinymqtt_connect o1 c =
     (let c = c\<lparr>options := o1\<rparr> in if c_async c then post_op ASYNC_CONNECT c else ([Start_Connector, Run_Loop], c))"

definition tinymqtt_subscribe :: "tmq_str \<Rightarrow> u8 \<Rightarrow> tiny_mqtt \<Rightarrow> (int option \<times> client_step) res" where
  "tinymqtt_subscribe tf qos c =
     (if c_session c = None then Inr (Some (-1), [], c)
      else if c_async c then Inr (Some 0, post_op (ASYNC_SUBSCRIBE (cstr tf) qos) c)
      else bind (with_session (\<lambda>s. Inr (tmq_session_subscribe tf qos s)) c) (\<lambda>(evs, c). Inr (None, evs @ [Run_Loop], c)))"

definition tinymqtt_subscribe_end :: "tiny_mqtt \<Rightarrow> int \<times> tiny_mqtt" where
  "tinymqtt_subscribe_end c =
     (case subscribe_res c of [] \<Rightarrow> -1 | r # _ \<Rightarrow> uint r, c\<lparr>subscribe_res := []\<rparr>)"

definition tinymqtt_unsubscribe :: "tmq_str \<Rightarrow> tiny_mqtt \<Rightarrow> client_step res" where
  "tinymqtt_unsubscribe tf c =
     (if c_session c = None then Inr ([], c)
      else if c_async c then Inr (post_op (ASYNC_UNSUBSCRIBE (cstr tf)) c)
      else bind (with_session (\<lambda>s. Inr (tmq_session_unsubscribe tf s)) c) (\<lambda>(evs, c). Inr (evs @ [Run_Loop], c)))"

definition tinymqtt_publish :: "int \<Rightarrow> tmq_str option \<Rightarrow> tmq_str option \<Rightarrow> u8 \<Rightarrow> u8 \<Rightarrow> tiny_mqtt \<Rightarrow> client_step res" where
  "tinymqtt_publish now t m qos retain c =
     (case (t, m) of
        (Some t, Some m) \<Rightarrow>
          if qos > 2 \<or> c_session c = None then Inr ([], c)
          else if c_async c then Inr (post_op (ASYNC_PUBLISH (cstr t) (cstr m) qos retain) c)
          else
            bind (if qos = 0 then bind (deref (c_conn c)) (\<lambda>k. Inr (c\<lparr>c_conn := Some
                    (k\<lparr>cc_on_write_complete := On_Qos0_Publish_Finished, cc_arg := True\<rparr>)\<rparr>)) else Inr c) (\<lambda>c.
              bind (with_session (tmq_session_publish now t m qos retain False) c) (\<lambda>(evs, c). Inr (evs @ [Run_Loop], c)))
      | _ \<Rightarrow> Inr ([], c))"

definition tinymqtt_disconnect :: "tiny_mqtt \<Rightarrow> client_step res" where
  "tinymqtt_disconnect c =
     (if c_async c then Inr (post_op ASYNC_DISCONNECT c)
      else bind (send_disconnect c) (\<lambda>(evs, c). Inr (evs @ [Run_Loop], c)))"

definition tinymqtt_disconnect_end :: "tiny_mqtt \<Rightarrow> client_step res" where
  "tinymqtt_disconnect_end c = bind (deref (c_conn c)) (\<lambda>_. Inr ([Shutdown], c))"

text \<open>\<^verbatim>\<open>2 * SEC_US(keep_alive)\<close>: the 16-bit number is promoted to a 32-bit signed integer, in which the product wraps around.\<close>

definition ping_deadline :: "u16 \<Rightarrow> int" where
  "ping_deadline keep = sint (2 * (ucast keep * 1000000) :: u32)"

definition ping :: "int \<Rightarrow> tiny_mqtt \<Rightarrow> client_step res" where
  "ping now c =
     bind (deref (c_session c)) (\<lambda>s.
       if now - last_pkt_ts s > ping_deadline (opt_keep_alive (options c)) then
         if c_async c then bind (deref (c_conn c)) (\<lambda>_. Inr (Shutdown # tell c (has_on_disconnect c) App_Disconnect, c))
         else Inr ([Quit_Loop], c)
       else bind (deref (c_conn c)) (\<lambda>_. Inr ([Write_Packet PINGREQ], c)))"

definition tinymqtt_loop :: "tiny_mqtt \<Rightarrow> client_step" where
  "tinymqtt_loop c =
     ((if opt_keep_alive (options c) > 0 then [Start_Ping_Timer (unat (opt_keep_alive (options c)) * 1000)] else []) @ [Run_Loop], c)"

definition io_thread_func :: "tiny_mqtt \<Rightarrow> client_step" where
  "io_thread_func c = tinymqtt_loop (c\<lparr>c_ready := True, c_async := True\<rparr>)"

section \<open>The broker understands the options\<close>

text \<open>Options that can be sent: strings without NUL that fit their 16-bit length, a client identifier, and a will with a topic.\<close>

definition sendable_opt :: "tmq_str option \<Rightarrow> bool" where
  "sendable_opt s = (case s of None \<Rightarrow> True | Some t \<Rightarrow> c_str t)"

definition options_ok :: "connect_options \<Rightarrow> bool" where
  "options_ok o1 \<longleftrightarrow> sendable_opt (opt_username o1) \<and> sendable_opt (opt_password o1) \<and> sendable_opt (opt_will_message o1) \<and>
     sendable_opt (opt_will_topic o1) \<and> sendable_opt (opt_client_id o1) \<and> opt_client_id o1 \<notin> {None, Some []} \<and>
     opt_will_qos o1 \<le> 2 \<and> (opt_will_message o1 \<noteq> None \<longrightarrow> opt_will_topic o1 \<noteq> None)"

lemma qos_cases: "q \<le> (2 :: u8) \<Longrightarrow> q \<in> {0, 1, 2}"
proof -
  assume "q \<le> 2"
  then have "unat q \<le> 2" by (simp add: word_le_nat_alt)
  then consider "unat q = 0" | "unat q = 1" | "unat q = 2" by linarith
  then have "(of_nat (unat q) :: u8) \<in> {0, 1, 2}" by cases simp_all
  then show ?thesis by simp
qed

lemma flags_read:
  assumes "opt_will_qos o1 \<le> 2"
  shows "\<not> CONNECT_RESERVED (connect_flags o1)"
    and "CONNECT_CLEAN_SESSION (connect_flags o1) = opt_clean_session o1"
    and "CONNECT_WILL_FLAG (connect_flags o1) = (opt_will_message o1 \<noteq> None)"
    and "CONNECT_WILL_QOS (connect_flags o1) = (if opt_will_message o1 = None then 0 else opt_will_qos o1)"
    and "CONNECT_WILL_RETAIN (connect_flags o1) = (opt_will_message o1 \<noteq> None \<and> opt_will_retain o1)"
    and "CONNECT_USERNAME_FLAG (connect_flags o1) = (opt_username o1 \<noteq> None)"
    and "CONNECT_PASSWORD_FLAG (connect_flags o1) = (opt_password o1 \<noteq> None)"
  using qos_cases [OF assms]
  by (auto simp: connect_flags_def Let_def CONNECT_RESERVED_def CONNECT_CLEAN_SESSION_def CONNECT_WILL_FLAG_def
      CONNECT_WILL_QOS_def CONNECT_WILL_RETAIN_def CONNECT_USERNAME_FLAG_def CONNECT_PASSWORD_FLAG_def)

lemma sendable_cstr: "sendable_opt s \<Longrightarrow> map_option cstr s = s"
  by (cases s) (simp_all add: sendable_opt_def c_str_def)

lemma connect_packet_acceptable: "options_ok o1 \<Longrightarrow> acceptable_connect (connect_packet o1)"
  using flags_read [of o1]
  by (auto simp: options_ok_def acceptable_connect_def connect_packet_def str_new_def sendable_opt_def opt_str_def c_str_def
      split: option.splits)

text \<open>
  C40. The broker sees the options of the client. For well-formed options, the CONNECT that the client writes when its connection is
  established stays inside its buffer, and the broker's decoder delivers a CONNECT whose flags, keep-alive time, client identifier, will, user
  name and password are those of the options.
\<close>

theorem client_options_arrive:
  assumes "options_ok (options c)" and "length (packet_body (CONNECT (connect_packet (options c)))) < 128 ^ 4"
    and "parse_state d = PARSING_FIXED_HEADER" and "upstream d = Up_Broker"
  shows "\<exists>p bs d'. fst (on_tcp_connected k c) = [Write_Packet (CONNECT p)] \<and> send_connect_packet p = Inr (Some bs) \<and>
    decode_tcp_message (\<lambda>_ s. s) SERVER_CODEC d bs = Inr ([Deliver (CONNECT p)], d', []) \<and>
    CONNECT_CLEAN_SESSION (conn_flags p) = opt_clean_session (options c) \<and> keep_alive p = opt_keep_alive (options c) \<and>
    client_id p = opt_client_id (options c) \<and> username p = opt_username (options c) \<and> password p = opt_password (options c) \<and>
    will_message p = opt_will_message (options c) \<and>
    (opt_will_message (options c) \<noteq> None \<longrightarrow> will_topic p = opt_will_topic (options c) \<and>
       CONNECT_WILL_QOS (conn_flags p) = opt_will_qos (options c) \<and> CONNECT_WILL_RETAIN (conn_flags p) = opt_will_retain (options c))"
proof -
  let ?p = "connect_packet (options c)"
  have q: "opt_will_qos (options c) \<le> 2" using assms(1) by (simp add: options_ok_def)
  obtain bs d' where d: "send_connect_packet ?p = Inr (Some bs)"
      "decode_tcp_message (\<lambda>_ s. s) SERVER_CODEC d bs = Inr ([Deliver (CONNECT ?p)], d', [])"
    using connect_delivered [OF connect_packet_acceptable [OF assms(1)] assms(2-4), of "\<lambda>_ s. s"] by auto
  have "client_id ?p = opt_client_id (options c)"
    using assms(1) by (auto simp: connect_packet_def str_new_def options_ok_def sendable_opt_def c_str_def split: option.splits)
  moreover have "username ?p = opt_username (options c)" "password ?p = opt_password (options c)"
      "will_message ?p = opt_will_message (options c)"
    using assms(1) by (simp_all add: connect_packet_def options_ok_def sendable_cstr)
  moreover have "opt_will_message (options c) \<noteq> None \<Longrightarrow> will_topic ?p = opt_will_topic (options c)"
    using assms(1) by (auto simp: connect_packet_def str_new_def options_ok_def sendable_opt_def c_str_def split: option.splits)
  moreover have "conn_flags ?p = connect_flags (options c)" "keep_alive ?p = opt_keep_alive (options c)"
    by (simp_all add: connect_packet_def)
  moreover note flags_read [OF q]
  ultimately show ?thesis using d
    by (intro exI [of _ ?p] exI [of _ bs] exI [of _ d']) (auto simp: on_tcp_connected_def)
qed

definition example_options :: connect_options where
  "example_options = no_options\<lparr>opt_client_id := Some ''dev'', opt_username := Some ''bob'', opt_will_message := Some ''gone'',
     opt_will_topic := Some ''t'', opt_will_qos := 1, opt_keep_alive := 60\<rparr>"

definition fresh_conn :: conn_ctx where
  "fresh_conn = \<lparr>upstream = Up_Broker, conn_state = NO_SESSION, parse_state = PARSING_FIXED_HEADER, type_flags = 0,
     remain_length = 0, multiplier = 0\<rparr>"

theorem client_options_arrive_witness:
  "\<exists>p bs d'. fst (on_tcp_connected 1 (tinymqtt_new\<lparr>options := example_options\<rparr>)) = [Write_Packet (CONNECT p)] \<and>
     decode_tcp_message (\<lambda>_ s. s) SERVER_CODEC fresh_conn bs = Inr ([Deliver (CONNECT p)], d', []) \<and>
     client_id p = Some ''dev'' \<and> will_topic p = Some ''t'' \<and> CONNECT_WILL_QOS (conn_flags p) = 1"
proof -
  have o: "options_ok example_options" "opt_client_id example_options = Some ''dev''" "opt_will_topic example_options = Some ''t''"
      "opt_will_qos example_options = 1" "opt_will_message example_options \<noteq> None"
    by (simp_all add: example_options_def no_options_def options_ok_def sendable_opt_def c_str_def)
  have l: "length (packet_body (CONNECT (connect_packet example_options))) < 128 ^ 4"
    by (simp add: example_options_def no_options_def connect_packet_def str_new_def lstr_if_def connect_flags_def
        CONNECT_WILL_FLAG_def CONNECT_USERNAME_FLAG_def CONNECT_PASSWORD_FLAG_def)
  show ?thesis
    using client_options_arrive [of "tinymqtt_new\<lparr>options := example_options\<rparr>" fresh_conn 1] o l
    by (auto simp: fresh_conn_def simp del: packet_body.simps)
qed

section \<open>What goes wrong\<close>

text \<open>
  After a synchronous QoS 0 publish the argument of the connection's callbacks is NULL, and closing the connection dereferences it. The timer
  for PINGREQ outlives a clean session, which it then dereferences.
\<close>

definition connected :: tiny_mqtt where
  "connected = (case on_connect_response 0 0 \<lparr>ack_flags = 0, return_code = 0\<rparr>
     (snd (on_tcp_connected 1 (tinymqtt_new\<lparr>options := example_options\<lparr>opt_clean_session := True\<rparr>\<rparr>))) of Inr (_, c) \<Rightarrow> c | Inl _ \<Rightarrow> tinymqtt_new)"

theorem close_after_qos0_publish_faults:
  "case bind (tinymqtt_publish 0 (Some ''t'') (Some ''m'') 0 0 connected) (\<lambda>(_, c). write_complete c) of
     Inl _ \<Rightarrow> False
   | Inr (_, c) \<Rightarrow> (case tcp_conn_close_cb (the (c_conn c)) c of Inl f \<Rightarrow> f = Null_Deref | Inr _ \<Rightarrow> False)"
  by code_simp

theorem ping_after_close_faults:
  "case tcp_conn_close_cb (the (c_conn connected)) connected of
     Inl _ \<Rightarrow> False | Inr (_, c) \<Rightarrow> (case ping 1 c of Inl f \<Rightarrow> f = Null_Deref | Inr _ \<Rightarrow> False)"
  by code_simp

text \<open>With a keep-alive time of 1100 seconds the deadline is negative: the first ping gives up although the broker has just answered.\<close>

theorem ping_deadline_overflows:
  "ping_deadline 60 = 120000000 \<and> ping_deadline 1100 < 0 \<and>
   (case ping 0 (connected\<lparr>options := example_options\<lparr>opt_keep_alive := 1100\<rparr>\<rparr>) of Inl _ \<Rightarrow> False | Inr (evs, _) \<Rightarrow> evs = [Quit_Loop])"
  by code_simp

end
