(* ===== verification/Hash_Map.thy ===== *)
theory Hash_Map
  imports Dict
begin

text \<open>
  The hash table of \<^verbatim>\<open>base/mqtt_map.c\<close>: an array of buckets (singly linked lists, kept here as
  lists from the head), whose length is a power of two so that a bucket is chosen with a bit mask.
  The record \<open>tmq_map\<close> has the fields of \<^verbatim>\<open>tmq_map_base_t\<close>; keys are compared by value (for a
  string map that is \<^verbatim>\<open>strcmp\<close>, so a string key stands for its \<open>cstr\<close>). Allocation is taken to
  succeed, so \<^verbatim>\<open>tmq_map_put_\<close> always returns 0 and the model returns only the new table.

  Shown here: the capacity computed by \<open>tmq_map_alloc_buckets\<close> is the least power of two above
  the request; every operation keeps the table well-formed (each entry in the bucket of its hash,
  keys unique, size the number of entries), in particular the asserted bucket bound holds; and the
  table implements the dictionary interface \<open>dict\<close>, including what its iterator visits.
\<close>

section \<open>Hash functions\<close>

definition MURMUR_M :: u64 where
  "MURMUR_M = 0xc6a4a7935bd1e995"

fun le_word :: "bytes \<Rightarrow> u64" where
  "le_word [] = 0"
| "le_word (b # bs) = ucast b OR push_bit 8 (le_word bs)"

text \<open>The loop over full groups of eight bytes; \<^verbatim>\<open>memcpy\<close> into a 64-bit integer is little-endian.\<close>

fun hash_groups :: "nat \<Rightarrow> bytes \<Rightarrow> u64 \<Rightarrow> u64" where
  "hash_groups 0 p h = h"
| "hash_groups (Suc n) p h =
     (let k = le_word (take 8 p) * MURMUR_M;
          k = (k XOR drop_bit 47 k) * MURMUR_M
      in hash_groups n (drop 8 p) ((h XOR k) * MURMUR_M))"

text \<open>The fall-through switch over the remaining bytes, highest first.\<close>

fun hash_tail :: "nat \<Rightarrow> bytes \<Rightarrow> u64 \<Rightarrow> u64" where
  "hash_tail 0 p h = h"
| "hash_tail (Suc n) p h =
     (let h = h XOR push_bit (8 * n) (ucast (p ! n))
      in if n = 0 then h * MURMUR_M else hash_tail n p h)"

definition hash_str :: "tmq_str \<Rightarrow> u32" where
  "hash_str s =
     (let p = bytes_of_str (cstr s);
          len = length p;
          h = hash_groups (len div 8) p (of_nat len * MURMUR_M);
          h = hash_tail (len mod 8) (drop (8 * (len div 8)) p) h;
          h = (h XOR drop_bit 47 h) * MURMUR_M;
          h = h XOR drop_bit 47 h
      in ucast h)"

definition hash_32 :: "u32 \<Rightarrow> u32" where
  "hash_32 k = k"

definition hash_64 :: "u64 \<Rightarrow> u32" where
  "hash_64 k = ucast k XOR ucast (drop_bit 32 k)"

section \<open>The table\<close>

record ('k, 'v) map_entry =
  ehash :: u32
  ekey :: 'k
  evalue :: 'v

record ('k, 'v) tmq_map =
  hash_fn :: "'k \<Rightarrow> u32"
  buckets :: "('k, 'v) map_entry list list"
  mcap :: u32
  msize :: u32
  load_fac :: u32
  remap_thresh :: u32

definition tmq_map_entry_new :: "('k, 'v) tmq_map \<Rightarrow> 'k \<Rightarrow> 'v \<Rightarrow> ('k, 'v) map_entry" where
  "tmq_map_entry_new m k v = \<lparr>ehash = hash_fn m k, ekey = k, evalue = v\<rparr>"

abbreviation UINT32_MAX :: u32 where
  "UINT32_MAX \<equiv> 0xffffffff"

definition smear :: "u32 \<Rightarrow> u32" where
  "smear v = fold (\<lambda>i v. v OR drop_bit i v) [1, 2, 4, 8, 16] v"

definition tmq_map_alloc_buckets ::
    "u32 \<Rightarrow> u32 \<Rightarrow> (u32 \<times> ('k, 'v) map_entry list list) option" where
  "tmq_map_alloc_buckets cap grow_factor =
     (if cap > UINT32_MAX div grow_factor then None
      else
        let v = (if cap < 8 then 8 else cap * grow_factor);
            v = smear (v - 1) + 1
        in Some (v, replicate (unat v) []))"

definition tmq_map_bucket_index :: "u32 \<Rightarrow> u32 \<Rightarrow> nat" where
  "tmq_map_bucket_index cap h = unat (h AND (cap - 1))"

definition entry_is :: "u32 \<Rightarrow> 'k \<Rightarrow> ('k, 'v) map_entry \<Rightarrow> bool" where
  "entry_is h k e \<longleftrightarrow> h = ehash e \<and> ekey e = k"

text \<open>
  \<open>tmq_map_find_entry\<close> returns the bucket and the position of the first entry whose stored hash
  and key agree: the position stands for the pair of pointers \<^verbatim>\<open>entry\<close> and \<^verbatim>\<open>prev\<close>.
\<close>

fun bucket_find :: "u32 \<Rightarrow> 'k \<Rightarrow> ('k, 'v) map_entry list \<Rightarrow> nat option" where
  "bucket_find h k [] = None"
| "bucket_find h k (e # es) =
     (if entry_is h k e then Some 0 else map_option Suc (bucket_find h k es))"

definition tmq_map_find_entry :: "('k, 'v) tmq_map \<Rightarrow> 'k \<Rightarrow> (nat \<times> nat) option" where
  "tmq_map_find_entry m k =
     (let h = hash_fn m k;
          b = tmq_map_bucket_index (mcap m) h
      in map_option (Pair b) (bucket_find h k (buckets m ! b)))"

definition tmq_map_insert_entry ::
    "u32 \<Rightarrow> ('k, 'v) map_entry \<Rightarrow> ('k, 'v) map_entry list list \<Rightarrow> ('k, 'v) map_entry list list" where
  "tmq_map_insert_entry cap e bs =
     (let i = tmq_map_bucket_index cap (ehash e) in bs[i := e # bs ! i])"

definition tmq_map_grow :: "('k, 'v) tmq_map \<Rightarrow> int \<times> ('k, 'v) tmq_map" where
  "tmq_map_grow m =
     (if msize m < remap_thresh m then (0, m)
      else case tmq_map_alloc_buckets (mcap m) 2 of
        None \<Rightarrow> (-1, m)
      | Some (cap, bs) \<Rightarrow>
          (0, m\<lparr>buckets := fold (fold (tmq_map_insert_entry cap)) (buckets m) bs,
                mcap := cap,
                remap_thresh := cap * load_fac m div 100\<rparr>))"

definition tmq_map_new :: "u32 \<Rightarrow> u32 \<Rightarrow> ('k \<Rightarrow> u32) \<Rightarrow> ('k, 'v) tmq_map option" where
  "tmq_map_new cap factor h =
     (if factor > 95 \<or> factor < 25 then None
      else case tmq_map_alloc_buckets cap 1 of
        None \<Rightarrow> None
      | Some (c, bs) \<Rightarrow>
          Some \<lparr>hash_fn = h, buckets = bs, mcap = c, msize = 0, load_fac = factor,
                remap_thresh = c * factor div 100\<rparr>)"

definition tmq_map_put :: "('k, 'v) tmq_map \<Rightarrow> 'k \<Rightarrow> 'v \<Rightarrow> ('k, 'v) tmq_map" where
  "tmq_map_put m k v =
     (case tmq_map_find_entry m k of
        Some (b, i) \<Rightarrow>
          m\<lparr>buckets := (buckets m)[b := (buckets m ! b)[i := (buckets m ! b ! i)\<lparr>evalue := v\<rparr>]]\<rparr>
      | None \<Rightarrow>
          let e = tmq_map_entry_new m k v;
              m = (if msize m \<ge> remap_thresh m then snd (tmq_map_grow m) else m)
          in m\<lparr>buckets := tmq_map_insert_entry (mcap m) e (buckets m), msize := msize m + 1\<rparr>)"

definition tmq_map_get :: "('k, 'v) tmq_map \<Rightarrow> 'k \<Rightarrow> 'v option" where
  "tmq_map_get m k =
     map_option (\<lambda>(b, i). evalue (buckets m ! b ! i)) (tmq_map_find_entry m k)"

definition tmq_map_erase :: "('k, 'v) tmq_map \<Rightarrow> 'k \<Rightarrow> ('k, 'v) tmq_map" where
  "tmq_map_erase m k =
     (case tmq_map_find_entry m k of
        None \<Rightarrow> m
      | Some (b, i) \<Rightarrow>
          m\<lparr>buckets := (buckets m)[b := take i (buckets m ! b) @ drop (Suc i) (buckets m ! b)],
            msize := msize m - 1\<rparr>)"

definition tmq_map_clear :: "('k, 'v) tmq_map \<Rightarrow> ('k, 'v) tmq_map" where
  "tmq_map_clear m = m\<lparr>buckets := map (\<lambda>_. []) (buckets m), msize := 0\<rparr>"

definition tmq_map_swap :: "'m \<times> 'm \<Rightarrow> 'm \<times> 'm" where
  "tmq_map_swap = (\<lambda>(m1, m2). (m2, m1))"

section \<open>Iteration\<close>

text \<open>
  An iterator is the current bucket and the position in it; \<open>None\<close> is the end
  (\<^verbatim>\<open>bucket_idx == UINT32_MAX\<close>).
\<close>

type_synonym map_iter = "(nat \<times> nat) option"

function tmq_next_bucket :: "('k, 'v) tmq_map \<Rightarrow> nat \<Rightarrow> nat option" where
  "tmq_next_bucket m cur =
     (if cur < unat (mcap m)
      then (if buckets m ! cur \<noteq> [] then Some cur else tmq_next_bucket m (Suc cur))
      else None)"
  by pat_completeness auto
termination
  by (relation "measure (\<lambda>(m, cur). unat (mcap m) - cur)") auto

declare tmq_next_bucket.simps [simp del]

definition tmq_map_iter :: "('k, 'v) tmq_map \<Rightarrow> map_iter" where
  "tmq_map_iter m = map_option (\<lambda>b. (b, 0)) (tmq_next_bucket m 0)"

definition tmq_map_iter_next :: "('k, 'v) tmq_map \<Rightarrow> map_iter \<Rightarrow> map_iter" where
  "tmq_map_iter_next m it =
     (case it of
        None \<Rightarrow> None
      | Some (b, i) \<Rightarrow>
          if Suc i < length (buckets m ! b) then Some (b, Suc i)
          else map_option (\<lambda>b. (b, 0)) (tmq_next_bucket m (Suc b)))"

definition iter_entry :: "('k, 'v) tmq_map \<Rightarrow> nat \<times> nat \<Rightarrow> 'k \<times> 'v" where
  "iter_entry m = (\<lambda>(b, i). (ekey (buckets m ! b ! i), evalue (buckets m ! b ! i)))"

text \<open>
  The client loop \<^verbatim>\<open>for(it = tmq_map_iter(m); tmq_map_has_next(it); tmq_map_next(m, it))\<close>, with
  the number of steps it may take.
\<close>

fun map_walk :: "('k, 'v) tmq_map \<Rightarrow> nat \<Rightarrow> map_iter \<Rightarrow> ('k \<times> 'v) list option" where
  "map_walk m fuel None = Some []"
| "map_walk m 0 (Some p) = None"
| "map_walk m (Suc fuel) (Some p) =
     map_option ((#) (iter_entry m p)) (map_walk m fuel (tmq_map_iter_next m (Some p)))"

section \<open>The capacity is a power of two\<close>

text \<open>
  Each step \<^verbatim>\<open>v |= v >> i\<close> doubles the distance over which the set bits of \<open>v\<close> are smeared
  downwards; after \<open>1, 2, 4, 8, 16\<close> every bit below a set bit is set.
\<close>

definition smeared :: "u32 \<Rightarrow> nat \<Rightarrow> u32 \<Rightarrow> bool" where
  "smeared v n w \<longleftrightarrow> (\<forall>i. bit w i \<longleftrightarrow> (\<exists>d<n. bit v (i + d)))"

lemma smeared_start: "smeared v 1 v"
  by (simp add: smeared_def)

lemma smeared_step: "smeared v n w \<Longrightarrow> smeared v (2 * n) (w OR drop_bit n w)"
  unfolding smeared_def
proof (intro allI)
  fix i
  assume w: "\<forall>i. bit w i \<longleftrightarrow> (\<exists>d<n. bit v (i + d))"
  have "(\<exists>d<2 * n. bit v (i + d)) \<longleftrightarrow> (\<exists>d<n. bit v (i + d)) \<or> (\<exists>d<n. bit v (i + n + d))"
  proof
    assume "\<exists>d<2 * n. bit v (i + d)"
    then obtain d where d: "d < 2 * n" "bit v (i + d)" by blast
    show "(\<exists>d<n. bit v (i + d)) \<or> (\<exists>d<n. bit v (i + n + d))"
    proof (cases "d < n")
      case False
      then have "d - n < n" "bit v (i + n + (d - n))" using d by simp_all
      then show ?thesis by blast
    qed (use d in blast)
  next
    assume "(\<exists>d<n. bit v (i + d)) \<or> (\<exists>d<n. bit v (i + n + d))"
    then show "\<exists>d<2 * n. bit v (i + d)"
    proof
      assume "\<exists>d<n. bit v (i + n + d)"
      then obtain d where "d < n" "bit v (i + n + d)" by blast
      then have "n + d < 2 * n \<and> bit v (i + (n + d))" by (simp add: add.assoc)
      then show ?thesis by blast
    qed (use less_le_trans in fastforce)
  qed
  then show "bit (w OR drop_bit n w) i \<longleftrightarrow> (\<exists>d<2 * n. bit v (i + d))"
    using w by (simp add: bit_or_iff bit_drop_bit_eq add.commute)
qed

lemma smeared_smear: "smeared v 32 (smear v)"
proof -
  have 1: "smeared v 2 (v OR drop_bit 1 v)" using smeared_step [OF smeared_start] by simp
  note 2 = smeared_step [OF 1, simplified]
  note 3 = smeared_step [OF 2, simplified]
  note 4 = smeared_step [OF 3, simplified]
  note 5 = smeared_step [OF 4, simplified]
  show ?thesis using 5 by (simp add: smear_def)
qed

lemma smear_bit: "bit (smear v) i \<longleftrightarrow> (\<exists>j\<ge>i. bit v j)"
proof -
  have "(\<exists>d<32. bit v (i + d)) \<longleftrightarrow> (\<exists>j\<ge>i. bit v j)"
  proof
    assume "\<exists>j\<ge>i. bit v j"
    then obtain j where j: "i \<le> j" "bit v j" by blast
    then have "j < 32" using bit_imp_le_length [of v j] by simp
    then show "\<exists>d<32. bit v (i + d)" using j by (intro exI [of _ "j - i"]) simp
  qed (use le_add1 in blast)
  then show ?thesis using smeared_smear [of v] by (simp add: smeared_def)
qed

lemma smear_mask:
  assumes "bit v h" and "\<And>j. h < j \<Longrightarrow> \<not> bit v j"
  shows "smear v = mask (Suc h)"
proof (rule bit_eqI)
  fix n
  assume "possible_bit TYPE(32 word) n"
  then have "n < 32" by (simp add: possible_bit_def)
  moreover have "(\<exists>j\<ge>n. bit v j) \<longleftrightarrow> n \<le> h"
    using assms by (meson le_trans not_le)
  ultimately show "bit (smear v) n \<longleftrightarrow> bit (mask (Suc h) :: u32) n"
    by (simp add: smear_bit bit_mask_iff possible_bit_def less_Suc_eq_le)
qed

lemma highest_bit:
  fixes v :: u32
  assumes "v \<noteq> 0"
  obtains h where "h < 32" "bit v h" "\<And>j. h < j \<Longrightarrow> \<not> bit v j"
proof -
  let ?S = "{j. bit v j}"
  have fin: "finite ?S"
    by (rule finite_subset [of _ "{..<32}"]) (auto dest: bit_imp_le_length)
  have ne: "?S \<noteq> {}" using assms by (auto simp: bit_eq_iff)
  from Max_in [OF fin ne] have "bit v (Max ?S)" by simp
  moreover from this have "Max ?S < 32" using bit_imp_le_length by fastforce
  moreover have "\<not> bit v j" if "Max ?S < j" for j
    using that fin by (metis Max_ge mem_Collect_eq not_le)
  ultimately show ?thesis using that by blast
qed

lemma unat_bounds_of_highest:
  fixes v :: u32
  assumes "h < 32" "bit v h" "\<And>j. h < j \<Longrightarrow> \<not> bit v j"
  shows "2 ^ h \<le> unat v" "unat v < 2 ^ Suc h"
proof -
  have b: "bit (unat v) n \<longleftrightarrow> bit v n" for n
    by (simp add: bit_unsigned_iff possible_bit_def)
  have "take_bit (Suc h) (unat v) = unat v"
    by (rule bit_eqI) (metis assms(3) b bit_take_bit_iff less_Suc_eq_le not_less)
  then show "unat v < 2 ^ Suc h" by (metis take_bit_nat_less_exp)
  show "2 ^ h \<le> unat v"
  proof (rule ccontr)
    assume "\<not> 2 ^ h \<le> unat v"
    then have "unat v div 2 ^ h = 0" by simp
    then show False using assms(2) b [of h] by (simp add: bit_iff_odd)
  qed
qed

text \<open>Rounding up: \<open>smear (v - 1) + 1\<close> is the least power of two that is at least \<open>v\<close>.\<close>

lemma smear_round_up:
  fixes v :: u32
  assumes "2 \<le> unat v" "unat v \<le> 2 ^ 31"
  shows "\<exists>k. 0 < k \<and> k < 32 \<and> smear (v - 1) + 1 = 2 ^ k \<and> unat v \<le> 2 ^ k \<and> 2 ^ (k - 1) < unat v"
proof -
  have v1: "unat (v - 1) = unat v - 1"
    using assms by (subst unat_sub) (auto simp: word_le_nat_alt)
  then have "v - 1 \<noteq> 0" using assms by auto
  then obtain h where h: "h < 32" "bit (v - 1) h" "\<And>j. h < j \<Longrightarrow> \<not> bit (v - 1) j"
    using highest_bit by blast
  note bd = unat_bounds_of_highest [OF h]
  have "(2::nat) ^ h < 2 ^ 31"
    using bd(1) v1 assms by linarith
  then have h31: "h < 31" by (rule power_less_imp_less_exp [rotated]) simp
  have "smear (v - 1) + 1 = 2 ^ Suc h"
    by (simp add: smear_mask [OF h(2,3)] mask_eq_exp_minus_1)
  moreover have "unat v \<le> 2 ^ Suc h" "2 ^ h < unat v"
    using bd v1 assms(1) by linarith+
  ultimately show ?thesis using h31
    by (intro exI [of _ "Suc h"]) simp
qed

lemma alloc_buckets_new:
  assumes "unat cap \<le> 2 ^ 31"
  shows "\<exists>k. 0 < k \<and> k < 32 \<and>
     tmq_map_alloc_buckets cap 1 = Some (2 ^ k, replicate (2 ^ k) []) \<and>
     max 8 (unat cap) \<le> 2 ^ k \<and> 2 ^ (k - 1) < max 8 (unat cap)"
proof -
  define v where "v = (if cap < 8 then 8 else cap)"
  have v: "unat v = max 8 (unat cap)" "2 \<le> unat v" "unat v \<le> 2 ^ 31"
    using assms by (auto simp: v_def word_less_nat_alt)
  from smear_round_up [OF v(2,3)] obtain k where
    k: "0 < k" "k < 32" "smear (v - 1) + 1 = 2 ^ k" "unat v \<le> 2 ^ k" "2 ^ (k - 1) < unat v"
    by blast
  have "unat (2 ^ k :: u32) = 2 ^ k" using k(2) by (simp add: unat_pow2)
  moreover have "\<not> cap > UINT32_MAX div 1"
    using assms by (simp add: word_less_nat_alt)
  moreover have "(if cap < 8 then 8 else cap * 1) = v" by (simp add: v_def)
  ultimately have "tmq_map_alloc_buckets cap 1 = Some (2 ^ k, replicate (2 ^ k) [])"
    unfolding tmq_map_alloc_buckets_def Let_def by (simp only: k if_False)
  then show ?thesis using k(1,2,4,5) v(1) by auto
qed

lemma alloc_buckets_double:
  assumes "3 \<le> k" "k < 32"
  shows "tmq_map_alloc_buckets (2 ^ k) 2 =
    (if k < 31 then Some (2 ^ Suc k, replicate (2 ^ Suc k) []) else None)"
proof -
  have u: "unat (2 ^ k :: u32) = 2 ^ k" using assms(2) by (simp add: unat_pow2)
  have d: "UINT32_MAX div 2 = 2147483647" by simp
  have lt: "(2::nat) ^ k \<le> 2147483647 \<longleftrightarrow> k < 31"
  proof
    assume "k < 31"
    then have "(2::nat) ^ k \<le> 2 ^ 30" by (intro power_increasing) auto
    then show "(2::nat) ^ k \<le> 2147483647" by simp
  next
    assume "(2::nat) ^ k \<le> 2147483647"
    then have "(2::nat) ^ k < 2 ^ 31" by simp
    then show "k < 31" by (rule power_less_imp_less_exp [rotated]) simp
  qed
  have gt: "(2 ^ k :: u32) > UINT32_MAX div 2 \<longleftrightarrow> \<not> k < 31"
    using lt by (simp add: d word_less_nat_alt u not_le [symmetric])
  have ge8: "\<not> (2 ^ k :: u32) < 8"
    using power_increasing [OF assms(1), of "2::nat"] by (simp add: word_less_nat_alt u)
  show ?thesis
  proof (cases "k < 31")
    case True
    have "unat ((2::u32) ^ Suc k) = 2 ^ Suc k" using True by (subst unat_pow2) auto
    moreover have "smear (2 ^ Suc k - 1) + 1 = (2 ^ Suc k :: u32)"
    proof -
      have "smear (mask (Suc k)) = mask (Suc k)"
        by (rule smear_mask) (use True in \<open>auto simp: bit_mask_iff possible_bit_def\<close>)
      then show ?thesis by (simp add: mask_eq_exp_minus_1)
    qed
    ultimately show ?thesis using True gt ge8
      by (simp add: tmq_map_alloc_buckets_def Let_def mult.commute)
  next
    case False
    then show ?thesis using gt by (simp add: tmq_map_alloc_buckets_def)
  qed
qed

lemma bucket_index_less:
  assumes "k < 32"
  shows "tmq_map_bucket_index (2 ^ k) h < 2 ^ k"
proof -
  have "tmq_map_bucket_index (2 ^ k) h = unat (take_bit k h)"
    by (simp add: tmq_map_bucket_index_def take_bit_eq_mask mask_eq_exp_minus_1)
  also have "\<dots> < 2 ^ k"
    using assms by (simp add: unsigned_take_bit_eq take_bit_nat_less_exp)
  finally show ?thesis .
qed

text \<open>The masked hash is the remainder, which the comment in the source relies on.\<close>

lemma bucket_index_mod: "k < 32 \<Longrightarrow> tmq_map_bucket_index (2 ^ k) h = unat h mod 2 ^ k"
  by (simp add: tmq_map_bucket_index_def take_bit_eq_mod [symmetric] unsigned_take_bit_eq
      flip: mask_eq_exp_minus_1 take_bit_eq_mask)

section \<open>Well-formed tables\<close>

definition entry_kv :: "('k, 'v) map_entry \<Rightarrow> 'k \<times> 'v" where
  "entry_kv e = (ekey e, evalue e)"

definition map_entries :: "('k, 'v) tmq_map \<Rightarrow> ('k \<times> 'v) list" where
  "map_entries m = map entry_kv (concat (buckets m))"

definition buckets_ok :: "('k \<Rightarrow> u32) \<Rightarrow> u32 \<Rightarrow> ('k, 'v) map_entry list list \<Rightarrow> bool" where
  "buckets_ok h cap bs \<longleftrightarrow>
     length bs = unat cap \<and>
     (\<forall>i<length bs. \<forall>e\<in>set (bs ! i). ehash e = h (ekey e) \<and> tmq_map_bucket_index cap (h (ekey e)) = i) \<and>
     distinct (map ekey (concat bs))"

definition map_ok :: "('k, 'v) tmq_map \<Rightarrow> bool" where
  "map_ok m \<longleftrightarrow>
     (\<exists>k\<in>{3..<32}. mcap m = 2 ^ k) \<and>
     buckets_ok (hash_fn m) (mcap m) (buckets m) \<and>
     msize m = of_nat (length (concat (buckets m)))"

lemma set_concat_nth: "set (concat bs) = (\<Union>i<length bs. set (bs ! i))"
  by (auto simp: in_set_conv_nth [of _ bs]) (use nth_mem in blast)

lemma mset_concat_update:
  "i < length bs \<Longrightarrow>
   mset (concat (bs[i := x])) + mset (bs ! i) = mset (concat bs) + mset x"
proof (induction bs arbitrary: i)
  case (Cons b bs)
  then show ?case by (cases i) (auto simp: ac_simps)
qed simp

lemma distinct_nth_concat:
  "distinct (map f (concat bs)) \<Longrightarrow> i < length bs \<Longrightarrow> distinct (map f (bs ! i))"
  by (induction bs arbitrary: i) (auto simp: nth_Cons split: nat.splits)

lemma distinct_map_mset:
  "mset xs = mset ys \<Longrightarrow> distinct (map f xs) = distinct (map f ys)"
  by (metis mset_eq_imp_distinct_iff mset_map)

lemma map_ok_index: "map_ok m \<Longrightarrow> tmq_map_bucket_index (mcap m) h < unat (mcap m)"
  by (auto simp: map_ok_def bucket_index_less unat_pow2)

lemma map_okD:
  assumes "map_ok m"
  shows "length (buckets m) = unat (mcap m)"
    and "i < length (buckets m) \<Longrightarrow> e \<in> set (buckets m ! i) \<Longrightarrow> ehash e = hash_fn m (ekey e)"
    and "i < length (buckets m) \<Longrightarrow> e \<in> set (buckets m ! i) \<Longrightarrow>
         tmq_map_bucket_index (mcap m) (hash_fn m (ekey e)) = i"
    and "distinct (map ekey (concat (buckets m)))"
  using assms unfolding map_ok_def buckets_ok_def by metis+

text \<open>The search of a bucket, and what it finds.\<close>

lemma bucket_find_Some:
  "bucket_find h k es = Some i \<Longrightarrow> i < length es \<and> ehash (es ! i) = h \<and> ekey (es ! i) = k"
  by (induction es arbitrary: i) (auto simp: entry_is_def split: if_splits)

lemma bucket_find_map_of:
  "(\<And>e. e \<in> set es \<Longrightarrow> ehash e = hf (ekey e)) \<Longrightarrow>
   map_option (\<lambda>i. evalue (es ! i)) (bucket_find (hf k) k es) = map_of (map entry_kv es) k"
  by (induction es) (auto simp: entry_is_def entry_kv_def option.map_comp comp_def)

lemma bucket_find_None:
  "(\<And>e. e \<in> set es \<Longrightarrow> ehash e = hf (ekey e)) \<Longrightarrow>
   bucket_find (hf k) k es = None \<longleftrightarrow> k \<notin> ekey ` set es"
  by (induction es) (auto simp: entry_is_def)

abbreviation kbucket :: "('k, 'v) tmq_map \<Rightarrow> 'k \<Rightarrow> nat" where
  "kbucket m k \<equiv> tmq_map_bucket_index (mcap m) (hash_fn m k)"

lemma get_bucket:
  assumes "map_ok m"
  shows "tmq_map_get m k = map_of (map entry_kv (buckets m ! kbucket m k)) k"
proof -
  let ?b = "kbucket m k"
  have b: "?b < length (buckets m)" using assms map_ok_index map_okD(1) by metis
  have "map_option (\<lambda>i. evalue (buckets m ! ?b ! i))
          (bucket_find (hash_fn m k) k (buckets m ! ?b))
        = map_of (map entry_kv (buckets m ! ?b)) k"
    by (rule bucket_find_map_of) (use map_okD(2) [OF assms b] in blast)
  then show ?thesis
    by (simp add: tmq_map_get_def tmq_map_find_entry_def Let_def option.map_comp comp_def)
qed

lemma find_entry_Some:
  assumes "map_ok m" and "tmq_map_find_entry m k = Some (b, i)"
  shows "b = kbucket m k" "b < length (buckets m)" "i < length (buckets m ! b)"
    "ekey (buckets m ! b ! i) = k"
  using assms map_ok_index [OF assms(1)] map_okD(1) [OF assms(1)] bucket_find_Some
  by (fastforce simp: tmq_map_find_entry_def Let_def)+

lemma map_entries_ok: "map_ok m \<Longrightarrow> distinct (map fst (map_entries m))"
  using map_okD(4) [of m] by (simp add: map_entries_def comp_def entry_kv_def)

text \<open>A key can only be in its own bucket, so lookup agrees with lookup among all entries.\<close>

lemma map_of_entries:
  assumes "map_ok m"
  shows "map_of (map_entries m) = tmq_map_get m"
proof
  fix k
  have b: "kbucket m k < length (buckets m)"
    using map_ok_index [OF assms] map_okD(1) [OF assms] by metis
  have d: "distinct (map fst (map entry_kv (buckets m ! kbucket m k)))"
    using distinct_nth_concat [OF map_okD(4) [OF assms] b] by (simp add: comp_def entry_kv_def)
  have "(k, v) \<in> set (map_entries m) \<longleftrightarrow> (k, v) \<in> set (map entry_kv (buckets m ! kbucket m k))" for v
    using b map_okD(3) [OF assms] unfolding map_entries_def set_map set_concat_nth
    by (auto simp: entry_kv_def image_iff)
  then have "map_of (map_entries m) k = Some v \<longleftrightarrow> tmq_map_get m k = Some v" for v
    using map_entries_ok [OF assms] d by (simp add: get_bucket [OF assms])
  then show "map_of (map_entries m) k = tmq_map_get m k"
    by (metis not_None_eq)
qed

lemma get_None_iff:
  "map_ok m \<Longrightarrow> tmq_map_get m k = None \<longleftrightarrow> k \<notin> ekey ` set (concat (buckets m))"
  using map_of_eq_None_iff [of "map_entries m" k]
  by (simp add: map_of_entries) (simp add: map_entries_def image_image entry_kv_def)

lemma find_None_iff: "tmq_map_find_entry m k = None \<longleftrightarrow> tmq_map_get m k = None"
  by (simp add: tmq_map_get_def)

lemma map_of_update_nth:
  "distinct (map fst xs) \<Longrightarrow> i < length xs \<Longrightarrow> fst (xs ! i) = k \<Longrightarrow>
   map_of (xs[i := (k, v)]) = (map_of xs)(k \<mapsto> v)"
proof (induction xs arbitrary: i)
  case (Cons x xs)
  show ?case
  proof (cases i)
    case (Suc j)
    then have "fst x \<noteq> k" using Cons.prems nth_mem [of j xs] by auto
    then show ?thesis using Cons Suc by (auto simp: fun_upd_twist split: prod.splits)
  qed (use Cons.prems in auto)
qed simp

lemma map_of_remove_nth:
  "distinct (map fst xs) \<Longrightarrow> i < length xs \<Longrightarrow> fst (xs ! i) = k \<Longrightarrow>
   map_of (take i xs @ drop (Suc i) xs) = (map_of xs)(k := None)"
proof (induction xs arbitrary: i)
  case (Cons x xs)
  show ?case
  proof (cases i)
    case 0
    then show ?thesis using Cons.prems by (cases x) (auto simp: fun_upd_idem_iff map_of_eq_None_iff)
  next
    case (Suc j)
    then have "fst x \<noteq> k" using Cons.prems nth_mem [of j xs] by auto
    then show ?thesis using Cons Suc by (cases x) (auto simp: fun_upd_twist)
  qed
qed simp

section \<open>Every operation keeps the table well-formed\<close>

lemma buckets_ok_insert:
  assumes "buckets_ok h cap bs" and "tmq_map_bucket_index cap (h (ekey e)) < unat cap"
    and "ehash e = h (ekey e)" and "ekey e \<notin> ekey ` set (concat bs)"
  shows "buckets_ok h cap (tmq_map_insert_entry cap e bs)"
    and "mset (concat (tmq_map_insert_entry cap e bs)) = add_mset e (mset (concat bs))"
proof -
  let ?i = "tmq_map_bucket_index cap (ehash e)"
  have i: "?i < length bs" using assms by (simp add: buckets_ok_def)
  show m: "mset (concat (tmq_map_insert_entry cap e bs)) = add_mset e (mset (concat bs))"
    using mset_concat_update [OF i, of "e # bs ! ?i"]
    by (simp add: tmq_map_insert_entry_def Let_def)
  have "distinct (map ekey (concat (tmq_map_insert_entry cap e bs)))"
    using distinct_map_mset [of _ "e # concat bs" ekey] m assms(1,4)
    by (simp add: buckets_ok_def)
  then show "buckets_ok h cap (tmq_map_insert_entry cap e bs)"
    using assms(1,3) i unfolding buckets_ok_def tmq_map_insert_entry_def Let_def
    by (auto simp: nth_list_update)
qed

lemma buckets_ok_fold_insert:
  assumes "buckets_ok h cap bs" and "\<And>x. tmq_map_bucket_index cap x < unat cap"
    and "\<And>e. e \<in> set es \<Longrightarrow> ehash e = h (ekey e)"
    and "distinct (map ekey es)" and "ekey ` set es \<inter> ekey ` set (concat bs) = {}"
  shows "buckets_ok h cap (fold (tmq_map_insert_entry cap) es bs)
       \<and> mset (concat (fold (tmq_map_insert_entry cap) es bs)) = mset es + mset (concat bs)"
  using assms(1,3-)
proof (induction es arbitrary: bs)
  case (Cons e es)
  let ?bs = "tmq_map_insert_entry cap e bs"
  have e: "ehash e = h (ekey e)" "ekey e \<notin> ekey ` set (concat bs)"
    using Cons.prems(2,4) by auto
  note ins = buckets_ok_insert [OF Cons.prems(1) assms(2) e]
  have "set (concat ?bs) = insert e (set (concat bs))"
    using ins(2) by (metis set_mset_add_mset_insert set_mset_mset)
  then have "ekey ` set es \<inter> ekey ` set (concat ?bs) = {}"
    using Cons.prems(3,4) by auto
  with Cons.IH [OF ins(1)] Cons.prems(2,3) ins(2) show ?case by auto
qed simp

lemma fold_concat_buckets: "fold (fold f) xss s = fold f (concat xss) s"
  by (induction xss arbitrary: s) simp_all

lemma concat_replicate_Nil [simp]: "concat (replicate n []) = []"
  by (induction n) auto

lemma buckets_ok_empty: "n = unat cap \<Longrightarrow> buckets_ok h cap (replicate n [])"
  by (auto simp: buckets_ok_def)

lemma map_ok_grow:
  assumes "map_ok m"
  shows "map_ok (snd (tmq_map_grow m))"
    and "mset (concat (buckets (snd (tmq_map_grow m)))) = mset (concat (buckets m))"
    and "hash_fn (snd (tmq_map_grow m)) = hash_fn m"
    and "msize (snd (tmq_map_grow m)) = msize m"
proof -
  from assms obtain k where k: "3 \<le> k" "k < 32" "mcap m = 2 ^ k" by (auto simp: map_ok_def)
  show "hash_fn (snd (tmq_map_grow m)) = hash_fn m" "msize (snd (tmq_map_grow m)) = msize m"
    by (auto simp: tmq_map_grow_def split: option.splits)
  have "map_ok (snd (tmq_map_grow m)) \<and>
        mset (concat (buckets (snd (tmq_map_grow m)))) = mset (concat (buckets m))"
  proof (cases "msize m < remap_thresh m \<or> k = 31")
    case True
    then have "snd (tmq_map_grow m) = m"
      by (auto simp: tmq_map_grow_def k(3) alloc_buckets_double [OF k(1,2)])
    then show ?thesis using assms by simp
  next
    case False
    let ?c = "2 ^ Suc k :: u32"
    let ?bs = "fold (tmq_map_insert_entry ?c) (concat (buckets m)) (replicate (2 ^ Suc k) [])"
    have k31: "Suc k < 32" using False k(2) by simp
    have u: "unat ?c = 2 ^ Suc k" using k31 by (intro unat_pow2) simp
    have g: "snd (tmq_map_grow m) =
        m\<lparr>buckets := ?bs, mcap := ?c, remap_thresh := ?c * load_fac m div 100\<rparr>"
      using False k31
      by (simp add: tmq_map_grow_def k(3) fold_concat_buckets alloc_buckets_double [OF k(1,2)])
    have "buckets_ok (hash_fn m) ?c ?bs \<and>
        mset (concat ?bs) = mset (concat (buckets m)) + mset (concat (replicate (2 ^ Suc k) []))"
    proof (rule buckets_ok_fold_insert)
      show "buckets_ok (hash_fn m) ?c (replicate (2 ^ Suc k) [])"
        using u by (intro buckets_ok_empty) simp
      show "tmq_map_bucket_index ?c x < unat ?c" for x
        using bucket_index_less [OF k31] u by simp
      show "ehash e = hash_fn m (ekey e)" if "e \<in> set (concat (buckets m))" for e
        using that map_okD(2) [OF assms] unfolding set_concat_nth by auto
      show "distinct (map ekey (concat (buckets m)))" by (rule map_okD(4) [OF assms])
    qed simp
    moreover from this have "length (concat ?bs) = length (concat (buckets m))"
      by (metis add.right_neutral concat_replicate_Nil mset.simps(1) size_mset)
    ultimately show ?thesis
      using assms k(1) k31 unfolding g map_ok_def by (auto intro!: bexI [of _ "Suc k"])
  qed
  then show "map_ok (snd (tmq_map_grow m))"
    and "mset (concat (buckets (snd (tmq_map_grow m)))) = mset (concat (buckets m))" by auto
qed


lemma buckets_ok_update:
  assumes "buckets_ok h cap bs" and "b < length bs"
    and "set (map (\<lambda>e. (ehash e, ekey e)) es) \<subseteq> set (map (\<lambda>e. (ehash e, ekey e)) (bs ! b))"
    and "distinct (map ekey (concat (bs[b := es])))"
  shows "buckets_ok h cap (bs[b := es])"
  unfolding buckets_ok_def
proof (intro conjI allI impI ballI)
  fix i e
  assume i: "i < length (bs[b := es])" and e: "e \<in> set (bs[b := es] ! i)"
  obtain e' where e': "e' \<in> set (bs ! i)" "ehash e' = ehash e" "ekey e' = ekey e"
    using assms(2,3) i e by (cases "i = b") (fastforce simp: nth_list_update)+
  then show "ehash e = h (ekey e)" "tmq_map_bucket_index cap (h (ekey e)) = i"
    using assms(1) i unfolding buckets_ok_def by (metis length_list_update)+
qed (use assms in \<open>auto simp: buckets_ok_def\<close>)

lemma concat_map_update: "concat (map f (bs[b := x])) = concat ((map f bs)[b := f x])"
  by (simp add: map_update)

lemma map_ok_put_existing:
  assumes ok: "map_ok m" and f: "tmq_map_find_entry m k = Some (b, i)"
  shows "map_ok (tmq_map_put m k v)"
    and "tmq_map_get (tmq_map_put m k v) k' = (if k' = k then Some v else tmq_map_get m k')"
proof -
  note fe = find_entry_Some [OF ok f]
  let ?e = "(buckets m ! b ! i)\<lparr>evalue := v\<rparr>"
  let ?es = "(buckets m ! b)[i := ?e]"
  let ?bs = "(buckets m)[b := ?es]"
  have put: "tmq_map_put m k v = m\<lparr>buckets := ?bs\<rparr>"
    by (simp add: tmq_map_put_def f)
  have keys: "map (\<lambda>e. (ehash e, ekey e)) ?es = map (\<lambda>e. (ehash e, ekey e)) (buckets m ! b)"
    using fe(3) by (simp add: map_update list_update_same_conv)
  have keys1: "map ekey ?es = map ekey (buckets m ! b)"
    using fe(3) by (simp add: map_update list_update_same_conv)
  have cat: "map ekey (concat ?bs) = map ekey (concat (buckets m))"
    using keys1 fe(2) list_update_id [of "map (map ekey) (buckets m)" b]
    by (simp add: map_concat concat_map_update)
  then have len: "length (concat ?bs) = length (concat (buckets m))"
    by (metis length_map)
  have bok: "buckets_ok (hash_fn m) (mcap m) ?bs"
  proof (rule buckets_ok_update)
    show "buckets_ok (hash_fn m) (mcap m) (buckets m)" using ok by (simp add: map_ok_def)
    show "distinct (map ekey (concat ?bs))" by (simp only: cat map_okD(4) [OF ok])
  qed (use fe(2) keys in auto)
  then show ok': "map_ok (tmq_map_put m k v)"
    using ok len by (simp add: put map_ok_def)
  have d: "distinct (map fst (map entry_kv (buckets m ! b)))"
    using distinct_nth_concat [OF map_okD(4) [OF ok] fe(2)] by (simp add: comp_def entry_kv_def)
  have kv: "map entry_kv ?es = (map entry_kv (buckets m ! b))[i := (k, v)]"
    using fe(4) by (simp add: map_update entry_kv_def)
  have "map_of (map entry_kv ?es) = (map_of (map entry_kv (buckets m ! b)))(k \<mapsto> v)"
    unfolding kv using fe(3,4) d by (intro map_of_update_nth) (auto simp: entry_kv_def)
  then show "tmq_map_get (tmq_map_put m k v) k' = (if k' = k then Some v else tmq_map_get m k')"
    unfolding get_bucket [OF ok'] get_bucket [OF ok] using fe(1,2)
    by (auto simp: put nth_list_update)
qed

lemma map_ok_put_new:
  assumes ok: "map_ok m" and f: "tmq_map_find_entry m k = None"
  shows "map_ok (tmq_map_put m k v)"
    and "tmq_map_get (tmq_map_put m k v) k' = (if k' = k then Some v else tmq_map_get m k')"
proof -
  let ?e = "tmq_map_entry_new m k v"
  define m' where "m' = (if msize m \<ge> remap_thresh m then snd (tmq_map_grow m) else m)"
  have m': "map_ok m'" "hash_fn m' = hash_fn m" "msize m' = msize m"
    "mset (concat (buckets m')) = mset (concat (buckets m))"
    using ok map_ok_grow [OF ok] by (auto simp: m'_def)
  have put: "tmq_map_put m k v =
      m'\<lparr>buckets := tmq_map_insert_entry (mcap m') ?e (buckets m'), msize := msize m' + 1\<rparr>"
    by (simp add: tmq_map_put_def f Let_def flip: m'_def)
  have set: "set (concat (buckets m')) = set (concat (buckets m))"
    using m'(4) by (rule mset_eq_setD)
  have new: "ekey ?e \<notin> ekey ` set (concat (buckets m'))"
    using f get_None_iff [OF ok, of k] unfolding find_None_iff set
    by (simp add: tmq_map_entry_new_def)
  have bok: "buckets_ok (hash_fn m') (mcap m') (buckets m')" using m'(1) by (simp add: map_ok_def)
  have hash: "ehash ?e = hash_fn m' (ekey ?e)" by (simp add: tmq_map_entry_new_def m'(2))
  note ins = buckets_ok_insert [OF bok map_ok_index [OF m'(1)] hash new]
  have ins': "buckets_ok (hash_fn m') (mcap m') (buckets (tmq_map_put m k v))"
    "mset (concat (buckets (tmq_map_put m k v))) = add_mset ?e (mset (concat (buckets m')))"
    unfolding put using ins by simp_all
  then have len: "length (concat (buckets (tmq_map_put m k v))) = Suc (length (concat (buckets m')))"
    by (metis size_add_mset size_mset)
  show ok': "map_ok (tmq_map_put m k v)"
    using m'(1) ins'(1) len unfolding map_ok_def by (simp add: put)
  have s: "set (map_entries (tmq_map_put m k v)) = insert (k, v) (set (map_entries m))"
    using ins'(2) set unfolding map_entries_def set_map
    by (metis (no_types, lifting) entry_kv_def image_insert map_entry.select_convs(2,3)
        set_mset_add_mset_insert set_mset_mset tmq_map_entry_new_def)
  have nk: "(k, w) \<notin> set (map_entries m)" for w
    using f unfolding find_None_iff map_of_entries [OF ok, symmetric]
    by (metis map_of_eq_None_iff fst_conv image_eqI)
  have "tmq_map_get (tmq_map_put m k v) k' = Some w \<longleftrightarrow>
        (if k' = k then w = v else tmq_map_get m k' = Some w)" for w
    using map_entries_ok [OF ok] map_entries_ok [OF ok'] s nk
    by (auto simp flip: map_of_entries [OF ok] map_of_entries [OF ok'])
  then show "tmq_map_get (tmq_map_put m k v) k' = (if k' = k then Some v else tmq_map_get m k')"
    by (metis not_None_eq)
qed

lemma map_ok_put: "map_ok m \<Longrightarrow> map_ok (tmq_map_put m k v)"
  by (cases "tmq_map_find_entry m k") (auto intro: map_ok_put_existing(1) map_ok_put_new(1))

lemma get_put:
  "map_ok m \<Longrightarrow> tmq_map_get (tmq_map_put m k v) k' = (if k' = k then Some v else tmq_map_get m k')"
  by (cases "tmq_map_find_entry m k")
     (metis map_ok_put_existing(2) map_ok_put_new(2) surj_pair)+

lemma map_ok_erase_get:
  assumes ok: "map_ok m"
  shows "map_ok (tmq_map_erase m k)"
    and "tmq_map_get (tmq_map_erase m k) k' = (if k' = k then None else tmq_map_get m k')"
proof -
  have "map_ok (tmq_map_erase m k) \<and>
    tmq_map_get (tmq_map_erase m k) k' = (if k' = k then None else tmq_map_get m k')"
  proof (cases "tmq_map_find_entry m k")
    case None
    then show ?thesis using ok find_None_iff [of m k] by (simp add: tmq_map_erase_def)
  next
    case (Some p)
    then obtain b i where f: "tmq_map_find_entry m k = Some (b, i)" by (cases p) auto
    note fe = find_entry_Some [OF ok f]
    let ?es = "take i (buckets m ! b) @ drop (Suc i) (buckets m ! b)"
    let ?bs = "(buckets m)[b := ?es]"
    have er: "tmq_map_erase m k = m\<lparr>buckets := ?bs, msize := msize m - 1\<rparr>"
      by (simp add: tmq_map_erase_def f)
    have split: "mset (buckets m ! b) = add_mset (buckets m ! b ! i) (mset ?es)"
      using id_take_nth_drop [OF fe(3)] by (metis mset.simps(2) mset_append union_mset_add_mset_right)
    have ms: "mset (concat (buckets m)) = add_mset (buckets m ! b ! i) (mset (concat ?bs))"
      using mset_concat_update [OF fe(2), of ?es] split by simp
    then have len: "length (concat (buckets m)) = Suc (length (concat ?bs))"
      by (metis size_add_mset size_mset)
    have d: "distinct (map ekey (concat ?bs))"
      using distinct_map_mset [of "concat (buckets m)" "buckets m ! b ! i # concat ?bs" ekey]
        ms map_okD(4) [OF ok] by simp
    have sub: "set (map (\<lambda>e. (ehash e, ekey e)) ?es) \<subseteq> set (map (\<lambda>e. (ehash e, ekey e)) (buckets m ! b))"
      using set_take_subset set_drop_subset by fastforce
    have "buckets_ok (hash_fn m) (mcap m) ?bs"
      by (rule buckets_ok_update [OF _ fe(2) sub d]) (use ok in \<open>simp add: map_ok_def\<close>)
    then have ok': "map_ok (tmq_map_erase m k)"
      using ok len by (simp add: er map_ok_def)
    have dk: "distinct (map fst (map entry_kv (buckets m ! b)))"
      using distinct_nth_concat [OF map_okD(4) [OF ok] fe(2)] by (simp add: comp_def entry_kv_def)
    have kv: "map entry_kv ?es =
        take i (map entry_kv (buckets m ! b)) @ drop (Suc i) (map entry_kv (buckets m ! b))"
      by (simp add: take_map drop_map)
    have "map_of (map entry_kv ?es) = (map_of (map entry_kv (buckets m ! b)))(k := None)"
      unfolding kv using fe(3,4) by (intro map_of_remove_nth [OF dk]) (auto simp: entry_kv_def)
    then have "tmq_map_get (tmq_map_erase m k) k' = (if k' = k then None else tmq_map_get m k')"
      unfolding get_bucket [OF ok'] get_bucket [OF ok] using fe(1,2)
      by (auto simp: er nth_list_update)
    with ok' show ?thesis by blast
  qed
  then show "map_ok (tmq_map_erase m k)"
    and "tmq_map_get (tmq_map_erase m k) k' = (if k' = k then None else tmq_map_get m k')"
    by auto
qed

lemma map_ok_clear: "map_ok m \<Longrightarrow> map_ok (tmq_map_clear m) \<and> tmq_map_get (tmq_map_clear m) k = None"
proof
  assume ok: "map_ok m"
  then show ok': "map_ok (tmq_map_clear m)"
    by (auto simp: map_ok_def tmq_map_clear_def buckets_ok_def map_replicate_const)
  show "tmq_map_get (tmq_map_clear m) k = None"
    unfolding get_None_iff [OF ok'] by (simp add: tmq_map_clear_def map_replicate_const)
qed

lemma tmq_map_new_ok:
  assumes "unat cap \<le> 2 ^ 31" and "25 \<le> factor" and "factor \<le> 95"
  shows "\<exists>m. tmq_map_new cap factor h = Some m \<and> map_ok m \<and> (\<forall>k. tmq_map_get m k = None)
           \<and> hash_fn m = h \<and> map_entries m = [] \<and> msize m = 0"
proof -
  obtain k where k: "k < 32" "max 8 (unat cap) \<le> 2 ^ k"
      and al: "(tmq_map_alloc_buckets cap 1 :: (u32 \<times> ('a, 'b) map_entry list list) option)
        = Some (2 ^ k, replicate (2 ^ k) [])"
    using alloc_buckets_new [OF assms(1)] by blast
  have "(2::nat) ^ 3 \<le> 2 ^ k" using k(2) by simp
  then have k3: "3 \<le> k" by (rule power_le_imp_le_exp [rotated]) simp
  define m :: "('a, 'b) tmq_map" where
    "m = \<lparr>hash_fn = h, buckets = replicate (2 ^ k) [], mcap = 2 ^ k, msize = 0,
          load_fac = factor, remap_thresh = 2 ^ k * factor div 100\<rparr>"
  have "tmq_map_new cap factor h = Some m"
    using assms(2,3) by (simp add: tmq_map_new_def al m_def not_less)
  moreover have ok: "map_ok m"
    using k k3 by (auto simp: map_ok_def m_def unat_pow2 intro!: buckets_ok_empty)
  moreover have "tmq_map_get m x = None" for x
    unfolding get_None_iff [OF ok] by (simp add: m_def)
  moreover have "hash_fn m = h" "map_entries m = []" "msize m = 0"
    by (simp_all add: m_def map_entries_def)
  ultimately show ?thesis by blast
qed

section \<open>The iterator visits every entry once\<close>

lemma next_bucket_spec:
  assumes "length (buckets m) = unat (mcap m)"
  shows "case tmq_next_bucket m c of
      None \<Rightarrow> concat (drop c (buckets m)) = []
    | Some b \<Rightarrow> b < length (buckets m) \<and> buckets m ! b \<noteq> [] \<and>
        concat (drop c (buckets m)) = buckets m ! b @ concat (drop (Suc b) (buckets m))"
  using assms
proof (induction m c rule: tmq_next_bucket.induct)
  case (1 m c)
  show ?case
  proof (cases "c < unat (mcap m)")
    case True
    then have "drop c (buckets m) = buckets m ! c # drop (Suc c) (buckets m)"
      using "1.prems" by (simp add: Cons_nth_drop_Suc)
    then show ?thesis using 1 True by (subst (1) tmq_next_bucket.simps) (auto split: option.splits)
  next
    case False
    then show ?thesis using "1.prems" by (subst tmq_next_bucket.simps) simp
  qed
qed

lemma map_walk_from:
  assumes "length (buckets m) = unat (mcap m)"
  shows "b < length (buckets m) \<Longrightarrow> i < length (buckets m ! b) \<Longrightarrow>
     length (drop i (buckets m ! b) @ concat (drop (Suc b) (buckets m))) \<le> fuel \<Longrightarrow>
     map_walk m fuel (Some (b, i)) =
       Some (map entry_kv (drop i (buckets m ! b) @ concat (drop (Suc b) (buckets m))))"
proof (induction fuel arbitrary: b i)
  case (Suc fuel)
  have d: "drop i (buckets m ! b) = buckets m ! b ! i # drop (Suc i) (buckets m ! b)"
    using Suc.prems(2) by (simp add: Cons_nth_drop_Suc)
  have e: "iter_entry m (b, i) = entry_kv (buckets m ! b ! i)"
    by (simp add: iter_entry_def entry_kv_def)
  show ?case
  proof (cases "Suc i < length (buckets m ! b)")
    case True
    then show ?thesis using Suc d e by (simp add: tmq_map_iter_next_def)
  next
    case False
    then have n: "drop (Suc i) (buckets m ! b) = []" by simp
    show ?thesis
      using False next_bucket_spec [OF assms, of "Suc b"] Suc d e n
      by (cases "tmq_next_bucket m (Suc b)") (auto simp: tmq_map_iter_next_def)
  qed
qed simp

lemma map_walk_all:
  assumes "map_ok m" and "length (map_entries m) \<le> fuel"
  shows "map_walk m fuel (tmq_map_iter m) = Some (map_entries m)"
proof -
  have l: "length (buckets m) = unat (mcap m)" by (rule map_okD(1) [OF assms(1)])
  show ?thesis
    using next_bucket_spec [OF l, of 0] assms(2) map_walk_from [OF l, of _ 0 fuel]
    by (cases "tmq_next_bucket m 0") (auto simp: tmq_map_iter_def map_entries_def)
qed

section \<open>The table is a dictionary\<close>

definition map_init :: "('k \<Rightarrow> u32) \<Rightarrow> ('k, 'v) tmq_map" where
  "map_init h = the (tmq_map_new 0 75 h)"

lemma map_init_ok:
  "map_ok (map_init h :: ('k, 'v) tmq_map)" "tmq_map_get (map_init h :: ('k, 'v) tmq_map) k = None"
proof -
  obtain m :: "('k, 'v) tmq_map" where
    "tmq_map_new 0 75 h = Some m" "map_ok m" "\<forall>k. tmq_map_get m k = None"
    using tmq_map_new_ok [of 0 75 h] by auto
  then show "map_ok (map_init h :: ('k, 'v) tmq_map)"
    "tmq_map_get (map_init h :: ('k, 'v) tmq_map) k = None"
    by (simp_all add: map_init_def)
qed

interpretation hm: dict "map_init h" tmq_map_get tmq_map_put tmq_map_erase map_entries map_ok
  for h :: "'k \<Rightarrow> u32"
  by unfold_locales
     (auto simp: map_init_ok map_ok_put get_put map_ok_erase_get map_of_entries map_entries_ok)

lemma msize_entries: "map_ok m \<Longrightarrow> msize m = of_nat (length (map_entries m))"
  by (simp add: map_ok_def map_entries_def)

section \<open>Properties\<close>

datatype ('k, 'v) map_op = Put 'k 'v | Erase 'k | Clear

fun map_step :: "('k, 'v) map_op \<Rightarrow> ('k, 'v) tmq_map \<Rightarrow> ('k, 'v) tmq_map" where
  "map_step (Put k v) m = tmq_map_put m k v"
| "map_step (Erase k) m = tmq_map_erase m k"
| "map_step Clear m = tmq_map_clear m"

fun spec_step :: "('k, 'v) map_op \<Rightarrow> ('k \<rightharpoonup> 'v) \<Rightarrow> ('k \<rightharpoonup> 'v)" where
  "spec_step (Put k v) f = f(k \<mapsto> v)"
| "spec_step (Erase k) f = f(k := None)"
| "spec_step Clear f = Map.empty"

lemma map_step_refines:
  assumes "map_ok m"
  shows "map_ok (map_step op m) \<and> tmq_map_get (map_step op m) = spec_step op (tmq_map_get m)"
  using assms
  by (cases op) (auto simp: map_ok_put get_put map_ok_erase_get map_ok_clear)

lemma map_steps_refine:
  "map_ok m \<Longrightarrow> map_ok (fold map_step ops m) \<and>
     tmq_map_get (fold map_step ops m) = fold spec_step ops (tmq_map_get m)"
proof (induction ops arbitrary: m)
  case (Cons op ops)
  show ?case using Cons.IH map_step_refines [OF Cons.prems, of op] by simp
qed simp

text \<open>
  C23. Whatever sequence of put, erase and clear is applied to a freshly created table, and whatever
  the hash function, the table answers every lookup like the mathematical map to which the same
  updates were applied; its size field is the number of keys (modulo the 32-bit width), and the
  iterator loop terminates after visiting every binding exactly once.
\<close>

theorem hash_map_refines:
  fixes h :: "'k \<Rightarrow> u32" and ops :: "('k, 'v) map_op list"
  defines "m \<equiv> fold map_step ops (map_init h)"
    and "f \<equiv> fold spec_step ops Map.empty"
  shows "tmq_map_get m = f \<and> msize m = of_nat (card (dom f)) \<and>
         (\<exists>xs. map_walk m (card (dom f)) (tmq_map_iter m) = Some xs \<and>
               distinct (map fst xs) \<and> map_of xs = f)"
proof -
  have get: "tmq_map_get (map_init h :: ('k, 'v) tmq_map) = Map.empty"
    by (rule ext) (rule map_init_ok(2))
  have ok: "map_ok m" and f: "tmq_map_get m = f"
    using map_steps_refine [OF map_init_ok(1), of ops h] by (simp_all add: m_def f_def get)
  have len: "length (map_entries m) = card (dom f)"
    using hm.length_entries [OF ok] by (simp add: f)
  show ?thesis
    using map_walk_all [OF ok, of "card (dom f)"] map_entries_ok [OF ok] map_of_entries [OF ok]
      msize_entries [OF ok] len f by auto
qed

text \<open>
  C24. A new table with a requested capacity of at most \<open>2^31\<close> and a load factor between 25 and 95
  is created, empty and well-formed, with the least power of two that is at least the request (and
  at least 8) as its capacity; every hash then selects an existing bucket, namely its remainder by
  the capacity, so the assertions on the bucket index never fail.
\<close>

theorem hash_map_new_capacity:
  assumes "unat cap \<le> 2 ^ 31" and "25 \<le> factor" and "factor \<le> 95"
  shows "\<exists>m k. tmq_map_new cap factor h = Some m \<and> map_ok m \<and> msize m = 0 \<and> mcap m = 2 ^ k \<and>
           max 8 (unat cap) \<le> 2 ^ k \<and> 2 ^ (k - 1) < max 8 (unat cap) \<and>
           (\<forall>x. tmq_map_bucket_index (mcap m) x = unat x mod 2 ^ k \<and>
                tmq_map_bucket_index (mcap m) x < length (buckets m))"
proof -
  obtain k where k: "k < 32" "max 8 (unat cap) \<le> 2 ^ k" "2 ^ (k - 1) < max 8 (unat cap)"
      and al: "(tmq_map_alloc_buckets cap 1 :: (u32 \<times> ('a, 'b) map_entry list list) option)
        = Some (2 ^ k, replicate (2 ^ k) [])"
    using alloc_buckets_new [OF assms(1)] by blast
  obtain m :: "('a, 'b) tmq_map" where
    m: "tmq_map_new cap factor h = Some m" "map_ok m" "msize m = 0"
    using tmq_map_new_ok [OF assms] by auto
  have c: "mcap m = 2 ^ k"
    using m(1) by (auto simp: tmq_map_new_def al split: if_splits)
  have "tmq_map_bucket_index (mcap m) x < length (buckets m)" for x
    using map_ok_index [OF m(2)] map_okD(1) [OF m(2)] by simp
  then show ?thesis using m k c bucket_index_mod [OF k(1)] by metis
qed

theorem hash_map_new_capacity_witness:
  "\<exists>(m :: (u32, nat) tmq_map) k. tmq_map_new 100 75 hash_32 = Some m \<and> map_ok m \<and> mcap m = 2 ^ k \<and>
     100 \<le> (2::nat) ^ k"
  using hash_map_new_capacity [of 100 75 hash_32] by fastforce

end
