(* ===== verification/Acl.thy ===== *)
theory Acl
  imports Session Str
begin

text \<open>
  Access control, \<^verbatim>\<open>mqtt/mqtt_acl.c\<close>: rules are stored in a tree by the levels of their topic filter, and
  a request is decided by the rules of one matching node. The function pointers of a rule are
  determined by its target, so a rule is its target, access and permission. A linked list of rules is
  a list; the in-place removal and merging of \<^verbatim>\<open>add_rule\<close> is kept step by step, including the access to
  the element after a removed one. The read-write lock is the number of read locks held. The peer
  address of the connection (\<^verbatim>\<open>tmq_socket_peer_addr\<close>) and the parsed address of an IP rule are arguments.
\<close>

datatype permission = ALLOW | DENY | UNKNOWN

datatype access = PUB | SUB | PUB_SUB

datatype acl_target =
    Client_Id_Rule tmq_str
  | Username_Rule tmq_str
  | Ip_Rule u32
  | All_Rule

record acl_rule =
  rule_access :: access
  rule_permission :: permission
  rule_target :: acl_target

datatype acl_node = Acl_Node
  (rules: "acl_rule list")
  (rules_for_all: "acl_rule list")
  (acl_children: "(tmq_str \<times> acl_node) list")

record tmq_acl =
  read_locks :: nat
  acl_root :: acl_node
  nomatch_permission :: permission

section \<open>Rules\<close>

definition acl_client_id_rule_new :: "permission \<Rightarrow> tmq_str \<Rightarrow> access \<Rightarrow> acl_rule" where
  "acl_client_id_rule_new p cid a =
     \<lparr>rule_access = a, rule_permission = p, rule_target = Client_Id_Rule (cstr cid)\<rparr>"

definition acl_username_rule_new :: "permission \<Rightarrow> tmq_str \<Rightarrow> access \<Rightarrow> acl_rule" where
  "acl_username_rule_new p u a =
     \<lparr>rule_access = a, rule_permission = p, rule_target = Username_Rule (cstr u)\<rparr>"

definition acl_ip_rule_new :: "permission \<Rightarrow> u32 \<Rightarrow> access \<Rightarrow> acl_rule" where
  "acl_ip_rule_new p ip a = \<lparr>rule_access = a, rule_permission = p, rule_target = Ip_Rule ip\<rparr>"

definition acl_all_rule_new :: "permission \<Rightarrow> access \<Rightarrow> acl_rule" where
  "acl_all_rule_new p a = \<lparr>rule_access = a, rule_permission = p, rule_target = All_Rule\<rparr>"

definition client_id_rule_check_permission :: "tmq_str \<Rightarrow> acl_rule \<Rightarrow> tmq_session \<Rightarrow> access \<Rightarrow> permission" where
  "client_id_rule_check_permission cid r s a =
     (if rule_access r \<noteq> PUB_SUB \<and> rule_access r \<noteq> a then UNKNOWN
      else if cstr cid = cstr (s_client_id s) then rule_permission r else UNKNOWN)"

definition username_rule_check_permission :: "tmq_str \<Rightarrow> acl_rule \<Rightarrow> tmq_session \<Rightarrow> access \<Rightarrow> permission" where
  "username_rule_check_permission u r s a =
     (if rule_access r \<noteq> PUB_SUB \<and> rule_access r \<noteq> a then UNKNOWN
      else if cstr u = cstr (s_username s) then rule_permission r else UNKNOWN)"

definition ip_rule_check_permission :: "u32 \<Rightarrow> acl_rule \<Rightarrow> u32 \<Rightarrow> access \<Rightarrow> permission" where
  "ip_rule_check_permission ip r peer a =
     (if rule_access r \<noteq> PUB_SUB \<and> rule_access r \<noteq> a then UNKNOWN
      else if ip = peer then rule_permission r else UNKNOWN)"

definition all_rule_check_permission :: "acl_rule \<Rightarrow> access \<Rightarrow> permission" where
  "all_rule_check_permission r a =
     (if rule_access r \<noteq> PUB_SUB \<and> rule_access r \<noteq> a then UNKNOWN else rule_permission r)"

definition check_permission :: "acl_rule \<Rightarrow> tmq_session \<Rightarrow> u32 \<Rightarrow> access \<Rightarrow> permission" where
  "check_permission r s peer a =
     (case rule_target r of
        Client_Id_Rule cid \<Rightarrow> client_id_rule_check_permission cid r s a
      | Username_Rule u \<Rightarrow> username_rule_check_permission u r s a
      | Ip_Rule ip \<Rightarrow> ip_rule_check_permission ip r peer a
      | All_Rule \<Rightarrow> all_rule_check_permission r a)"

definition client_id_rule_check_same_target :: "tmq_str \<Rightarrow> acl_rule \<Rightarrow> bool" where
  "client_id_rule_check_same_target cid r' = (case rule_target r' of Client_Id_Rule c \<Rightarrow> cstr cid = cstr c | _ \<Rightarrow> False)"

definition username_rule_check_same_target :: "tmq_str \<Rightarrow> acl_rule \<Rightarrow> bool" where
  "username_rule_check_same_target u r' = (case rule_target r' of Username_Rule v \<Rightarrow> cstr u = cstr v | _ \<Rightarrow> False)"

definition ip_rule_check_same_target :: "u32 \<Rightarrow> acl_rule \<Rightarrow> bool" where
  "ip_rule_check_same_target ip r' = (case rule_target r' of Ip_Rule i \<Rightarrow> ip = i | _ \<Rightarrow> False)"

definition all_rule_check_same_target :: "acl_rule \<Rightarrow> bool" where
  "all_rule_check_same_target r' \<longleftrightarrow> rule_target r' = All_Rule"

lemmas same_target_defs = client_id_rule_check_same_target_def username_rule_check_same_target_def
  ip_rule_check_same_target_def all_rule_check_same_target_def

fun check_same_target :: "acl_rule \<Rightarrow> acl_rule \<Rightarrow> bool" where
  "check_same_target r r' =
     (case rule_target r of
        Client_Id_Rule cid \<Rightarrow> client_id_rule_check_same_target cid r'
      | Username_Rule u \<Rightarrow> username_rule_check_same_target u r'
      | Ip_Rule ip \<Rightarrow> ip_rule_check_same_target ip r'
      | All_Rule \<Rightarrow> all_rule_check_same_target r')"

section \<open>Adding rules\<close>

definition conflict :: "acl_rule \<Rightarrow> acl_rule \<Rightarrow> bool" where
  "conflict r new \<longleftrightarrow> rule_permission r \<noteq> rule_permission new \<and>
     (rule_access r = rule_access new \<or> rule_access r = PUB_SUB \<or> rule_access new = PUB_SUB)"

definition merge_rule :: "acl_rule \<Rightarrow> acl_rule \<Rightarrow> acl_rule \<times> bool" where
  "merge_rule new r =
     (if rule_permission r = rule_permission new \<and> rule_access r \<noteq> rule_access new
      then (r\<lparr>rule_access := PUB_SUB\<rparr>, True) else (r, False))"

text \<open>
  The loop of \<^verbatim>\<open>add_rule\<close>. After a conflicting rule is unlinked, \<^verbatim>\<open>*r\<close> is the rule behind it, which is
  merged with the new one without a test of its target, or NULL, which is dereferenced.
\<close>

fun add_loop :: "acl_rule \<Rightarrow> acl_rule list \<Rightarrow> (acl_rule list \<times> bool) res" where
  "add_loop new [] = Inr ([], False)"
| "add_loop new [r] =
     (if check_same_target r new then
        if conflict r new then Inl Null_Deref
        else (let (r', m) = merge_rule new r in Inr ([r'], m))
      else Inr ([r], False))"
| "add_loop new (r # c # rs) =
     (if check_same_target r new then
        if conflict r new
        then (let (c', m) = merge_rule new c
              in bind (add_loop new rs) (\<lambda>(rs', m'). Inr (c' # rs', m \<or> m')))
        else (let (r', m) = merge_rule new r
              in bind (add_loop new (c # rs)) (\<lambda>(rs', m'). Inr (r' # rs', m \<or> m')))
      else bind (add_loop new (c # rs)) (\<lambda>(rs', m'). Inr (r # rs', m')))"

definition add_rule :: "acl_rule list \<Rightarrow> acl_rule \<Rightarrow> acl_rule list res" where
  "add_rule existing new =
     bind (add_loop new existing) (\<lambda>(rs, merged). Inr (if merged then rs else new # rs))"

definition acl_tree_node_new :: acl_node where
  "acl_tree_node_new = Acl_Node [] [] []"

definition acl_find_or_create :: "acl_node \<Rightarrow> tmq_str \<Rightarrow> acl_node" where
  "acl_find_or_create n l = (case map_of (acl_children n) l of Some c \<Rightarrow> c | None \<Rightarrow> acl_tree_node_new)"

text \<open>
  \<^verbatim>\<open>add_topic_or_find\<close> followed by the change of the node it returns.
\<close>

fun acl_add_topic :: "(acl_node \<Rightarrow> acl_node res) \<Rightarrow> tmq_str list \<Rightarrow> acl_node \<Rightarrow> acl_node res" where
  "acl_add_topic f [] n = f n"
| "acl_add_topic f (l # ls) n =
     bind (acl_add_topic f ls (acl_find_or_create n l)) (\<lambda>c.
       Inr (Acl_Node (rules n) (rules_for_all n) (al_put (acl_children n) l c)))"

definition tmq_acl_init :: "permission \<Rightarrow> tmq_acl" where
  "tmq_acl_init nomatch = \<lparr>read_locks = 0, acl_root = acl_tree_node_new, nomatch_permission = nomatch\<rparr>"

text \<open>The write lock is not granted while read locks are held: the result is then \<open>None\<close>.\<close>

definition with_write_lock :: "tmq_acl \<Rightarrow> acl_node res \<Rightarrow> tmq_acl res option" where
  "with_write_lock acl r = (if read_locks acl > 0 then None else Some (bind r (\<lambda>n. Inr (acl\<lparr>acl_root := n\<rparr>))))"

definition tmq_acl_add_rule :: "tmq_acl \<Rightarrow> tmq_str \<Rightarrow> acl_rule \<Rightarrow> tmq_acl res option" where
  "tmq_acl_add_rule acl tf r =
     with_write_lock acl
       (acl_add_topic (\<lambda>n. bind (add_rule (rules n) r) (\<lambda>rs. Inr (Acl_Node rs (rules_for_all n) (acl_children n))))
         (tmq_topic_split (cstr tf)) (acl_root acl))"

definition tmq_acl_add_rule_for_all :: "tmq_acl \<Rightarrow> tmq_str \<Rightarrow> acl_rule \<Rightarrow> tmq_acl res option" where
  "tmq_acl_add_rule_for_all acl tf r =
     with_write_lock acl
       (acl_add_topic (\<lambda>n. bind (add_rule (rules_for_all n) r) (\<lambda>rs. Inr (Acl_Node (rules n) rs (acl_children n))))
         (tmq_topic_split (cstr tf)) (acl_root acl))"

section \<open>Deciding a request\<close>

text \<open>\<^verbatim>\<open>match\<close>: the remaining levels stand for the index into the level vector.\<close>

fun acl_match :: "acl_node \<Rightarrow> bool \<Rightarrow> tmq_str list \<Rightarrow> acl_node option" where
  "acl_match n multi [] = Some n"
| "acl_match n multi (l # ls) =
     (if multi then Some n
      else
        let m1 = (case map_of (acl_children n) l of Some c \<Rightarrow> acl_match c False ls | None \<Rightarrow> None);
            m2 = (if m1 = None then
                    (case map_of (acl_children n) PLUS of Some c \<Rightarrow> acl_match c False ls | None \<Rightarrow> None)
                  else m1)
        in if m2 = None then
             (case map_of (acl_children n) HASH of Some c \<Rightarrow> acl_match c True ls | None \<Rightarrow> None)
           else m2)"

fun first_permission :: "acl_rule list \<Rightarrow> tmq_session \<Rightarrow> u32 \<Rightarrow> access \<Rightarrow> permission" where
  "first_permission [] s peer a = UNKNOWN"
| "first_permission (r # rs) s peer a =
     (if check_permission r s peer a \<noteq> UNKNOWN then check_permission r s peer a
      else first_permission rs s peer a)"

definition tmq_acl_auth :: "tmq_acl \<Rightarrow> tmq_session \<Rightarrow> u32 \<Rightarrow> tmq_str \<Rightarrow> access \<Rightarrow> permission \<times> tmq_acl" where
  "tmq_acl_auth acl s peer tf a =
     (let locked = acl\<lparr>read_locks := read_locks acl + 1\<rparr>
      in case acl_match (acl_root acl) False (tmq_topic_split (cstr tf)) of
           None \<Rightarrow> (nomatch_permission acl, locked)
         | Some n \<Rightarrow>
             let perm = first_permission (rules n) s peer a;
                 perm' = (if perm = UNKNOWN then first_permission (rules_for_all n) s peer a else perm)
             in (if perm' = UNKNOWN then nomatch_permission acl else perm',
                 locked\<lparr>read_locks := read_locks locked - 1\<rparr>))"

section \<open>Matching paths\<close>

fun acl_find :: "acl_node \<Rightarrow> tmq_str list \<Rightarrow> acl_node option" where
  "acl_find n [] = Some n"
| "acl_find n (l # ls) = (case map_of (acl_children n) l of None \<Rightarrow> None | Some c \<Rightarrow> acl_find c ls)"

text \<open>When a stored path covers a request; unlike for publishing, \<open>a/#\<close> does not cover \<open>a\<close>.\<close>

fun covers :: "tmq_str list \<Rightarrow> tmq_str list \<Rightarrow> bool" where
  "covers [] [] \<longleftrightarrow> True"
| "covers [] (t # ts) \<longleftrightarrow> False"
| "covers (f # fs) [] \<longleftrightarrow> False"
| "covers (f # fs) (t # ts) \<longleftrightarrow> (f = t \<or> f = PLUS) \<and> covers fs ts \<or> f = HASH \<and> fs = []"

text \<open>The covering paths in the tree, most specific first: at each level the name, then \<open>+\<close>, then \<open>#\<close>.\<close>

fun covering :: "tmq_str list \<Rightarrow> acl_node \<Rightarrow> tmq_str list list" where
  "covering [] n = [[]]"
| "covering (l # ls) n =
     (case map_of (acl_children n) l of None \<Rightarrow> [] | Some c \<Rightarrow> map ((#) l) (covering ls c))
     @ (case map_of (acl_children n) PLUS of None \<Rightarrow> [] | Some c \<Rightarrow> map ((#) PLUS) (covering ls c))
     @ (case map_of (acl_children n) HASH of None \<Rightarrow> [] | Some _ \<Rightarrow> [[HASH]])"

lemma in_covering: "p \<in> set (covering ts n) \<longleftrightarrow> covers p ts \<and> acl_find n p \<noteq> None"
proof (induction ts arbitrary: n p)
  case Nil
  show ?case by (cases p) auto
next
  case (Cons t ts)
  show ?case using Cons by (cases p) (auto split: option.splits)
qed

lemma acl_match_covering:
  "acl_match n False ls = (case covering ls n of [] \<Rightarrow> None | p # _ \<Rightarrow> acl_find n p)"
proof (induction ls arbitrary: n)
  case (Cons l ls)
  have multi: "acl_match c True ls = Some c" for c by (cases ls) simp_all
  have ne: "\<exists>y. acl_find c p = Some y" if "covering ls c = p # ps" for c p ps
    using in_covering [of p ls c] that by simp
  show ?case
    by (auto simp: Cons.IH multi Let_def dest: ne split: option.splits list.splits)
qed simp

section \<open>Loading the rules\<close>

text \<open>
  A row of the rule table as \<^verbatim>\<open>mysql_load_acl\<close> (\<^verbatim>\<open>db/mqtt_db.c\<close>) reads it: the first non-empty column of
  IP address, user name and client identifier is the target (NULL has length 0, as the empty string); with none the rule is for everybody. The columns
  of permission and access are read by \<^verbatim>\<open>atoi\<close> as numbers of the enumerations, and their names are looked up for the log:
  \<^verbatim>\<open>permission_str\<close> has two, \<^verbatim>\<open>access_str\<close> three. The permission may be NULL in the table. \<open>parse_ip\<close> stands for \<^verbatim>\<open>tmq_addr_from_ip_port\<close>.
\<close>

record acl_row =
  permission_col :: "tmq_str option"
  row_ip :: tmq_str
  row_username :: tmq_str
  row_client_id :: tmq_str
  access_col :: tmq_str
  row_topic :: tmq_str

definition row_permission :: "acl_row \<Rightarrow> permission" where
  "row_permission row =
     (case permission_col row of None \<Rightarrow> UNKNOWN | Some v \<Rightarrow> if atoi v = 0 then ALLOW else if atoi v = 1 then DENY else UNKNOWN)"

definition row_access :: "acl_row \<Rightarrow> access" where
  "row_access row = (if atoi (access_col row) = 0 then PUB else if atoi (access_col row) = 1 then SUB else PUB_SUB)"

definition log_row :: "acl_row \<Rightarrow> unit res" where
  "log_row row =
     (case permission_col row of
        None \<Rightarrow> Inl Null_Deref
      | Some v \<Rightarrow> if atoi v \<in> {0, 1} \<and> atoi (access_col row) \<in> {0, 1, 2} then Inr () else Inl Out_Of_Bounds)"

definition row_rule :: "(tmq_str \<Rightarrow> u32) \<Rightarrow> acl_row \<Rightarrow> acl_rule" where
  "row_rule parse_ip row =
     (if row_ip row \<noteq> [] then acl_ip_rule_new (row_permission row) (parse_ip (row_ip row)) (row_access row)
      else if row_username row \<noteq> [] then acl_username_rule_new (row_permission row) (row_username row) (row_access row)
      else if row_client_id row \<noteq> [] then acl_client_id_rule_new (row_permission row) (row_client_id row) (row_access row)
      else acl_all_rule_new (row_permission row) (row_access row))"

definition row_for_all :: "acl_row \<Rightarrow> bool" where
  "row_for_all row \<longleftrightarrow> row_ip row = [] \<and> row_username row = [] \<and> row_client_id row = []"

fun mysql_load_acl :: "(tmq_str \<Rightarrow> u32) \<Rightarrow> acl_row list \<Rightarrow> tmq_acl \<Rightarrow> tmq_acl res option" where
  "mysql_load_acl parse_ip [] acl = Some (Inr acl)"
| "mysql_load_acl parse_ip (row # rows) acl =
     (case log_row row of
        Inl e \<Rightarrow> Some (Inl e)
      | Inr _ \<Rightarrow>
          (case (if row_for_all row then tmq_acl_add_rule_for_all else tmq_acl_add_rule)
                   acl (row_topic row) (row_rule parse_ip row) of
             None \<Rightarrow> None
           | Some (Inl e) \<Rightarrow> Some (Inl e)
           | Some (Inr acl') \<Rightarrow> mysql_load_acl parse_ip rows acl'))"



section \<open>What the tree holds\<close>

definition acl_at :: "acl_node \<Rightarrow> tmq_str list \<Rightarrow> acl_node" where
  "acl_at n p = (case acl_find n p of None \<Rightarrow> acl_tree_node_new | Some m \<Rightarrow> m)"

definition rules_at :: "acl_node \<Rightarrow> tmq_str list \<Rightarrow> acl_rule list" where
  "rules_at n p = rules (acl_at n p) @ rules_for_all (acl_at n p)"

lemma acl_at_simps [simp]:
  "acl_at n [] = n" "acl_at n (l # ls) = acl_at (acl_find_or_create n l) ls"
  "acl_find acl_tree_node_new (l # ls) = None"
  by (auto simp: acl_at_def acl_find_or_create_def acl_tree_node_new_def split: option.splits)
     (cases ls; simp)








section \<open>Properties\<close>

lemma first_permission_append:
  "first_permission (xs @ ys) s peer a =
     (if first_permission xs s peer a = UNKNOWN then first_permission ys s peer a else first_permission xs s peer a)"
  by (induction xs) auto


lemma auth_decision:
  "fst (tmq_acl_auth acl s peer tf a) =
     (case covering (tmq_topic_split (cstr tf)) (acl_root acl) of
        [] \<Rightarrow> nomatch_permission acl
      | p # _ \<Rightarrow>
          let perm = first_permission (rules_at (acl_root acl) p) s peer a
          in if perm = UNKNOWN then nomatch_permission acl else perm)"
proof (cases "covering (tmq_topic_split (cstr tf)) (acl_root acl)")
  case Nil
  then show ?thesis by (simp add: tmq_acl_auth_def acl_match_covering Let_def)
next
  case (Cons p ps)
  then obtain m where "acl_find (acl_root acl) p = Some m"
    using in_covering [of p "tmq_topic_split (cstr tf)" "acl_root acl"] by auto
  then show ?thesis using Cons
    by (simp add: tmq_acl_auth_def acl_match_covering Let_def rules_at_def acl_at_def first_permission_append)
qed

text \<open>
  C26. How a request is decided: among the stored filters that cover the requested topic, listed with
  the literal level before \<open>+\<close> before \<open>#\<close> at every level, only the first counts; its rules for
  particular targets are tried before its rules for everybody, and the first rule that applies
  decides. If no filter covers the topic or no rule applies, the default does.
\<close>

theorem acl_request_decided:
  "fst (tmq_acl_auth acl s peer tf a) =
     (case covering (tmq_topic_split (cstr tf)) (acl_root acl) of
        [] \<Rightarrow> nomatch_permission acl
      | p # _ \<Rightarrow>
          let perm = first_permission (rules_at (acl_root acl) p) s peer a
          in if perm = UNKNOWN then nomatch_permission acl else perm) \<and>
   set (covering (tmq_topic_split (cstr tf)) (acl_root acl)) =
     {p. covers p (tmq_topic_split (cstr tf)) \<and> acl_find (acl_root acl) p \<noteq> None}"
  using auth_decision in_covering by auto



definition example_session :: "tmq_str \<Rightarrow> tmq_session" where
  "example_session u = tmq_session_new 0 0 True 0 0 ''c'' (Some u) 1 60 None None 0 0 10
     (Memory_Store tmq_message_store_memory_new)"


text \<open>
  Adding a rule after one that conflicts with it can change the rule of somebody else: here the rule
  that lets \<open>bob\<close> publish becomes one for publishing and subscribing, and the rule that was to be
  added for \<open>alice\<close> is dropped. If the conflicting rule is the last of the list, the code
  dereferences NULL.
\<close>

theorem conflicting_rule_changes_other_target:
  "add_rule [acl_username_rule_new DENY ''alice'' PUB_SUB, acl_username_rule_new ALLOW ''bob'' PUB]
     (acl_username_rule_new ALLOW ''alice'' SUB) = Inr [acl_username_rule_new ALLOW ''bob'' PUB_SUB]"
  by (simp add: add_rule_def acl_username_rule_new_def conflict_def merge_rule_def same_target_defs)

theorem conflicting_last_rule_faults:
  "check_same_target r new \<Longrightarrow> conflict r new \<Longrightarrow> add_rule [r] new = Inl Null_Deref"
  by (simp add: add_rule_def del: check_same_target.simps)

text \<open>A request that no filter covers leaves the read lock taken.\<close>

theorem auth_nomatch_keeps_lock:
  "covering (tmq_topic_split (cstr tf)) (acl_root acl) = [] \<Longrightarrow>
   read_locks (snd (tmq_acl_auth acl s peer tf a)) = read_locks acl + 1"
  by (simp add: tmq_acl_auth_def acl_match_covering Let_def)

text \<open>
  The comments of \<^verbatim>\<open>db/table.sql\<close> number permissions and accesses the other way round: a row that is to allow publishing denies subscribing.
\<close>

theorem documented_row_is_inverted:
  "case mysql_load_acl (\<lambda>_. 0) [\<lparr>permission_col = Some ''1'', row_ip = [], row_username = [], row_client_id = [], access_col = ''1'', row_topic = ''a''\<rparr>]
     (tmq_acl_init ALLOW) of
     Some (Inr acl) \<Rightarrow> fst (tmq_acl_auth acl (example_session ''bob'') 0 ''a'' SUB) = DENY \<and> fst (tmq_acl_auth acl (example_session ''bob'') 0 ''a'' PUB) = ALLOW
   | _ \<Rightarrow> False"
  by code_simp

text \<open>A row with another permission is looked up behind the end of \<^verbatim>\<open>permission_str\<close>.\<close>

theorem unknown_permission_row_faults:
  "atoi v \<notin> {0, 1} \<Longrightarrow> permission_col row = Some v \<Longrightarrow> mysql_load_acl parse_ip (row # rows) acl = Some (Inl Out_Of_Bounds)"
  by (simp add: log_row_def)

end
