(* ===== verification/Executor.thy ===== *)
theory Executor
  imports Prelude
begin

text \<open>
  The task executor of \<^verbatim>\<open>mqtt/mqtt_executor.c\<close>: any thread posts tasks of a priority; one thread takes the
  whole buffer of the highest non-empty priority and runs it, unless a task of a higher priority
  arrives: then the rest of the buffer goes to the auxiliary buffer of its priority, to be resumed at
  \<^verbatim>\<open>break_point\<close>.

  Sections under the mutex are single steps, as are the atomic read of \<^verbatim>\<open>preempt\<close> and the execution of a
  task; the steps of the posting threads and of the executing thread interleave. The location of the
  executing thread is the datatype \<open>thread\<close>. \<^verbatim>\<open>size_t\<close> counters are natural numbers.
\<close>

record 'a task_exec_ctx =
  main_buf :: "'a list"
  aux_buf :: "'a list"
  break_point :: nat

record 'a executor =
  exec :: "'a task_exec_ctx list"
  executing_pri :: int
  preempt :: bool
  ex_stop :: bool
  max_pri :: nat
  task_total :: nat

definition empty_ctx :: "'a task_exec_ctx" where
  "empty_ctx = \<lparr>main_buf = [], aux_buf = [], break_point = 0\<rparr>"

definition tmq_executor_init :: "nat \<Rightarrow> 'a executor" where
  "tmq_executor_init pri_num =
     \<lparr>exec = replicate pri_num empty_ctx, executing_pri = -1, preempt = False, ex_stop = False,
      max_pri = pri_num - 1, task_total = 0\<rparr>"

definition tmq_executor_post :: "'a \<Rightarrow> nat \<Rightarrow> 'a executor \<Rightarrow> 'a executor res" where
  "tmq_executor_post task pri ex =
     (if pri \<ge> length (exec ex) then Inl Out_Of_Bounds
      else
        let ctx = exec ex ! pri
        in Inr (ex\<lparr>exec := (exec ex)[pri := ctx\<lparr>main_buf := main_buf ctx @ [task]\<rparr>],
                   task_total := task_total ex + 1,
                   preempt := preempt ex \<or> executing_pri ex < int pri\<rparr>))"

definition tmq_executor_stop :: "'a executor \<Rightarrow> 'a executor" where
  "tmq_executor_stop ex = ex\<lparr>ex_stop := True\<rparr>"

section \<open>The executing thread\<close>

text \<open>
  \<open>Idle\<close>: about to take the lock at the head of the loop, or waiting for the condition. \<open>Checking ts t i\<close>:
  in the \<^verbatim>\<open>for\<close> loop over the buffer \<open>ts\<close> of priority \<open>i\<close>, before the test of \<^verbatim>\<open>preempt\<close> for task \<open>t\<close>.
  \<open>Executing\<close>: after the test, task \<open>t\<close> is running.
\<close>

datatype 'a thread = Idle | Checking "'a list" nat nat | Executing "'a list" nat nat | Returned

datatype 'a event = Post nat 'a | Exec nat 'a | Tau

fun find_ctx :: "'a task_exec_ctx list \<Rightarrow> nat \<Rightarrow> nat option" where
  "find_ctx cs 0 = None"
| "find_ctx cs (Suc i) = (if main_buf (cs ! i) \<noteq> [] \<or> aux_buf (cs ! i) \<noteq> [] then Some i else find_ctx cs i)"

definition take_tasks :: "'a executor \<Rightarrow> 'a executor \<times> 'a thread" where
  "take_tasks ex =
     (let r = find_ctx (exec ex) (Suc (max_pri ex));
          i = (case r of None \<Rightarrow> 0 | Some i \<Rightarrow> i);
          ctx = exec ex ! i;
          ex1 = ex\<lparr>executing_pri := (case r of None \<Rightarrow> -1 | Some i \<Rightarrow> int i), preempt := False\<rparr>;
          (ts, start, ctx') =
            (if aux_buf ctx \<noteq> [] then (aux_buf ctx, break_point ctx, ctx\<lparr>aux_buf := []\<rparr>)
             else (main_buf ctx, 0, ctx\<lparr>main_buf := []\<rparr>))
      in (ex1\<lparr>exec := (exec ex1)[i := ctx'], task_total := task_total ex1 - (length ts - start)\<rparr>,
          Checking ts start i))"

fun thread_routine :: "'a executor \<Rightarrow> 'a thread \<Rightarrow> ('a event \<times> 'a executor \<times> 'a thread) option" where
  "thread_routine ex Idle =
     (if task_total ex = 0 then None
      else if ex_stop ex \<and> task_total ex = 0 then Some (Tau, ex, Returned)
      else (let (ex', th) = take_tasks ex in Some (Tau, ex', th)))"
| "thread_routine ex (Checking ts t i) =
     (if t \<ge> length ts then Some (Tau, ex, Idle)
      else if preempt ex then
        let ctx = exec ex ! i
        in Some (Tau, ex\<lparr>exec := (exec ex)[i := ctx\<lparr>aux_buf := ts, break_point := t\<rparr>],
                         task_total := task_total ex + (length ts - t)\<rparr>, Idle)
      else Some (Tau, ex, Executing ts t i))"
| "thread_routine ex (Executing ts t i) = Some (Exec i (ts ! t), ex, Checking ts (Suc t) i)"
| "thread_routine ex Returned = None"

section \<open>Runs\<close>

inductive ex_step :: "'a executor \<times> 'a thread \<Rightarrow> 'a event \<Rightarrow> 'a executor \<times> 'a thread \<Rightarrow> bool" where
  post: "tmq_executor_post x p ex = Inr ex' \<Longrightarrow> ex_step (ex, th) (Post p x) (ex', th)"
| stop: "ex_step (ex, th) Tau (tmq_executor_stop ex, th)"
| thread: "thread_routine ex th = Some (e, ex', th') \<Longrightarrow> ex_step (ex, th) e (ex', th')"

inductive_cases ex_stepE [consumes 1, case_names post stop thread]: "ex_step (ex, th) e c'"

inductive ex_run :: "nat \<Rightarrow> 'a event list \<Rightarrow> 'a executor \<times> 'a thread \<Rightarrow> bool" for n :: nat where
  run_init: "0 < n \<Longrightarrow> ex_run n [] (tmq_executor_init n, Idle)"
| run_step: "ex_run n tr c \<Longrightarrow> ex_step c e c' \<Longrightarrow> ex_run n (tr @ [e]) c'"

fun posted :: "nat \<Rightarrow> 'a event list \<Rightarrow> 'a list" where
  "posted p [] = []"
| "posted p (Post q x # tr) = (if q = p then x # posted p tr else posted p tr)"
| "posted p (_ # tr) = posted p tr"

fun executed :: "nat \<Rightarrow> 'a event list \<Rightarrow> 'a list" where
  "executed p [] = []"
| "executed p (Exec q x # tr) = (if q = p then x # executed p tr else executed p tr)"
| "executed p (_ # tr) = executed p tr"

lemma events_append [simp]:
  "posted p (tr @ tr') = posted p tr @ posted p tr'" "executed p (tr @ tr') = executed p tr @ executed p tr'"
  by (induction tr rule: posted.induct; simp) (induction tr rule: executed.induct; simp)

section \<open>The invariant\<close>

definition queued :: "'a task_exec_ctx \<Rightarrow> 'a list" where
  "queued c = (if aux_buf c = [] then [] else drop (break_point c) (aux_buf c)) @ main_buf c"

fun running :: "'a thread \<Rightarrow> nat \<Rightarrow> 'a list" where
  "running (Checking ts t i) p = (if p = i then drop t ts else [])"
| "running (Executing ts t i) p = (if p = i then drop t ts else [])"
| "running _ p = []"

definition higher_queued :: "'a executor \<Rightarrow> nat \<Rightarrow> bool" where
  "higher_queued ex i \<longleftrightarrow> (\<exists>j<length (exec ex). i < j \<and> queued (exec ex ! j) \<noteq> [])"

definition batch_inv :: "'a executor \<Rightarrow> nat \<Rightarrow> bool" where
  "batch_inv ex i \<longleftrightarrow> i < length (exec ex) \<and> aux_buf (exec ex ! i) = [] \<and> executing_pri ex = int i \<and>
     (higher_queued ex i \<longrightarrow> preempt ex)"

fun thread_inv :: "'a executor \<Rightarrow> 'a thread \<Rightarrow> bool" where
  "thread_inv ex Idle \<longleftrightarrow> True"
| "thread_inv ex (Checking ts t i) \<longleftrightarrow> batch_inv ex i"
| "thread_inv ex (Executing ts t i) \<longleftrightarrow> batch_inv ex i \<and> t < length ts"
| "thread_inv ex Returned \<longleftrightarrow> False"

definition ctx_ok :: "'a task_exec_ctx \<Rightarrow> bool" where
  "ctx_ok c \<longleftrightarrow> (aux_buf c \<noteq> [] \<longrightarrow> break_point c < length (aux_buf c))"

definition ex_inv :: "nat \<Rightarrow> 'a executor \<Rightarrow> 'a thread \<Rightarrow> bool" where
  "ex_inv n ex th \<longleftrightarrow>
     0 < n \<and> length (exec ex) = n \<and> max_pri ex = n - 1 \<and>
     (\<forall>c\<in>set (exec ex). ctx_ok c) \<and>
     task_total ex = sum_list (map (length \<circ> queued) (exec ex)) \<and> thread_inv ex th"

lemma find_ctx_Some:
  "find_ctx cs k = Some i \<Longrightarrow> i < k \<and> (main_buf (cs ! i) \<noteq> [] \<or> aux_buf (cs ! i) \<noteq> []) \<and>
     (\<forall>j. i < j \<and> j < k \<longrightarrow> main_buf (cs ! j) = [] \<and> aux_buf (cs ! j) = [])"
  by (induction k) (auto simp: less_Suc_eq split: if_splits)

lemma find_ctx_None:
  "find_ctx cs k = None \<Longrightarrow> j < k \<Longrightarrow> main_buf (cs ! j) = [] \<and> aux_buf (cs ! j) = []"
  by (induction k) (auto simp: less_Suc_eq split: if_splits)

lemma total_update:
  assumes "i < length cs"
  shows "sum_list (map (length \<circ> queued) (cs[i := c])) + length (queued (cs ! i)) =
    sum_list (map (length \<circ> queued) cs) + length (queued c)"
proof -
  have "length (queued (cs ! i)) \<le> sum_list (map (length \<circ> queued) cs)"
    using assms by (intro member_le_sum_list) (auto simp: image_iff intro!: bexI [of _ "cs ! i"])
  then show ?thesis using assms by (simp add: map_update sum_list_update)
qed

lemma inv_post:
  assumes "ex_inv n ex th" and "tmq_executor_post x p ex = Inr ex'"
  shows "ex_inv n ex' th \<and> p < n \<and> queued (exec ex' ! p) = queued (exec ex ! p) @ [x] \<and>
    (\<forall>q. q \<noteq> p \<longrightarrow> exec ex' ! q = exec ex ! q)"
proof -
  let ?c = "(exec ex ! p)\<lparr>main_buf := main_buf (exec ex ! p) @ [x]\<rparr>"
  have p: "p < length (exec ex)" and ex': "ex' = ex\<lparr>exec := (exec ex)[p := ?c], task_total := task_total ex + 1,
      preempt := preempt ex \<or> executing_pri ex < int p\<rparr>"
    using assms(2) by (auto simp: tmq_executor_post_def Let_def split: if_splits)
  have q: "queued ?c = queued (exec ex ! p) @ [x]" by (simp add: queued_def)
  have tot: "task_total ex' = sum_list (map (length \<circ> queued) (exec ex'))"
    using total_update [OF p, of ?c] assms(1) q ex' by (simp add: ex_inv_def)
  have "ctx_ok (exec ex ! p)" using assms(1) p by (simp add: ex_inv_def)
  then have bp: "\<forall>c\<in>set (exec ex'). ctx_ok c"
    using assms(1) ex' ball_list_update [of "exec ex" ctx_ok ?c p] by (simp add: ex_inv_def ctx_ok_def)
  have b: "batch_inv ex i \<Longrightarrow> batch_inv ex' i" for i
    using p ex' by (auto simp: batch_inv_def higher_queued_def nth_list_update split: if_splits)
  have "thread_inv ex' th" using assms(1) b by (cases th) (auto simp: ex_inv_def)
  then show ?thesis using assms(1) p ex' q tot bp by (auto simp: ex_inv_def)
qed

definition pending :: "'a executor \<Rightarrow> 'a thread \<Rightarrow> nat \<Rightarrow> 'a list" where
  "pending ex th p = running th p @ queued (exec ex ! p)"

lemma queued_ne: "ctx_ok c \<Longrightarrow> queued c \<noteq> [] \<longleftrightarrow> main_buf c \<noteq> [] \<or> aux_buf c \<noteq> []"
  by (auto simp: queued_def ctx_ok_def)

lemma find_ctx_total:
  assumes "ex_inv n ex th" and "task_total ex \<noteq> 0"
  shows "\<exists>i<n. find_ctx (exec ex) (Suc (max_pri ex)) = Some i \<and> queued (exec ex ! i) \<noteq> [] \<and>
    (\<forall>j. i < j \<and> j < n \<longrightarrow> queued (exec ex ! j) = [])"
proof -
  have n: "Suc (max_pri ex) = n" "length (exec ex) = n" and ok: "\<And>j. j < n \<Longrightarrow> ctx_ok (exec ex ! j)"
    using assms(1) by (auto simp: ex_inv_def)
  have "\<exists>c\<in>set (exec ex). queued c \<noteq> []"
    using assms by (auto simp: ex_inv_def sum_list_eq_0_iff)
  then obtain k where k: "k < n" "queued (exec ex ! k) \<noteq> []" using n by (auto simp: in_set_conv_nth)
  obtain i where i: "find_ctx (exec ex) n = Some i"
    using find_ctx_None [of "exec ex" n k] k ok queued_ne by (cases "find_ctx (exec ex) n") auto
  show ?thesis using find_ctx_Some [OF i] i n ok queued_ne by metis
qed

lemma inv_take:
  assumes "ex_inv n ex Idle" and "task_total ex \<noteq> 0" and "take_tasks ex = (ex', th')"
  shows "ex_inv n ex' th' \<and> (\<forall>p. pending ex' th' p = pending ex Idle p) \<and>
    (\<exists>ts t i. th' = Checking ts t i \<and> t < length ts \<and> \<not> preempt ex' \<and>
       task_total ex' + (length ts - t) = task_total ex)"
proof -
  obtain i where i: "i < n" "find_ctx (exec ex) (Suc (max_pri ex)) = Some i" "queued (exec ex ! i) \<noteq> []"
      "\<forall>j. i < j \<and> j < n \<longrightarrow> queued (exec ex ! j) = []"
    using find_ctx_total [OF assms(1,2)] by blast
  let ?c = "exec ex ! i"
  have len: "length (exec ex) = n" and ok: "ctx_ok ?c" using assms(1) i(1) by (auto simp: ex_inv_def)
  obtain ts t c' where c': "(if aux_buf ?c \<noteq> [] then (aux_buf ?c, break_point ?c, ?c\<lparr>aux_buf := []\<rparr>)
      else (main_buf ?c, 0, ?c\<lparr>main_buf := []\<rparr>)) = (ts, t, c')" by (metis prod_cases3)
  have t: "t < length ts" "aux_buf c' = []" "queued ?c = drop t ts @ queued c'"
    using c' ok i(3) by (auto simp: ctx_ok_def queued_def split: if_splits)
  have ex': "ex' = ex\<lparr>executing_pri := int i, preempt := False, exec := (exec ex)[i := c'],
      task_total := task_total ex - (length ts - t)\<rparr>" "th' = Checking ts t i"
    using assms(3) unfolding take_tasks_def Let_def i(2) option.case c' prod.case by auto
  have tot: "task_total ex' = sum_list (map (length \<circ> queued) (exec ex'))"
    using total_update [of i "exec ex" c'] i(1) len assms(1) t ex' by (simp add: ex_inv_def)
  have "\<forall>c\<in>set (exec ex'). ctx_ok c"
    using ball_list_update [of "exec ex" ctx_ok c' i] assms(1) t(2) ex' by (simp add: ex_inv_def ctx_ok_def)
  moreover have "batch_inv ex' i"
    using i(1,4) len t(2) ex' by (auto simp: batch_inv_def higher_queued_def nth_list_update)
  ultimately have "ex_inv n ex' th'" using assms(1) tot ex' by (simp add: ex_inv_def)
  moreover have "pending ex' th' p = pending ex Idle p" for p
    using ex' t(3) i(1) len by (simp add: pending_def nth_list_update)
  moreover have "task_total ex' + (length ts - t) = task_total ex"
    using total_update [of i "exec ex" c'] i(1) len assms(1) t ex' by (simp add: ex_inv_def)
  ultimately show ?thesis using ex' t(1) by auto
qed

lemma inv_preempt:
  assumes "ex_inv n ex (Checking ts t i)" and "t < length ts"
  defines "ex' \<equiv> ex\<lparr>exec := (exec ex)[i := (exec ex ! i)\<lparr>aux_buf := ts, break_point := t\<rparr>],
    task_total := task_total ex + (length ts - t)\<rparr>"
  shows "ex_inv n ex' Idle \<and> (\<forall>p. pending ex' Idle p = pending ex (Checking ts t i) p)"
proof -
  let ?c = "(exec ex ! i)\<lparr>aux_buf := ts, break_point := t\<rparr>"
  have i: "i < length (exec ex)" "aux_buf (exec ex ! i) = []" using assms(1) by (auto simp: ex_inv_def batch_inv_def)
  have q: "queued ?c = drop t ts @ queued (exec ex ! i)" using i(2) assms(2) by (auto simp: queued_def)
  have "task_total ex' = sum_list (map (length \<circ> queued) (exec ex'))"
    using total_update [OF i(1), of ?c] assms(1) q by (simp add: ex_inv_def ex'_def)
  moreover have "\<forall>c\<in>set (exec ex'). ctx_ok c"
    using ball_list_update [of "exec ex" ctx_ok ?c i] assms(1,2) by (simp add: ex_inv_def ctx_ok_def ex'_def)
  ultimately have "ex_inv n ex' Idle" using assms(1) by (simp add: ex_inv_def ex'_def)
  moreover have "pending ex' Idle p = pending ex (Checking ts t i) p" for p
    using i(1) q by (simp add: pending_def ex'_def nth_list_update)
  ultimately show ?thesis by blast
qed

lemma inv_thread:
  assumes "ex_inv n ex th" and "thread_routine ex th = Some (e, ex', th')"
  shows "ex_inv n ex' th' \<and> (\<forall>p. pending ex th p = executed p [e] @ pending ex' th' p) \<and> posted p [e] = []"
proof (cases th)
  case Idle
  then have "task_total ex \<noteq> 0" "take_tasks ex = (ex', th')" "e = Tau"
    using assms(2) by (auto split: if_splits prod.splits)
  then show ?thesis using inv_take [of n ex ex' th'] assms(1) Idle by simp
next
  case (Checking ts t i)
  consider "t \<ge> length ts" | "t < length ts" "preempt ex" | "t < length ts" "\<not> preempt ex" by linarith
  then show ?thesis
  proof cases
    case 1
    then show ?thesis using assms Checking by (auto simp: ex_inv_def pending_def)
  next
    case 2
    then show ?thesis using inv_preempt [of n ex ts t i] assms Checking by (auto simp: Let_def)
  next
    case 3
    then show ?thesis using assms Checking by (auto simp: ex_inv_def pending_def)
  qed
next
  case (Executing ts t i)
  then show ?thesis using assms by (auto simp: ex_inv_def pending_def Cons_nth_drop_Suc)
next
  case Returned
  then show ?thesis using assms(1) by (simp add: ex_inv_def)
qed

lemma ex_run_inv:
  "ex_run n tr (ex, th) \<Longrightarrow> ex_inv n ex th \<and> (\<forall>p<n. posted p tr = executed p tr @ pending ex th p)"
proof (induction tr "(ex, th)" arbitrary: ex th rule: ex_run.induct)
  case run_init
  then show ?case
    by (auto simp: ex_inv_def tmq_executor_init_def pending_def queued_def empty_ctx_def ctx_ok_def sum_list_eq_0_iff)
next
  case (run_step tr c e)
  obtain ex0 th0 where c: "c = (ex0, th0)" by (cases c)
  then have IH: "ex_inv n ex0 th0" "\<forall>p<n. posted p tr = executed p tr @ pending ex0 th0 p"
    using run_step.hyps(2) by auto
  from run_step.hyps(3) [unfolded c] show ?case
  proof (cases rule: ex_stepE)
    case (post x p ex')
    have "pending ex' th0 q = pending ex0 th0 q @ (if q = p then [x] else [])" for q
      using inv_post [OF IH(1) post(3)] by (simp add: pending_def)
    then show ?thesis using inv_post [OF IH(1) post(3)] IH(2) post by auto
  next
    case stop
    have "batch_inv (tmq_executor_stop ex0) i = batch_inv ex0 i" for i
      by (simp add: batch_inv_def higher_queued_def tmq_executor_stop_def)
    then have "thread_inv (tmq_executor_stop ex0) th0 = thread_inv ex0 th0" by (cases th0) auto
    then show ?thesis using IH stop by (auto simp: ex_inv_def pending_def tmq_executor_stop_def)
  next
    case (thread ex' th')
    then show ?thesis using inv_thread [OF IH(1), of e ex' th'] IH(2) by auto
  qed
qed

section \<open>The thread alone\<close>

fun thread_iter :: "nat \<Rightarrow> 'a executor \<Rightarrow> 'a thread \<Rightarrow> 'a event list \<times> 'a executor \<times> 'a thread" where
  "thread_iter 0 ex th = ([], ex, th)"
| "thread_iter (Suc k) ex th =
     (case thread_routine ex th of
        None \<Rightarrow> ([], ex, th)
      | Some (e, ex', th') \<Rightarrow> (let (evs, r) = thread_iter k ex' th' in (e # evs, r)))"

fun work :: "'a executor \<Rightarrow> 'a thread \<Rightarrow> nat" where
  "work ex (Checking ts t i) =
     4 * (task_total ex + (length ts - t)) + (if t \<ge> length ts \<or> preempt ex then 3 else 1)"
| "work ex (Executing ts t i) = 4 * (task_total ex + (length ts - t))"
| "work ex _ = 4 * task_total ex + 2"

lemma work_decreases:
  assumes "ex_inv n ex th" and "thread_routine ex th = Some (e, ex', th')"
  shows "work ex' th' < work ex th"
proof (cases th)
  case Idle
  then have "task_total ex \<noteq> 0" "take_tasks ex = (ex', th')"
    using assms(2) by (auto split: if_splits prod.splits)
  then show ?thesis using inv_take [of n ex ex' th'] assms(1) Idle by auto
next
  case (Executing ts t i)
  then have "t < length ts" using assms(1) by (simp add: ex_inv_def)
  then show ?thesis using assms(2) Executing by auto
qed (use assms in \<open>auto simp: ex_inv_def Let_def split: if_splits\<close>)

lemma thread_drains:
  assumes "ex_inv n ex th"
  shows "\<exists>k evs ex'. thread_iter k ex th = (evs, ex', Idle) \<and> ex_inv n ex' Idle \<and> task_total ex' = 0 \<and>
    (\<forall>p<n. executed p evs = pending ex th p)"
  using assms
proof (induction "work ex th" arbitrary: ex th rule: less_induct)
  case less
  show ?case
  proof (cases "thread_routine ex th")
    case None
    then have th: "th = Idle" "task_total ex = 0" using less.prems
      by (cases th; auto simp: ex_inv_def Let_def split: if_splits prod.splits)+
    have "queued (exec ex ! p) = []" if "p < n" for p
      using less.prems th that by (auto simp: ex_inv_def sum_list_eq_0_iff)
    then have "executed p [] = pending ex th p" if "p < n" for p using that th(1) by (simp add: pending_def)
    then show ?thesis using th less.prems by (intro exI [of _ 0] exI [of _ "[]"] exI [of _ ex]) simp
  next
    case (Some r)
    obtain e ex1 th1 where r: "r = (e, ex1, th1)" by (cases r)
    have i: "ex_inv n ex1 th1" "\<forall>p. pending ex th p = executed p [e] @ pending ex1 th1 p"
      using inv_thread [OF less.prems Some [unfolded r]] by auto
    obtain k evs ex' where k: "thread_iter k ex1 th1 = (evs, ex', Idle)" "ex_inv n ex' Idle" "task_total ex' = 0"
        "\<forall>p<n. executed p evs = pending ex1 th1 p"
      using less.hyps [OF work_decreases [OF less.prems Some [unfolded r]] i(1)] by blast
    have "executed p (e # evs) = executed p [e] @ executed p evs" for p
      using events_append(2) [of p "[e]" evs] by simp
    then have "thread_iter (Suc k) ex th = (e # evs, ex', Idle)" "\<forall>p<n. executed p (e # evs) = pending ex th p"
      using k(1,4) i(2) Some r by auto
    then show ?thesis using k(2,3) by blast
  qed
qed

section \<open>Properties\<close>

text \<open>
  C10. First in, first out. In every interleaving of posts and steps of the executing thread, for every
  priority the tasks executed so far, followed by the rest of the buffer being run and by the queued
  ones, are exactly the tasks posted, in the order of posting: preemption neither loses, repeats nor
  reorders tasks. The counter is the number of queued tasks.
\<close>

theorem executor_fifo:
  assumes "ex_run n tr (ex, th)" and "p < n"
  shows "posted p tr = executed p tr @ pending ex th p \<and>
    task_total ex = sum_list (map (length \<circ> queued) (exec ex))"
  using ex_run_inv [OF assms(1)] assms(2) by (simp add: ex_inv_def)

text \<open>
  C13. Priorities are respected: in every interleaving, the thread starts a task only when no task of a
  higher priority was queued at the moment it looked.
\<close>

theorem executor_respects_priority:
  assumes "ex_run n tr (ex, th)" and "thread_routine ex th = Some (e, ex', Executing ts t i)"
  shows "\<not> higher_queued ex i \<and> th = Checking ts t i \<and> ex' = ex"
proof (cases th)
  case (Checking ts' t' i')
  then show ?thesis using assms ex_run_inv [OF assms(1)]
    by (auto simp: ex_inv_def batch_inv_def Let_def split: if_splits)
qed (use assms(2) in \<open>auto simp: take_tasks_def Let_def split: if_splits prod.splits\<close>)

text \<open>
  C12. Every posted task is executed: from every reachable state, if nothing more is posted, the thread
  executes after finitely many steps all that is pending, for every priority in order, and then waits
  with empty queues.
\<close>

theorem executor_drains:
  assumes "ex_run n tr (ex, th)"
  shows "\<exists>k evs ex'. thread_iter k ex th = (evs, ex', Idle) \<and> task_total ex' = 0 \<and>
    (\<forall>p<n. executed p evs = pending ex th p)"
  using thread_drains [of n ex th] ex_run_inv [OF assms] by blast

text \<open>
  The thread never leaves its loop: it waits as long as there are no tasks and tests \<^verbatim>\<open>stop\<close> only when
  there are some. \<^verbatim>\<open>tmq_executor_stop\<close> waits for it forever.
\<close>

theorem executor_never_returns:
  assumes "ex_run n tr (ex, th)"
  shows "th \<noteq> Returned"
  using ex_run_inv [OF assms] by (auto simp: ex_inv_def)

section \<open>Instances\<close>

definition preempted :: "nat executor" where
  "preempted = \<lparr>exec = [\<lparr>main_buf = [], aux_buf = [], break_point = 0\<rparr>, \<lparr>main_buf = [3], aux_buf = [], break_point = 0\<rparr>],
     executing_pri = 0, preempt = True, ex_stop = False, max_pri = 1, task_total = 1\<rparr>"

lemma example_ex_run:
  "ex_run 2 [Post 0 1, Post 0 2, Tau, Tau, Post 1 3] (preempted, Executing [1, 2] 0 (0::nat))"
proof -
  let ?c = "\<lambda>xs. \<lparr>main_buf = xs, aux_buf = [], break_point = 0\<rparr>"
  let ?e = "\<lambda>xs n. \<lparr>exec = [?c xs, ?c []], executing_pri = -1, preempt = n > 0, ex_stop = False, max_pri = 1, task_total = n\<rparr>"
  let ?f = "\<lparr>exec = [?c [], ?c []], executing_pri = 0, preempt = False, ex_stop = False, max_pri = 1, task_total = 0\<rparr>"
  have "ex_run 2 [] (?e [] 0, Idle :: nat thread)"
    using run_init [of 2] by (simp add: tmq_executor_init_def empty_ctx_def numeral_2_eq_2)
  moreover have "ex_step (?e [] 0, Idle) (Post 0 1) (?e [1::nat] 1, Idle)"
    by (rule post) (simp add: tmq_executor_post_def)
  ultimately have "ex_run 2 ([] @ [Post 0 1]) (?e [1::nat] 1, Idle)" by (rule run_step)
  moreover have "ex_step (?e [1] 1, Idle) (Post 0 2) (?e [1, 2::nat] 2, Idle)"
    by (rule post) (simp add: tmq_executor_post_def)
  ultimately have "ex_run 2 (([] @ [Post 0 1]) @ [Post 0 2]) (?e [1, 2::nat] 2, Idle)" by (rule run_step)
  moreover have "ex_step (?e [1, 2] 2, Idle) Tau (?f, Checking [1, 2::nat] 0 0)"
    by (rule thread) (simp add: take_tasks_def numeral_2_eq_2)
  ultimately have "ex_run 2 ((([] @ [Post 0 1]) @ [Post 0 2]) @ [Tau]) (?f, Checking [1, 2::nat] 0 0)" by (rule run_step)
  moreover have "ex_step (?f, Checking [1, 2] 0 0) Tau (?f, Executing [1, 2::nat] 0 0)"
    by (rule thread) simp
  ultimately have "ex_run 2 (((([] @ [Post 0 1]) @ [Post 0 2]) @ [Tau]) @ [Tau]) (?f, Executing [1, 2::nat] 0 0)" by (rule run_step)
  moreover have "ex_step (?f, Executing [1, 2] 0 0) (Post 1 3) (preempted, Executing [1, 2::nat] 0 0)"
    by (rule post) (simp add: tmq_executor_post_def preempted_def)
  ultimately show ?thesis using run_step by fastforce
qed

theorem executor_fifo_witness: "pending preempted (Executing [1, 2] 0 0) 0 = [1, 2::nat]"
  using executor_fifo [OF example_ex_run, of 0] by simp

theorem executor_drains_witness:
  "\<exists>k evs ex'. thread_iter k preempted (Executing [1, 2] 0 0) = (evs, ex', Idle) \<and> executed 0 evs = [1, 2::nat]"
proof -
  have "pending preempted (Executing [1, 2] 0 0) 0 = [1, 2::nat]"
    by (simp add: pending_def preempted_def queued_def)
  then show ?thesis using executor_drains [OF example_ex_run] by (metis zero_less_numeral)
qed

lemma example_ex_run2: "ex_run 1 [Post 0 1, Tau] (\<lparr>exec = [\<lparr>main_buf = [], aux_buf = [], break_point = 0\<rparr>],
    executing_pri = 0, preempt = False, ex_stop = False, max_pri = 0, task_total = 0\<rparr>, Checking [1::nat] 0 0)"
proof -
  let ?e = "\<lambda>xs n. \<lparr>exec = [\<lparr>main_buf = xs, aux_buf = [], break_point = 0\<rparr>], executing_pri = -1, preempt = n > 0,
    ex_stop = False, max_pri = 0, task_total = n\<rparr>"
  have "ex_run 1 [] (?e [] 0, Idle :: nat thread)"
    using run_init [of 1] by (simp add: tmq_executor_init_def empty_ctx_def)
  moreover have "ex_step (?e [] 0, Idle) (Post 0 1) (?e [1::nat] 1, Idle)"
    by (rule post) (simp add: tmq_executor_post_def)
  ultimately have "ex_run 1 ([] @ [Post 0 1]) (?e [1::nat] 1, Idle)" by (rule run_step)
  moreover have "ex_step (?e [1] 1, Idle) Tau (\<lparr>exec = [\<lparr>main_buf = [], aux_buf = [], break_point = 0\<rparr>],
    executing_pri = 0, preempt = False, ex_stop = False, max_pri = 0, task_total = 0\<rparr>, Checking [1::nat] 0 0)"
    by (rule thread) (simp add: take_tasks_def)
  ultimately show ?thesis using run_step by fastforce
qed

theorem executor_respects_priority_witness:
  "\<not> higher_queued \<lparr>exec = [\<lparr>main_buf = [] :: nat list, aux_buf = [], break_point = 0\<rparr>],
     executing_pri = 0, preempt = False, ex_stop = False, max_pri = 0, task_total = 0\<rparr> 0"
  using executor_respects_priority [OF example_ex_run2] by simp

end
