(* ===== verification/Timer_Heap.thy ===== *)
theory Timer_Heap
  imports Dict
begin

text \<open>
  The timers of an event loop, \<^verbatim>\<open>ev/mqtt_timer.c\<close>: a binary heap of pointers to timers in an array that
  is used from index 1, and a registry from timer identifiers to timers. The array is a function from
  indices, with the number of bytes allocated for it beside (a pointer has 8); the timer objects
  are a function from addresses, since the heap, the registry and the list of expired timers share
  them. Times are integers in microseconds without a bound (the code has 64 bits, which is enough for times of 290000 years), the product \<^verbatim>\<open>timeout_ms * 1000\<close> is \<open>timeout_us\<close>, and
  the values returned by \<^verbatim>\<open>time_now()\<close> are arguments. What a callback does to the timers is the argument
  \<open>call\<close>.
\<close>

type_synonym timer_id = "int \<times> int"

record timer =
  expire :: int
  timeout_us :: int
  t_cb :: nat
  repeat :: bool
  canceled :: bool
  t_id :: timer_id

record timer_heap =
  harr :: "nat \<Rightarrow> addr"
  hsize :: nat
  hcap :: nat
  hbytes :: nat
  registered :: "(timer_id, addr) alist"
  timer_at :: "addr \<Rightarrow> timer"
  timerfd :: "int option"

definition TIMER_HEAP_INITIAL_SIZE :: nat where "TIMER_HEAP_INITIAL_SIZE = 16"
definition LEFT_CHILD_IDX :: "nat \<Rightarrow> nat" where "LEFT_CHILD_IDX i = 2 * i"
definition RIGHT_CHILD_IDX :: "nat \<Rightarrow> nat" where "RIGHT_CHILD_IDX i = 2 * i + 1"
definition PARENT_IDX :: "nat \<Rightarrow> nat" where "PARENT_IDX i = i div 2"

lemmas idx_defs = LEFT_CHILD_IDX_def RIGHT_CHILD_IDX_def PARENT_IDX_def

section \<open>Operations\<close>

definition tmq_timer_new :: "int \<Rightarrow> int \<Rightarrow> bool \<Rightarrow> nat \<Rightarrow> timer option" where
  "tmq_timer_new now timeout rep cb =
     (if timeout < 0 then None
      else Some \<lparr>expire = now + timeout, timeout_us = timeout, t_cb = cb, repeat = rep, canceled = False, t_id = (0, 0)\<rparr>)"

definition timerfd_set_timeout :: "int \<Rightarrow> int \<Rightarrow> timer_heap \<Rightarrow> timer_heap" where
  "timerfd_set_timeout now when h = h\<lparr>timerfd := Some (if when - now < 100 then 100 else when - now)\<rparr>"

definition tmq_timer_heap_init :: "(nat \<Rightarrow> addr) \<Rightarrow> (addr \<Rightarrow> timer) \<Rightarrow> timer_heap" where
  "tmq_timer_heap_init garbage ts =
     \<lparr>harr = garbage, hsize = 0, hcap = TIMER_HEAP_INITIAL_SIZE,
      hbytes = 8 * TIMER_HEAP_INITIAL_SIZE + 1, registered = [], timer_at = ts, timerfd = None\<rparr>"

text \<open>
  \<open>swim key a x i\<close>: the loop of \<^verbatim>\<open>timer_swim\<close> on the array \<open>a\<close>, where \<open>x\<close> is the timer and \<open>i\<close> the hole;
  \<open>sink\<close> likewise. (Index 0, where \<open>sink\<close> would not end, is never used.)
\<close>

function swim :: "(addr \<Rightarrow> int) \<Rightarrow> (nat \<Rightarrow> addr) \<Rightarrow> addr \<Rightarrow> nat \<Rightarrow> nat \<Rightarrow> addr" where
  "swim key a x i =
     (let p = PARENT_IDX i
      in if p > 0 \<and> key x < key (a p) then swim key (a(i := a p)) x p else a(i := x))"
  by pat_completeness auto
termination by (relation "measure (\<lambda>(key, a, x, i). i)") (auto simp: idx_defs)

function sink :: "(addr \<Rightarrow> int) \<Rightarrow> nat \<Rightarrow> (nat \<Rightarrow> addr) \<Rightarrow> addr \<Rightarrow> nat \<Rightarrow> nat \<Rightarrow> addr" where
  "sink key n a x i =
     (if i > 0 \<and> LEFT_CHILD_IDX i \<le> n then
        let right = RIGHT_CHILD_IDX i;
            child = (if right \<le> n \<and> key (a right) < key (a (LEFT_CHILD_IDX i)) then right else LEFT_CHILD_IDX i)
        in if key (a child) < key x then sink key n (a(i := a child)) x child else a(i := x)
      else a(i := x))"
  by pat_completeness auto
termination by (relation "measure (\<lambda>(key, n, a, x, i). n - i)") (auto simp: idx_defs)

declare swim.simps [simp del] sink.simps [simp del]

abbreviation expire_of :: "timer_heap \<Rightarrow> addr \<Rightarrow> int" where
  "expire_of h a \<equiv> expire (timer_at h a)"

definition timer_swim :: "timer_heap \<Rightarrow> nat \<Rightarrow> timer_heap" where
  "timer_swim h i = h\<lparr>harr := swim (expire_of h) (harr h) (harr h i) i\<rparr>"

definition timer_sink :: "timer_heap \<Rightarrow> nat \<Rightarrow> timer_heap" where
  "timer_sink h i = (if hsize h = 0 then h else h\<lparr>harr := sink (expire_of h) (hsize h) (harr h) (harr h i) i\<rparr>)"

text \<open>
  A full array is reallocated with \<^verbatim>\<open>cap * 2 + 1\<close> bytes, not elements. The result tells whether the top
  changed.
\<close>

definition timer_heap_insert :: "timer_heap \<Rightarrow> addr \<Rightarrow> (bool \<times> timer_heap) res" where
  "timer_heap_insert h x =
     (let h1 = (if hsize h = hcap h then h\<lparr>hbytes := hcap h * 2 + 1, hcap := hcap h * 2\<rparr> else h);
          ori_top = (if hsize h1 > 0 then Some (harr h1 1) else None);
          i = hsize h1 + 1
      in if 8 * (i + 1) > hbytes h1 then Inl Out_Of_Bounds
         else let h2 = timer_swim (h1\<lparr>hsize := i, harr := (harr h1)(i := x)\<rparr>) i
              in Inr (Some (harr h2 1) \<noteq> ori_top, h2))"

text \<open>The clock is read when the descriptor is armed (\<open>now\<close>) and again for the identifier (\<open>now'\<close>).\<close>

definition tmq_timer_heap_add :: "int \<Rightarrow> int \<Rightarrow> timer_heap \<Rightarrow> addr \<Rightarrow> (timer_id \<times> timer_heap) res" where
  "tmq_timer_heap_add now now' h x =
     bind (timer_heap_insert h x) (\<lambda>(changed, h1).
       let h2 = (if changed then timerfd_set_timeout now (expire_of h1 (harr h1 1)) h1 else h1);
           i = (int x, now')
       in Inr (i, h2\<lparr>timer_at := (timer_at h2)(x := (timer_at h2 x)\<lparr>t_id := i\<rparr>),
                    registered := al_put (registered h2) i x\<rparr>))"

definition timer_heap_pop :: "timer_heap \<Rightarrow> addr option \<times> timer_heap" where
  "timer_heap_pop h =
     (if hsize h < 1 then (None, h)
      else
        let top = harr h 1;
            h1 = h\<lparr>harr := (harr h)(1 := harr h (hsize h)), hsize := hsize h - 1\<rparr>
        in (Some top, if hsize h1 > 1 then timer_sink h1 1 else h1))"

definition tmq_cancel_timer :: "timer_id \<Rightarrow> timer_heap \<Rightarrow> timer_heap" where
  "tmq_cancel_timer i h =
     (case map_of (registered h) i of
        None \<Rightarrow> h
      | Some a \<Rightarrow> h\<lparr>timer_at := (timer_at h)(a := (timer_at h a)\<lparr>canceled := True\<rparr>)\<rparr>)"

definition tmq_resume_timer :: "timer_id \<Rightarrow> timer_heap \<Rightarrow> int \<times> timer_heap" where
  "tmq_resume_timer i h =
     (case map_of (registered h) i of
        None \<Rightarrow> (-1, h)
      | Some a \<Rightarrow> (0, h\<lparr>timer_at := (timer_at h)(a := (timer_at h a)\<lparr>canceled := False\<rparr>)\<rparr>))"

section \<open>The timeout handler\<close>

lemma hsize_pop: "hsize (snd (timer_heap_pop h)) = hsize h - 1"
  by (simp add: timer_heap_pop_def timer_sink_def Let_def)

function pop_expired :: "int \<Rightarrow> timer_heap \<Rightarrow> addr list \<times> timer_heap" where
  "pop_expired now h =
     (if hsize h = 0 then ([], h)
      else if expire_of h (harr h 1) \<le> now
      then (let (xs, h') = pop_expired now (snd (timer_heap_pop h)) in (harr h 1 # xs, h'))
      else ([], h))"
  by pat_completeness auto
termination by (relation "measure (\<lambda>(now, h). hsize h)") (auto simp: hsize_pop)

declare pop_expired.simps [simp del]

fun run_expired :: "(nat \<Rightarrow> timer_heap \<Rightarrow> timer_heap) \<Rightarrow> addr list \<Rightarrow> timer_heap \<Rightarrow> nat list \<times> timer_heap" where
  "run_expired call [] h = ([], h)"
| "run_expired call (a # as) h =
     (if canceled (timer_at h a) then run_expired call as h
      else let (cs, h') = run_expired call as (call (t_cb (timer_at h a)) h)
           in (t_cb (timer_at h a) # cs, h'))"

fun finish_expired :: "int \<Rightarrow> addr list \<Rightarrow> timer_heap \<Rightarrow> timer_heap res" where
  "finish_expired now [] h = Inr h"
| "finish_expired now (a # as) h =
     (let t = timer_at h a
      in if repeat t \<and> \<not> canceled t
         then bind (timer_heap_insert (h\<lparr>timer_at := (timer_at h)(a := t\<lparr>expire := now + timeout_us t\<rparr>)\<rparr>) a)
                (\<lambda>(_, h'). finish_expired now as h')
         else finish_expired now as (h\<lparr>registered := al_erase (registered h) (t_id t)\<rparr>))"

text \<open>\<open>now\<close> is read at the start, \<open>now'\<close> when the timer descriptor is set again.\<close>

definition timer_heap_timeout :: "(nat \<Rightarrow> timer_heap \<Rightarrow> timer_heap) \<Rightarrow> int \<Rightarrow> int \<Rightarrow> timer_heap \<Rightarrow>
    (nat list \<times> timer_heap) res" where
  "timer_heap_timeout call now now' h =
     (if hsize h < 1 then Inr ([], h)
      else
        let (xs, h1) = pop_expired now h;
            (cs, h2) = run_expired call xs h1
        in bind (finish_expired now xs h2) (\<lambda>h3.
             Inr (cs, if hsize h3 > 0 then timerfd_set_timeout now' (expire_of h3 (harr h3 1)) h3 else h3)))"

section \<open>The array is a heap\<close>

definition heap_on :: "(addr \<Rightarrow> int) \<Rightarrow> nat \<Rightarrow> (nat \<Rightarrow> addr) \<Rightarrow> bool" where
  "heap_on key n a \<longleftrightarrow> (\<forall>i. 2 \<le> i \<and> i \<le> n \<longrightarrow> key (a (i div 2)) \<le> key (a i))"

definition elems :: "nat \<Rightarrow> (nat \<Rightarrow> addr) \<Rightarrow> addr multiset" where
  "elems n a = image_mset a (mset_set {1..n})"

lemma elems_Suc: "elems (Suc n) a = add_mset (a (Suc n)) (elems n a)"
proof -
  have "{1..Suc n} = insert (Suc n) {1..n}" by auto
  then show ?thesis by (simp add: elems_def)
qed

lemma elems_cong: "(\<And>i. 1 \<le> i \<Longrightarrow> i \<le> n \<Longrightarrow> a i = b i) \<Longrightarrow> elems n a = elems n b"
  by (auto simp: elems_def intro: image_mset_cong)

lemma set_elems: "set_mset (elems n a) = a ` {1..n}"
  by (simp add: elems_def)

lemma elems_swap:
  assumes "1 \<le> i" "i \<le> n" "1 \<le> j" "j \<le> n"
  shows "elems n (a(i := a j, j := a i)) = elems n a"
proof -
  let ?t = "\<lambda>k. if k = i then j else if k = j then i else k"
  have "inj_on ?t {1..n}" by (auto simp: inj_on_def)
  moreover have "?t ` {1..n} = {1..n}"
  proof
    show "{1..n} \<subseteq> ?t ` {1..n}"
    proof
      fix k assume "k \<in> {1..n}"
      then show "k \<in> ?t ` {1..n}" using assms by (intro image_eqI [of _ _ "?t k"]) auto
    qed
  qed (use assms in auto)
  ultimately have "image_mset ?t (mset_set {1..n}) = mset_set {1..n}" by (simp add: image_mset_mset_set)
  then have "elems n a = image_mset a (image_mset ?t (mset_set {1..n}))" by (simp add: elems_def)
  also have "\<dots> = elems n (a \<circ> ?t)" by (simp add: elems_def multiset.map_comp)
  also have "a \<circ> ?t = a(i := a j, j := a i)" by (auto simp: fun_eq_iff)
  finally show ?thesis by (rule sym)
qed

definition child :: "(addr \<Rightarrow> int) \<Rightarrow> nat \<Rightarrow> (nat \<Rightarrow> addr) \<Rightarrow> nat \<Rightarrow> nat" where
  "child key n a i = (if 2 * i + 1 \<le> n \<and> key (a (2 * i + 1)) < key (a (2 * i)) then 2 * i + 1 else 2 * i)"

lemma swim_eq:
  "swim key a x i =
     (if 0 < i div 2 \<and> key x < key (a (i div 2)) then swim key (a(i := a (i div 2))) x (i div 2) else a(i := x))"
  by (subst swim.simps) (simp only: idx_defs Let_def)

lemma sink_eq:
  "sink key n a x i =
     (if 0 < i \<and> 2 * i \<le> n \<and> key (a (child key n a i)) < key x
      then sink key n (a(i := a (child key n a i))) x (child key n a i) else a(i := x))"
  unfolding sink.simps [of key n a x i] idx_defs Let_def child_def [symmetric] by simp

lemma child_div: "child key n a i div 2 = i" "2 * i \<le> n \<Longrightarrow> child key n a i \<le> n" "0 < i \<Longrightarrow> i < child key n a i"
  by (auto simp: child_def)

lemma child_min: "j div 2 = i \<Longrightarrow> j \<le> n \<Longrightarrow> key (a (child key n a i)) \<le> key (a j)"
proof -
  assume "j div 2 = i" "j \<le> n"
  then have "j = 2 * i \<or> j = 2 * i + 1 \<and> 2 * i + 1 \<le> n" by linarith
  then show ?thesis by (auto simp: child_def)
qed

lemma swim_correct:
  assumes "1 \<le> i" "i \<le> n"
    and "\<And>j. 2 \<le> j \<Longrightarrow> j \<le> n \<Longrightarrow> j \<noteq> i \<Longrightarrow> key ((a(i := x)) (j div 2)) \<le> key ((a(i := x)) j)"
    and "\<And>j. 2 \<le> j \<Longrightarrow> j \<le> n \<Longrightarrow> j div 2 = i \<Longrightarrow> 0 < i div 2 \<Longrightarrow> key (a (i div 2)) \<le> key (a j)"
  shows "heap_on key n (swim key a x i) \<and> elems n (swim key a x i) = elems n (a(i := x))"
  using assms
proof (induction key a x i rule: swim.induct)
  case (1 key a x i)
  let ?p = "i div 2" and ?b = "a(i := x)"
  note le = "1.prems"(3) and gp = "1.prems"(4)
  show ?case
  proof (cases "?p > 0 \<and> key x < key (a ?p)")
    case False
    have "key (?b (j div 2)) \<le> key (?b j)" if "2 \<le> j" "j \<le> n" for j
      using False le [OF that] that by (cases "j = i") (auto simp: div_le_dividend)
    moreover have "swim key a x i = ?b" using False by (subst swim_eq) auto
    ultimately show ?thesis by (simp add: heap_on_def)
  next
    case True
    then have p: "?p > 0" "key x < key (a ?p)" "?p \<noteq> i" "1 \<le> ?p" "?p \<le> n" using "1.prems"(1,2) by auto
    let ?a = "a(i := a ?p)"
    have 3: "key ((?a(?p := x)) (j div 2)) \<le> key ((?a(?p := x)) j)" if j: "2 \<le> j" "j \<le> n" "j \<noteq> ?p" for j
    proof -
      consider "j = i" | "j \<noteq> i" "j div 2 = i" | "j \<noteq> i" "j div 2 = ?p" | "j \<noteq> i" "j div 2 \<noteq> i" "j div 2 \<noteq> ?p" by blast
      then show ?thesis
      proof cases
        case 1
        then show ?thesis using p by auto
      next
        case 2
        then show ?thesis using gp [OF j(1,2) 2(2) p(1)] p j(3) by auto
      next
        case 3
        then show ?thesis using le [OF j(1,2) 3(1)] p j(3) by auto
      next
        case 4
        then show ?thesis using le [OF j(1,2) 4(1)] j(3) by auto
      qed
    qed
    have 4: "key (?a (?p div 2)) \<le> key (?a j)" if j: "2 \<le> j" "j \<le> n" "j div 2 = ?p" "0 < ?p div 2" for j
    proof -
      have ne: "?p div 2 \<noteq> i" using p by (metis div_le_dividend le_antisym)
      have "2 \<le> ?p" using j(4) by linarith
      then have pp: "key (a (?p div 2)) \<le> key (a ?p)" using le [of ?p] p ne by simp
      show ?thesis using pp ne le [OF j(1,2)] j(3) p(3) by (cases "j = i") auto
    qed
    have "elems n (?a(?p := x)) = elems n ?b"
      using elems_swap [of i n ?p ?b] "1.prems"(1,2) p by (simp add: fun_upd_twist)
    moreover have "swim key a x i = swim key ?a x ?p" using True by (subst swim_eq) simp
    moreover have "heap_on key n (swim key ?a x ?p) \<and> elems n (swim key ?a x ?p) = elems n (?a(?p := x))"
    proof (rule "1.IH" [OF _ _ p(4,5) 3 4])
      show "?p = PARENT_IDX i" by (simp add: idx_defs)
      show "0 < ?p \<and> key x < key (a ?p)" by (rule True)
    qed
    ultimately show ?thesis by (simp only:)
  qed
qed

lemma sink_correct:
  assumes "1 \<le> i" "i \<le> n"
    and "\<And>j. 2 \<le> j \<Longrightarrow> j \<le> n \<Longrightarrow> j div 2 \<noteq> i \<Longrightarrow> key ((a(i := x)) (j div 2)) \<le> key ((a(i := x)) j)"
    and "\<And>j. 2 \<le> j \<Longrightarrow> j \<le> n \<Longrightarrow> j div 2 = i \<Longrightarrow> 0 < i div 2 \<Longrightarrow> key (a (i div 2)) \<le> key (a j)"
  shows "heap_on key n (sink key n a x i) \<and> elems n (sink key n a x i) = elems n (a(i := x))"
  using assms
proof (induction key n a x i rule: sink.induct)
  case (1 key n a x i)
  let ?b = "a(i := x)"
  define c where "c = child key n a i"
  note le = "1.prems"(3) and gp = "1.prems"(4)
  have i: "0 < i" using "1.prems"(1) by simp
  show ?case
  proof (cases "2 * i \<le> n \<and> key (a c) < key x")
    case False
    have "key (?b (j div 2)) \<le> key (?b j)" if j: "2 \<le> j" "j \<le> n" for j
    proof (cases "j div 2 = i")
      case True
      then have "2 * i \<le> n" "j \<noteq> i" using j i by linarith+
      then show ?thesis using False child_min [OF True j(2), of key a] True by (auto simp: c_def)
    qed (use le j in blast)
    moreover have "sink key n a x i = ?b" using False i by (subst sink_eq) (auto simp: c_def)
    ultimately show ?thesis by (simp add: heap_on_def)
  next
    case True
    let ?a = "a(i := a c)"
    have c: "c div 2 = i" "c \<noteq> i" "1 \<le> c" "c \<le> n" "2 \<le> c" using i True child_div [where key = key and a = a and n = n and i = i]
      by (auto simp: c_def)
    have 3: "key ((?a(c := x)) (j div 2)) \<le> key ((?a(c := x)) j)" if j: "2 \<le> j" "j \<le> n" "j div 2 \<noteq> c" for j
    proof -
      consider "j = c" | "j \<noteq> c" "j div 2 = i" | "j \<noteq> c" "j = i" | "j \<noteq> c" "j div 2 \<noteq> i" "j \<noteq> i" by blast
      then show ?thesis
      proof cases
        case 1
        then show ?thesis using True c by simp
      next
        case 2
        then have "j \<noteq> i" using i by linarith
        then show ?thesis using child_min [OF 2(2) j(2), of key a] c(2) 2 by (simp add: c_def)
      next
        case 3
        have "key (a (i div 2)) \<le> key (a c)" using gp [OF c(5,4,1)] j(1) 3 by simp
        moreover have "i div 2 \<noteq> i" using i by linarith
        ultimately show ?thesis using c(2) j(3) 3 by simp
      next
        case 4
        then show ?thesis using le [OF j(1,2) 4(2)] j(3) by simp
      qed
    qed
    have 4: "key (?a (c div 2)) \<le> key (?a j)" if j: "2 \<le> j" "j \<le> n" "j div 2 = c" for j
    proof -
      have "j \<noteq> i" using j(3) c(1) i by (metis div_le_dividend le_antisym c(2))
      then show ?thesis using le [OF j(1,2)] j(3) c(1,2) by simp
    qed
    have "elems n (?a(c := x)) = elems n ?b"
      using elems_swap [of i n c ?b] "1.prems"(1,2) c by (simp add: fun_upd_twist)
    moreover have "sink key n a x i = sink key n ?a x c"
      using True i by (subst sink_eq) (simp add: c_def)
    moreover have "heap_on key n (sink key n ?a x c) \<and> elems n (sink key n ?a x c) = elems n (?a(c := x))"
    proof (rule "1.IH" [OF _ refl _ _ c(3,4) 3])
      show "0 < i \<and> LEFT_CHILD_IDX i \<le> n" using i True by (simp add: idx_defs)
      show "c = (if RIGHT_CHILD_IDX i \<le> n \<and> key (a (RIGHT_CHILD_IDX i)) < key (a (LEFT_CHILD_IDX i))
          then RIGHT_CHILD_IDX i else LEFT_CHILD_IDX i)"
        by (simp only: c_def child_def idx_defs)
      show "key (a c) < key x" using True by simp
      show "key (?a (c div 2)) \<le> key (?a j)" if "2 \<le> j" "j \<le> n" "j div 2 = c" for j by (rule 4 [OF that])
    qed
    ultimately show ?thesis by (simp only:)
  qed
qed

section \<open>The interface of a queue ordered by expiry\<close>

fun pops :: "('q \<Rightarrow> 'e) \<Rightarrow> ('q \<Rightarrow> 'q) \<Rightarrow> nat \<Rightarrow> 'q \<Rightarrow> 'e list \<times> 'q" where
  "pops first pop 0 q = ([], q)"
| "pops first pop (Suc k) q = (let (xs, q') = pops first pop k (pop q) in (first q # xs, q'))"

locale min_queue =
  fixes contents :: "'q \<Rightarrow> 'e multiset"
    and key :: "'q \<Rightarrow> 'e \<Rightarrow> int"
    and invar :: "'q \<Rightarrow> bool"
    and room :: "'q \<Rightarrow> bool"
    and insert :: "'q \<Rightarrow> 'e \<Rightarrow> 'q"
    and first :: "'q \<Rightarrow> 'e"
    and pop :: "'q \<Rightarrow> 'q"
  assumes insert_contents: "invar q \<Longrightarrow> room q \<Longrightarrow> contents (insert q x) = add_mset x (contents q)"
    and insert_invar: "invar q \<Longrightarrow> room q \<Longrightarrow> invar (insert q x)"
    and insert_key: "key (insert q x) = key q"
    and pop_contents: "invar q \<Longrightarrow> contents q \<noteq> {#} \<Longrightarrow> contents q = add_mset (first q) (contents (pop q))"
    and pop_invar: "invar q \<Longrightarrow> contents q \<noteq> {#} \<Longrightarrow> invar (pop q)"
    and pop_key: "key (pop q) = key q"
    and first_min: "invar q \<Longrightarrow> x \<in># contents q \<Longrightarrow> key q (first q) \<le> key q x"
begin

lemma first_in: "invar q \<Longrightarrow> contents q \<noteq> {#} \<Longrightarrow> first q \<in># contents q"
  using pop_contents by (metis union_single_eq_member)

text \<open>Repeated removal returns the elements in order of their keys, before all that remain.\<close>

lemma pops_sorted:
  "invar q \<Longrightarrow> k \<le> size (contents q) \<Longrightarrow> pops first pop k q = (xs, q') \<Longrightarrow>
   sorted (map (key q) xs) \<and> contents q = mset xs + contents q' \<and> invar q' \<and> key q' = key q \<and>
   (\<forall>x\<in>set xs. \<forall>y\<in>#contents q'. key q x \<le> key q y)"
proof (induction k arbitrary: q xs)
  case (Suc k)
  have ne: "contents q \<noteq> {#}" using Suc.prems(2) by auto
  obtain ys where ys: "pops first pop k (pop q) = (ys, q')" "xs = first q # ys"
    using Suc.prems(3) by (auto split: prod.splits)
  have c: "contents q = add_mset (first q) (contents (pop q))" by (rule pop_contents [OF Suc.prems(1) ne])
  then have "k \<le> size (contents (pop q))" using Suc.prems(2) by simp
  note IH = Suc.IH [OF pop_invar [OF Suc.prems(1) ne] this ys(1)]
  have "contents (pop q) = mset ys + contents q'" using IH by blast
  then have "\<forall>y\<in>set ys \<union> set_mset (contents q'). key q (first q) \<le> key q y"
    using c first_min [OF Suc.prems(1)] by auto
  then show ?case using IH ys(2) c by (auto simp: pop_key)
qed simp

end

section \<open>The heap provides it\<close>

definition heap_ok :: "timer_heap \<Rightarrow> bool" where
  "heap_ok h \<longleftrightarrow> heap_on (expire_of h) (hsize h) (harr h)"

definition contents :: "timer_heap \<Rightarrow> addr multiset" where
  "contents h = elems (hsize h) (harr h)"

definition room :: "timer_heap \<Rightarrow> bool" where
  "room h \<longleftrightarrow> hsize h \<noteq> hcap h \<and> 8 * (hsize h + 2) \<le> hbytes h"

definition first :: "timer_heap \<Rightarrow> addr" where
  "first h = harr h 1"

definition pop :: "timer_heap \<Rightarrow> timer_heap" where
  "pop h = snd (timer_heap_pop h)"

definition inserted :: "timer_heap \<Rightarrow> addr \<Rightarrow> timer_heap" where
  "inserted h x = timer_swim (h\<lparr>hsize := hsize h + 1, harr := (harr h)(hsize h + 1 := x)\<rparr>) (hsize h + 1)"

lemma size_contents: "size (contents h) = hsize h"
  by (simp add: contents_def elems_def)

lemma insert_room:
  "room h \<Longrightarrow> timer_heap_insert h x =
     Inr (hsize h = 0 \<or> harr (inserted h x) 1 \<noteq> harr h 1, inserted h x)"
  by (auto simp: timer_heap_insert_def room_def inserted_def Let_def)

lemma inserted_ok:
  assumes "heap_ok h"
  shows "heap_ok (inserted h x)" and "contents (inserted h x) = add_mset x (contents h)"
proof -
  let ?i = "hsize h + 1" and ?a = "(harr h)(hsize h + 1 := x)"
  have s: "heap_on (expire_of h) ?i (swim (expire_of h) ?a x ?i) \<and>
      elems ?i (swim (expire_of h) ?a x ?i) = elems ?i (?a(?i := x))"
  proof (rule swim_correct)
    fix j :: nat assume j: "2 \<le> j" "j \<le> ?i" "j \<noteq> ?i"
    then have "j div 2 \<noteq> ?i" by linarith
    then show "expire_of h ((?a(?i := x)) (j div 2)) \<le> expire_of h ((?a(?i := x)) j)"
      using assms j by (simp add: heap_ok_def heap_on_def)
  next
    fix j :: nat assume "2 \<le> j" "j \<le> ?i" "j div 2 = ?i"
    then show "expire_of h (?a (?i div 2)) \<le> expire_of h (?a j)" by linarith
  qed auto
  then show "heap_ok (inserted h x)" by (simp add: heap_ok_def inserted_def timer_swim_def)
  have "elems (hsize h) ?a = elems (hsize h) (harr h)" by (rule elems_cong) auto
  then show "contents (inserted h x) = add_mset x (contents h)"
    using s by (simp add: contents_def inserted_def timer_swim_def elems_Suc)
qed

lemma heap_root:
  assumes "heap_on key n a" and "1 \<le> i" and "i \<le> n"
  shows "key (a 1) \<le> key (a i)"
  using assms(2,3)
proof (induction i rule: less_induct)
  case (less i)
  show ?case
  proof (cases "i = 1")
    case False
    then have "key (a 1) \<le> key (a (i div 2))" using less.IH [of "i div 2"] less.prems by linarith
    moreover have "key (a (i div 2)) \<le> key (a i)" using assms(1) less.prems False by (simp add: heap_on_def)
    ultimately show ?thesis by linarith
  qed simp
qed

lemma pop_eq:
  "hsize h > 0 \<Longrightarrow> pop h =
     (let h1 = h\<lparr>harr := (harr h)(1 := harr h (hsize h)), hsize := hsize h - 1\<rparr>
      in if hsize h1 > 1 then timer_sink h1 1 else h1)"
  by (simp add: pop_def timer_heap_pop_def Let_def)

lemma pop_ok:
  assumes "heap_ok h" and "hsize h > 0"
  shows "heap_ok (pop h)" and "contents h = add_mset (first h) (contents (pop h))"
proof -
  obtain n where n: "hsize h = Suc n" using assms(2) by (cases "hsize h") auto
  let ?a = "harr h" and ?k = "expire_of h"
  let ?b = "?a(1 := ?a (Suc n))"
  have hp: "heap_on ?k (Suc n) ?a" using assms(1) n by (simp add: heap_ok_def)
  have "heap_on ?k n (harr (pop h)) \<and> elems n (harr (pop h)) = elems n ?b"
  proof (cases "n > 1")
    case True
    have "heap_on ?k n (sink ?k n ?b (?b 1) 1) \<and> elems n (sink ?k n ?b (?b 1) 1) = elems n (?b(1 := ?b 1))"
    proof (rule sink_correct)
      fix j :: nat assume j: "2 \<le> j" "j \<le> n" "j div 2 \<noteq> 1"
      then show "?k ((?b(1 := ?b 1)) (j div 2)) \<le> ?k ((?b(1 := ?b 1)) j)"
        using hp by (simp add: heap_on_def)
    qed (use True in auto)
    then show ?thesis using True n by (simp add: pop_eq timer_sink_def)
  qed (use n in \<open>auto simp: pop_eq heap_on_def\<close>)
  moreover have "hsize (pop h) = n" "expire_of (pop h) = ?k"
    using n by (simp_all add: pop_eq Let_def timer_sink_def)
  ultimately have p: "heap_ok (pop h)" "contents (pop h) = elems n ?b" by (simp_all add: heap_ok_def contents_def)
  then show "heap_ok (pop h)" by blast
  have "elems (Suc n) (?a(1 := ?a (Suc n), Suc n := ?a 1)) = elems (Suc n) ?a" by (rule elems_swap) auto
  moreover have "elems n (?a(1 := ?a (Suc n), Suc n := ?a 1)) = elems n ?b" by (rule elems_cong) auto
  ultimately have "elems (Suc n) ?a = add_mset (?a 1) (elems n ?b)" by (simp add: elems_Suc)
  then show "contents h = add_mset (first h) (contents (pop h))"
    using p(2) n by (simp add: contents_def first_def)
qed

lemma keys_unchanged [simp]:
  "timer_at (inserted h x) = timer_at h" "timer_at (pop h) = timer_at h"
  "registered (inserted h x) = registered h" "registered (pop h) = registered h"
  by (simp_all add: inserted_def timer_swim_def pop_def timer_heap_pop_def timer_sink_def Let_def)

interpretation tq: min_queue contents expire_of heap_ok room inserted first pop
proof unfold_locales
  fix h :: timer_heap and x
  assume "heap_ok h" "x \<in># contents h"
  then show "expire_of h (first h) \<le> expire_of h x"
    using heap_root by (fastforce simp: heap_ok_def contents_def set_elems first_def)
next
  fix h :: timer_heap
  assume h: "heap_ok h" "contents h \<noteq> {#}"
  then have "hsize h > 0" by (auto simp: contents_def elems_def)
  then show "contents h = add_mset (first h) (contents (pop h))" "heap_ok (pop h)" using pop_ok h(1) by auto
qed (simp_all add: inserted_ok)

section \<open>Expired timers\<close>

lemma pop_expired_eq:
  "pop_expired now h =
     (if hsize h = 0 then ([], h)
      else if expire_of h (first h) \<le> now
      then (let (xs, h') = pop_expired now (pop h) in (first h # xs, h'))
      else ([], h))"
  by (subst pop_expired.simps) (simp only: first_def pop_def)

lemma pop_expired_pops:
  "heap_ok h \<Longrightarrow> pop_expired now h = (xs, h') \<Longrightarrow>
   \<exists>k\<le>hsize h. pops first pop k h = (xs, h') \<and> (\<forall>x\<in>set xs. expire_of h x \<le> now) \<and>
     (hsize h' > 0 \<longrightarrow> now < expire_of h' (first h'))"
proof (induction "hsize h" arbitrary: h xs)
  case 0
  then show ?case by (subst (asm) pop_expired_eq) (auto intro!: exI [of _ 0])
next
  case (Suc n)
  show ?case
  proof (cases "expire_of h (first h) \<le> now")
    case True
    obtain ys where ys: "pop_expired now (pop h) = (ys, h')" "xs = first h # ys"
      using Suc.prems(2) Suc.hyps(2) True by (subst (asm) pop_expired_eq) (auto split: prod.splits)
    have s: "n = hsize (pop h)" using Suc.hyps(2) hsize_pop [of h] by (simp add: pop_def)
    have "heap_ok (pop h)" using pop_ok(1) [OF Suc.prems(1)] Suc.hyps(2) by simp
    then obtain k where "k \<le> n" "pops first pop k (pop h) = (ys, h')" "\<forall>x\<in>set ys. expire_of h x \<le> now"
        "hsize h' > 0 \<longrightarrow> now < expire_of h' (first h')"
      using Suc.hyps(1) [OF s _ ys(1)] s by auto
    then show ?thesis using ys(2) True Suc.hyps(2) by (intro exI [of _ "Suc k"]) auto
  next
    case False
    then have "xs = []" "h' = h" using Suc.prems(2) Suc.hyps(2) by (subst (asm) pop_expired_eq; simp)+
    then show ?thesis using False by (intro exI [of _ 0]) simp
  qed
qed

lemma pop_array [simp]: "hcap (pop h) = hcap h" "hbytes (pop h) = hbytes h"
  by (simp_all add: pop_def timer_heap_pop_def timer_sink_def Let_def)

lemma pops_array:
  "pops first pop k h = (xs, h') \<Longrightarrow> hcap h' = hcap h \<and> hbytes h' = hbytes h \<and> timer_at h' = timer_at h \<and>
     registered h' = registered h \<and> length xs = k"
  by (induction k arbitrary: h xs) (auto split: prod.splits)

lemma pop_expired_spec:
  assumes "heap_ok h" and "pop_expired now h = (xs, h')"
  shows "sorted (map (expire_of h) xs)" and "mset xs = filter_mset (\<lambda>a. expire_of h a \<le> now) (contents h)"
    and "contents h' = filter_mset (\<lambda>a. now < expire_of h a) (contents h)" and "heap_ok h'"
    and "hcap h' = hcap h" "hbytes h' = hbytes h" "timer_at h' = timer_at h" "hsize h' + length xs = hsize h"
proof -
  obtain k where k: "k \<le> hsize h" "pops first pop k h = (xs, h')" "\<forall>x\<in>set xs. expire_of h x \<le> now"
      "hsize h' > 0 \<longrightarrow> now < expire_of h' (first h')"
    using pop_expired_pops [OF assms] by (elim exE conjE) (rule that)
  have p: "sorted (map (expire_of h) xs)" "contents h = mset xs + contents h'" "heap_ok h'"
    using tq.pops_sorted [OF assms(1) _ k(2)] k(1) by (auto simp: size_contents)
  note a = pops_array [OF k(2)]
  have later: "now < expire_of h y" if "y \<in># contents h'" for y
  proof -
    have "hsize h' > 0" using that by (auto simp: contents_def elems_def)
    moreover have "expire_of h' (first h') \<le> expire_of h' y" by (rule tq.first_min [OF p(3) that])
    ultimately show ?thesis using k(4) a by simp
  qed
  have "filter_mset (\<lambda>a. expire_of h a \<le> now) (mset xs) = mset xs"
    using k(3) by (simp add: filter_mset_eq_conv)
  moreover have "filter_mset (\<lambda>a. expire_of h a \<le> now) (contents h') = {#}"
    using later by (simp add: filter_mset_eq_mempty_iff not_le)
  moreover have "filter_mset (\<lambda>a. now < expire_of h a) (mset xs) = {#}"
    using k(3) by (simp add: filter_mset_eq_mempty_iff not_less)
  moreover have "filter_mset (\<lambda>a. now < expire_of h a) (contents h') = contents h'"
    using later by (simp add: filter_mset_eq_conv)
  ultimately show "mset xs = filter_mset (\<lambda>a. expire_of h a \<le> now) (contents h)"
      "contents h' = filter_mset (\<lambda>a. now < expire_of h a) (contents h)"
    using p(2) by simp_all
  show "sorted (map (expire_of h) xs)" "heap_ok h'" "hcap h' = hcap h" "hbytes h' = hbytes h" "timer_at h' = timer_at h"
    using p a by auto
  show "hsize h' + length xs = hsize h" using arg_cong [OF p(2), of size] by (simp add: size_contents)
qed

text \<open>The state of the timers: at most 15 of them, each in the heap once.\<close>

definition timer_inv :: "timer_heap \<Rightarrow> bool" where
  "timer_inv h \<longleftrightarrow> heap_ok h \<and> (\<forall>a. count (contents h) a \<le> 1) \<and> hcap h = 16 \<and> hbytes h = 129 \<and> hsize h \<le> 15"

lemma room_inv: "hcap h = 16 \<Longrightarrow> hbytes h = 129 \<Longrightarrow> hsize h < 15 \<Longrightarrow> room h"
  by (simp add: room_def)

lemma inserted_array [simp]:
  "hcap (inserted h x) = hcap h" "hbytes (inserted h x) = hbytes h" "hsize (inserted h x) = Suc (hsize h)"
  by (simp_all add: inserted_def timer_swim_def)

lemma heap_ok_cong:
  assumes "heap_ok h" and "\<And>a. a \<in># contents h \<Longrightarrow> expire (t a) = expire_of h a"
  shows "heap_ok (h\<lparr>timer_at := t\<rparr>)" and "contents (h\<lparr>timer_at := t\<rparr>) = contents h"
proof -
  have "harr h i \<in># contents h" if "1 \<le> i" "i \<le> hsize h" for i
    using that by (auto simp: contents_def set_elems)
  moreover have "1 \<le> i div 2" "i div 2 \<le> hsize h" if "2 \<le> i" "i \<le> hsize h" for i using that by linarith+
  ultimately show "heap_ok (h\<lparr>timer_at := t\<rparr>)"
    using assms by (auto simp: heap_ok_def heap_on_def)
  show "contents (h\<lparr>timer_at := t\<rparr>) = contents h" by (simp add: contents_def)
qed

definition again :: "timer_heap \<Rightarrow> addr \<Rightarrow> bool" where
  "again h a \<longleftrightarrow> repeat (timer_at h a) \<and> \<not> canceled (timer_at h a)"

lemma finish_expired_spec:
  assumes "heap_ok h" and "hcap h = 16" "hbytes h = 129" "hsize h + length as \<le> 15"
    and "distinct as" and "\<And>a. a \<in> set as \<Longrightarrow> a \<notin># contents h"
  shows "\<exists>h'. finish_expired now as h = Inr h' \<and> heap_ok h' \<and> hcap h' = 16 \<and> hbytes h' = 129 \<and>
    contents h' = contents h + mset (filter (again h) as) \<and>
    (\<forall>a. timer_at h' a = (if a \<in> set (filter (again h) as)
       then (timer_at h a)\<lparr>expire := now + timeout_us (timer_at h a)\<rparr> else timer_at h a))"
  using assms
proof (induction as arbitrary: h)
  case (Cons a as)
  let ?t = "timer_at h a"
  let ?h = "h\<lparr>timer_at := (timer_at h)(a := ?t\<lparr>expire := now + timeout_us ?t\<rparr>)\<rparr>"
  have a: "a \<notin># contents h" using Cons.prems(6) by simp
  show ?case
  proof (cases "again h a")
    case True
    have eq: "\<And>b. b \<in># contents h \<Longrightarrow> expire (((timer_at h)(a := ?t\<lparr>expire := now + timeout_us ?t\<rparr>)) b) = expire_of h b"
      using a by auto
    have h1: "heap_ok ?h" "contents ?h = contents h"
      subgoal by (rule heap_ok_cong(1) [OF Cons.prems(1) eq])
      subgoal by (rule heap_ok_cong(2) [OF Cons.prems(1) eq])
      done
    let ?h2 = "inserted ?h a"
    have r: "room ?h" using Cons.prems(2,3,4) by (simp add: room_def)
    have h2: "heap_ok ?h2" "contents ?h2 = add_mset a (contents h)"
      subgoal by (rule inserted_ok(1) [OF h1(1)])
      subgoal using inserted_ok(2) [OF h1(1), of a] h1(2) by (rule trans [OF _ arg_cong [of _ _ "add_mset a"]])
      done
    have ag: "again ?h2 b = again h b" if "b \<in> set as" for b
      using that Cons.prems(5) by (auto simp: again_def)
    have e: "finish_expired now (a # as) h = finish_expired now as ?h2"
      using True insert_room [OF r] by (simp add: again_def Let_def)
    obtain h' where h': "finish_expired now as ?h2 = Inr h'" "heap_ok h'" "hcap h' = 16" "hbytes h' = 129"
        "contents h' = contents ?h2 + mset (filter (again ?h2) as)"
        "\<forall>b. timer_at h' b = (if b \<in> set (filter (again ?h2) as)
           then (timer_at ?h2 b)\<lparr>expire := now + timeout_us (timer_at ?h2 b)\<rparr> else timer_at ?h2 b)"
      using Cons.IH [OF h2(1)] Cons.prems h2(2) by (fastforce simp: Let_def)
    have "filter (again ?h2) as = filter (again h) as" using ag by (intro filter_cong) auto
    then show ?thesis using e h' h2(2) True Cons.prems(5) by auto
  next
    case False
    let ?h2 = "h\<lparr>registered := al_erase (registered h) (t_id ?t)\<rparr>"
    have same: "heap_ok ?h2 = heap_ok h" "contents ?h2 = contents h" "again ?h2 = again h"
      by (auto simp: heap_ok_def contents_def again_def fun_eq_iff)
    have e: "finish_expired now (a # as) h = finish_expired now as ?h2"
      using False by (auto simp: again_def Let_def)
    show ?thesis using Cons.IH [of ?h2] Cons.prems e False same by auto
  qed
qed simp

lemma run_expired_id:
  assumes "\<And>c h. call c h = h"
  shows "run_expired call as h = (map (\<lambda>a. t_cb (timer_at h a)) (filter (\<lambda>a. \<not> canceled (timer_at h a)) as), h)"
  by (induction as) (simp_all add: assms Let_def)

lemma timerfd_contents [simp]: "contents (timerfd_set_timeout n w h) = contents h"
    "heap_ok (timerfd_set_timeout n w h) = heap_ok h" "timer_at (timerfd_set_timeout n w h) = timer_at h"
    "hcap (timerfd_set_timeout n w h) = hcap h" "hbytes (timerfd_set_timeout n w h) = hbytes h"
    "hsize (timerfd_set_timeout n w h) = hsize h" "harr (timerfd_set_timeout n w h) = harr h"
  by (simp_all add: timerfd_set_timeout_def contents_def heap_ok_def)


lemma same_array:
  assumes "hsize h' = hsize h" and "harr h' = harr h" and "\<And>a. expire_of h' a = expire_of h a"
  shows "heap_ok h' = heap_ok h" and "contents h' = contents h" and "first h' = first h"
  using assms by (simp_all add: heap_ok_def contents_def first_def)

text \<open>
  C29. A timer that is not in the heap yet can be added as long as there are fewer than 15: it becomes part of the heap,
  its identifier is registered, the order of the heap is kept, and the descriptor is armed for the first
  timer whenever that is a new one.
\<close>

theorem timer_heap_add_ok:
  assumes "timer_inv h" and "x \<notin># contents h" and "hsize h < 15"
  shows "\<exists>h'. tmq_timer_heap_add now now' h x = Inr ((int x, now'), h') \<and> timer_inv h' \<and>
    contents h' = add_mset x (contents h) \<and> (\<forall>a. expire_of h' a = expire_of h a) \<and>
    map_of (registered h') (int x, now') = Some x \<and>
    (hsize h = 0 \<or> first h' \<noteq> first h \<longrightarrow>
       timerfd h' = Some (max 100 (expire_of h (first h') - now)))"
proof -
  have r: "room h" using assms(1,3) by (simp add: timer_inv_def room_def)
  have ok: "heap_ok h" using assms(1) by (simp add: timer_inv_def)
  let ?h1 = "inserted h x" and ?i = "(int x, now')"
  let ?ch = "hsize h = 0 \<or> first ?h1 \<noteq> first h"
  define h2 where "h2 = (if ?ch then timerfd_set_timeout now (expire_of h (first ?h1)) ?h1 else ?h1)"
  define h' where "h' = h2\<lparr>timer_at := (timer_at h2)(x := (timer_at h2 x)\<lparr>t_id := ?i\<rparr>),
      registered := al_put (registered h2) ?i x\<rparr>"
  have add: "tmq_timer_heap_add now now' h x = Inr (?i, h')"
    by (simp add: tmq_timer_heap_add_def insert_room [OF r] Let_def h2_def h'_def first_def)
  have e: "hsize h' = hsize ?h1" "harr h' = harr ?h1" "\<And>a. expire_of h' a = expire_of ?h1 a"
      "hcap h' = 16" "hbytes h' = 129"
    using assms(1) by (simp_all add: h'_def h2_def timer_inv_def)
  note c = same_array [OF e(1-3)]
  have "timer_inv h'"
    using assms e inserted_ok [OF ok, of x] unfolding timer_inv_def c by (auto simp: not_in_iff)
  moreover have "contents h' = add_mset x (contents h)" using c inserted_ok [OF ok] by simp
  moreover have "?ch \<longrightarrow> timerfd h' = Some (max 100 (expire_of h (first h') - now))"
    unfolding c(3) by (simp add: h'_def h2_def timerfd_set_timeout_def max_def)
  moreover have "map_of (registered h') ?i = Some x" by (simp add: h'_def dict_laws)
  ultimately show ?thesis using add e(3) c(3) by simp
qed

text \<open>
  C11. A timeout calls the callbacks of exactly the expired timers that were not cancelled, in the order of
  their expiry; afterwards the heap has the timers that had not expired, unchanged, and the repeating ones, whose
  next expiry is their interval after the start of the handler. (The callbacks leave the timers as they are.)
\<close>

theorem timer_heap_timeout_ok:
  assumes "timer_inv h" and "\<And>c k. call c k = k"
  shows "\<exists>xs h'. timer_heap_timeout call now now' h =
      Inr (map (\<lambda>a. t_cb (timer_at h a)) (filter (\<lambda>a. \<not> canceled (timer_at h a)) xs), h') \<and>
    sorted (map (expire_of h) xs) \<and> mset xs = filter_mset (\<lambda>a. expire_of h a \<le> now) (contents h) \<and>
    timer_inv h' \<and>
    contents h' = filter_mset (\<lambda>a. now < expire_of h a \<or> again h a) (contents h) \<and>
    (\<forall>a. timer_at h' a = (if a \<in> set xs \<and> again h a
       then (timer_at h a)\<lparr>expire := now + timeout_us (timer_at h a)\<rparr> else timer_at h a))"
proof (cases "hsize h < 1")
  case True
  then have "contents h = {#}" using size_contents [of h] by simp
  then show ?thesis using True assms(1) by (auto simp: timer_heap_timeout_def intro!: exI [of _ "[]"])
next
  case False
  have inv: "heap_ok h" "\<And>a. count (contents h) a \<le> 1" "hcap h = 16" "hbytes h = 129" "hsize h \<le> 15"
    using assms(1) by (auto simp: timer_inv_def)
  obtain xs h1 where px: "pop_expired now h = (xs, h1)" by (cases "pop_expired now h")
  note p = pop_expired_spec [OF inv(1) px]
  have "count (mset xs) a \<le> 1" for a using inv(2) [of a] by (simp add: p(2))
  then have "count (mset xs) a = (if a \<in> set xs then 1 else 0)" for a
    using count_greater_zero_iff [of "mset xs" a] by (metis One_nat_def Suc_leI gr0I le_antisym set_mset_mset)
  then have dx: "distinct xs" by (simp add: distinct_count_atmost_1)
  have nx: "a \<notin># contents h1" if "a \<in> set xs" for a
    using that arg_cong [OF p(2), of set_mset] by (simp add: p(3))
  obtain h2 where f: "finish_expired now xs h1 = Inr h2" "heap_ok h2" "hcap h2 = 16" "hbytes h2 = 129"
      "contents h2 = contents h1 + mset (filter (again h1) xs)"
      "\<And>a. timer_at h2 a = (if a \<in> set (filter (again h1) xs)
         then (timer_at h1 a)\<lparr>expire := now + timeout_us (timer_at h1 a)\<rparr> else timer_at h1 a)"
    using finish_expired_spec [OF p(4) _ _ _ dx nx, of now] p(5,6,8) inv by auto
  let ?h = "if hsize h2 > 0 then timerfd_set_timeout now' (expire_of h2 (harr h2 1)) h2 else h2"
  have ag: "again h1 = again h" using p(7) by (simp add: again_def fun_eq_iff)
  have c: "contents h2 = filter_mset (\<lambda>a. now < expire_of h a \<or> again h a) (contents h)"
    by (simp add: f(5) ag p(2,3) mset_filter filter_filter_mset) (auto simp: multiset_eq_iff)
  have "hsize h2 \<le> 15"
    using size_filter_mset_lesseq [of _ "contents h"] inv(5) unfolding c size_contents [symmetric] by (metis order_trans)
  moreover have "count (contents h2) a \<le> 1" for a using inv(2) [of a] by (simp add: c)
  ultimately have "timer_inv ?h" using f(2-4) by (simp add: timer_inv_def)
  moreover have "timer_heap_timeout call now now' h =
      Inr (map (\<lambda>a. t_cb (timer_at h a)) (filter (\<lambda>a. \<not> canceled (timer_at h a)) xs), ?h)"
    using False px f(1) p(7) by (simp add: timer_heap_timeout_def Let_def run_expired_id [OF assms(2)])
  ultimately show ?thesis using p(1,2,7) c f(6) ag by (intro exI [of _ xs] exI [of _ ?h]) auto
qed


definition one_timer :: timer_heap where
  "one_timer = (tmq_timer_heap_init (\<lambda>_. 0)
     (\<lambda>_. \<lparr>expire = 5, timeout_us = 10, t_cb = 7, repeat = True, canceled = False, t_id = (0, 0)\<rparr>))\<lparr>hsize := 1\<rparr>"

lemma one_timer_inv: "timer_inv one_timer" "1 \<notin># contents one_timer" "hsize one_timer = 1"
  by (simp_all add: one_timer_def timer_inv_def heap_ok_def heap_on_def tmq_timer_heap_init_def
      TIMER_HEAP_INITIAL_SIZE_def contents_def elems_def)

theorem timer_heap_timeout_ok_witness:
  "timer_inv one_timer \<and>
   (\<exists>h'. timer_heap_timeout (\<lambda>c k. k) 5 6 one_timer = Inr ([7], h') \<and> contents h' = {#0#} \<and> expire_of h' 0 = 15)"
proof -
  have c: "contents one_timer = {#0#}" "timer_at one_timer =
      (\<lambda>_. \<lparr>expire = 5, timeout_us = 10, t_cb = 7, repeat = True, canceled = False, t_id = (0, 0)\<rparr>)"
    by (simp_all add: one_timer_def tmq_timer_heap_init_def contents_def elems_def)
  obtain xs h' where x: "timer_heap_timeout (\<lambda>c k. k) 5 6 one_timer =
        Inr (map (\<lambda>a. t_cb (timer_at one_timer a)) (filter (\<lambda>a. \<not> canceled (timer_at one_timer a)) xs), h')"
      "mset xs = {#0#}" "contents h' = {#0#}" "\<forall>a. expire_of h' a = (if a \<in> set xs then 15 else 5)"
    using timer_heap_timeout_ok [OF one_timer_inv(1), of "\<lambda>c k. k" 5 6] by (auto simp: c again_def)
  have "xs = [0]" using x(2) by simp
  then show ?thesis using x one_timer_inv(1) by (simp add: c)
qed

theorem timer_heap_add_ok_witness:
  "timer_inv one_timer \<and> 1 \<notin># contents one_timer \<and>
   (\<exists>h'. tmq_timer_heap_add 2 3 one_timer 1 = Inr ((1, 3), h') \<and> timer_inv h')"
  using timer_heap_add_ok [OF one_timer_inv(1,2), of 2 3] one_timer_inv by auto

text \<open>
  The array has room for 15 timers: the allocation is \<^verbatim>\<open>8 * 16 + 1\<close> bytes, and the heap is only enlarged (to
  \<^verbatim>\<open>2 * 16 + 1\<close> bytes) when it already has 16 elements. So the 16th timer is written past the end.
\<close>

theorem timer_heap_overflow:
  assumes "timer_inv h" and "hsize h = 15"
  shows "tmq_timer_heap_add now now' h x = Inl Out_Of_Bounds"
  using assms by (simp add: tmq_timer_heap_add_def timer_heap_insert_def timer_inv_def)

end
