(* ===== verification/Cmd.thy ===== *)
theory Cmd
  imports Str Dict
begin

text \<open>
  Command-line options, \<^verbatim>\<open>base/mqtt_cmd.c\<close>. The usage text that is printed on errors is not modelled.
\<close>

datatype value_type = VALUE_TYPE_STRING | VALUE_TYPE_NUMBER | VALUE_TYPE_BOOL

record cmd_option =
  op_name :: tmq_str
  op_short_name :: tmq_str
  op_desc :: tmq_str
  default_val :: "tmq_str option"
  op_value :: "tmq_str option"
  op_required :: bool
  present :: bool
  op_type :: value_type

record tmq_cmd =
  name_index :: "(tmq_str, nat) alist"
  short_name_index :: "(tmq_str, nat) alist"
  cmd_options :: "cmd_option list"

definition tmq_cmd_init :: tmq_cmd where
  "tmq_cmd_init = \<lparr>name_index = [], short_name_index = [], cmd_options = []\<rparr>"

definition add_option :: "tmq_cmd \<Rightarrow> tmq_str \<Rightarrow> tmq_str \<Rightarrow> tmq_str \<Rightarrow> bool \<Rightarrow> value_type \<Rightarrow> tmq_str option \<Rightarrow> tmq_cmd" where
  "add_option cmd name short desc req ty def =
     (let ops = cmd_options cmd @ [\<lparr>op_name = cstr name, op_short_name = cstr short, op_desc = cstr desc, default_val = def,
                  op_value = None, op_required = req, present = False, op_type = ty\<rparr>]
      in \<lparr>name_index = al_put (name_index cmd) (cstr name) (length ops - 1),
          short_name_index = al_put (short_name_index cmd) (cstr short) (length ops - 1),
          cmd_options = ops\<rparr>)"

definition tmq_cmd_add_string :: "tmq_cmd \<Rightarrow> tmq_str \<Rightarrow> tmq_str \<Rightarrow> tmq_str \<Rightarrow> bool \<Rightarrow> tmq_str option \<Rightarrow> tmq_cmd" where
  "tmq_cmd_add_string cmd name short desc req def =
     add_option cmd name short desc req VALUE_TYPE_STRING (Some (case def of None \<Rightarrow> [] | Some d \<Rightarrow> cstr d))"

definition tmq_cmd_add_number :: "tmq_cmd \<Rightarrow> tmq_str \<Rightarrow> tmq_str \<Rightarrow> tmq_str \<Rightarrow> bool \<Rightarrow> int \<Rightarrow> tmq_cmd res" where
  "tmq_cmd_add_number cmd name short desc req def =
     bind (tmq_str_parse_int def 10) (\<lambda>d. Inr (add_option cmd name short desc req VALUE_TYPE_NUMBER d))"

definition tmq_cmd_add_bool :: "tmq_cmd \<Rightarrow> tmq_str \<Rightarrow> tmq_str \<Rightarrow> tmq_str \<Rightarrow> tmq_cmd" where
  "tmq_cmd_add_bool cmd name short desc = add_option cmd name short desc False VALUE_TYPE_BOOL None"

text \<open>
  The loop of \<^verbatim>\<open>tmq_cmd_parse\<close>. \<open>pend\<close> is the index of the option whose value comes next. The result is \<open>None\<close> when the
  function returns -1; which options were read before is not recorded then, the callers give up.
\<close>

fun parse_args :: "tmq_str list \<Rightarrow> nat option \<Rightarrow> tmq_cmd \<Rightarrow> tmq_cmd option res" where
  "parse_args [] pend cmd = Inr (Some cmd)"
| "parse_args (a # as) (Some i) cmd =
     parse_args as None (cmd\<lparr>cmd_options := (cmd_options cmd)[i := (cmd_options cmd ! i)\<lparr>op_value := Some (cstr a)\<rparr>]\<rparr>)"
| "parse_args (a # as) None cmd =
     (if length (cstr a) < 2 \<or> hd a \<noteq> CHR ''-'' then Inr None
      else
        let key = tl (cstr a);
            sn = (hd key \<noteq> CHR ''-'');
            key = (if sn then key else tl key)
        in if key = [] \<or> key = ''?'' \<or> key = ''help'' then Inr None
           else case map_of (if sn then short_name_index cmd else name_index cmd) key of
                  None \<Rightarrow> Inr None
                | Some i \<Rightarrow>
                    if i \<ge> length (cmd_options cmd) then Inl Assert_Failed
                    else
                      let oper = (cmd_options cmd ! i)\<lparr>present := True\<rparr>
                      in parse_args as (if op_type oper = VALUE_TYPE_BOOL then None else Some i)
                           (cmd\<lparr>cmd_options := (cmd_options cmd)[i := oper]\<rparr>))"

definition tmq_cmd_parse :: "tmq_cmd \<Rightarrow> tmq_str list \<Rightarrow> (int \<times> tmq_cmd) res" where
  "tmq_cmd_parse cmd argv =
     bind (parse_args (tl argv) None cmd) (\<lambda>r.
       case r of
         None \<Rightarrow> Inr (-1, cmd)
       | Some cmd' \<Rightarrow> Inr (if list_ex (\<lambda>oper. op_required oper \<and> \<not> present oper) (cmd_options cmd') then -1 else 0, cmd'))"

definition tmq_cmd_exist :: "tmq_cmd \<Rightarrow> tmq_str \<Rightarrow> bool" where
  "tmq_cmd_exist cmd name =
     (case map_of (name_index cmd) (cstr name) of
        None \<Rightarrow> False
      | Some i \<Rightarrow>
          let oper = cmd_options cmd ! i
          in if op_type oper = VALUE_TYPE_BOOL then present oper else op_value oper \<noteq> None)"

definition tmq_cmd_get_string :: "tmq_cmd \<Rightarrow> tmq_str \<Rightarrow> tmq_str option" where
  "tmq_cmd_get_string cmd name =
     (case map_of (name_index cmd) (cstr name) of
        None \<Rightarrow> None
      | Some i \<Rightarrow>
          let oper = cmd_options cmd ! i
          in Some (case op_value oper of Some v \<Rightarrow> v | None \<Rightarrow> (case default_val oper of None \<Rightarrow> [] | Some d \<Rightarrow> cstr d)))"

definition tmq_cmd_get_number :: "tmq_cmd \<Rightarrow> tmq_str \<Rightarrow> int res" where
  "tmq_cmd_get_number cmd name =
     (case map_of (name_index cmd) (cstr name) of
        None \<Rightarrow> Inr 0
      | Some i \<Rightarrow>
          let oper = cmd_options cmd ! i
          in case op_value oper of
               Some v \<Rightarrow> Inr (fst (strtoll v))
             | None \<Rightarrow> (case default_val oper of None \<Rightarrow> Inl Null_Deref | Some d \<Rightarrow> Inr (fst (strtoll d))))"

section \<open>Parsing\<close>

text \<open>The indices point to options with the name they are filed under.\<close>

definition cmd_ok :: "tmq_cmd \<Rightarrow> bool" where
  "cmd_ok cmd \<longleftrightarrow>
     (\<forall>n i. map_of (name_index cmd) n = Some i \<longrightarrow> i < length (cmd_options cmd) \<and> op_name (cmd_options cmd ! i) = n) \<and>
     (\<forall>n i. map_of (short_name_index cmd) n = Some i \<longrightarrow> i < length (cmd_options cmd))"

lemma cmd_ok_init: "cmd_ok tmq_cmd_init"
  by (simp add: cmd_ok_def tmq_cmd_init_def)

lemma cmd_ok_add: "cmd_ok cmd \<Longrightarrow> cmd_ok (add_option cmd name short desc req ty def)"
  by (auto simp: cmd_ok_def add_option_def Let_def map_of_al_put nth_append split: if_splits intro: less_SucI)

text \<open>
  Arguments as a user gives them: an option by its name or its short name, with a value unless it is a switch. \<open>arg_text\<close> is what they look like on the
  command line.
\<close>

record cmd_arg =
  arg_short :: bool
  arg_name :: tmq_str
  arg_value :: "tmq_str option"

definition arg_text :: "cmd_arg \<Rightarrow> tmq_str list" where
  "arg_text a = ((if arg_short a then ''-'' else ''--'') @ arg_name a) # (case arg_value a of None \<Rightarrow> [] | Some v \<Rightarrow> [v])"

definition arg_index :: "tmq_cmd \<Rightarrow> cmd_arg \<Rightarrow> nat option" where
  "arg_index cmd a = map_of (if arg_short a then short_name_index cmd else name_index cmd) (arg_name a)"

definition arg_ok :: "tmq_cmd \<Rightarrow> cmd_arg \<Rightarrow> bool" where
  "arg_ok cmd a \<longleftrightarrow> arg_name a \<notin> {[], ''?'', ''help''} \<and> NUL \<notin> set (arg_name a) \<and> (arg_short a \<longrightarrow> hd (arg_name a) \<noteq> CHR ''-'') \<and>
     (case arg_index cmd a of None \<Rightarrow> False
      | Some i \<Rightarrow> (arg_value a = None \<longleftrightarrow> op_type (cmd_options cmd ! i) = VALUE_TYPE_BOOL))"

text \<open>What the arguments say of option \<open>i\<close>: \<open>None\<close> when they do not name it, otherwise what the last of those that do gives it.\<close>

definition last_given :: "tmq_cmd \<Rightarrow> cmd_arg list \<Rightarrow> nat \<Rightarrow> tmq_str option option" where
  "last_given cmd args i = map_of (rev (map (\<lambda>a. (arg_index cmd a, arg_value a)) args)) (Some i)"

definition set_arg :: "tmq_cmd \<Rightarrow> cmd_arg \<Rightarrow> tmq_cmd" where
  "set_arg cmd a = (case arg_index cmd a of
     None \<Rightarrow> cmd
   | Some i \<Rightarrow>
       let oper = (cmd_options cmd ! i)\<lparr>present := True\<rparr>
       in cmd\<lparr>cmd_options := (cmd_options cmd)[i := (case arg_value a of None \<Rightarrow> oper | Some v \<Rightarrow> oper\<lparr>op_value := Some (cstr v)\<rparr>)]\<rparr>)"

lemma nth_update_field: "(\<And>x. f (g x) = f x) \<Longrightarrow> f (xs[i := g (xs ! i)] ! j) = f (xs ! j)"
  by (cases "i < length xs"; cases "i = j") (simp_all add: list_update_beyond)

lemma set_arg_keeps:
  "name_index (set_arg cmd a) = name_index cmd" "short_name_index (set_arg cmd a) = short_name_index cmd"
  "length (cmd_options (set_arg cmd a)) = length (cmd_options cmd)"
  "op_type (cmd_options (set_arg cmd a) ! i) = op_type (cmd_options cmd ! i)"
  "op_name (cmd_options (set_arg cmd a) ! i) = op_name (cmd_options cmd ! i)"
  "op_required (cmd_options (set_arg cmd a) ! i) = op_required (cmd_options cmd ! i)"
  "default_val (cmd_options (set_arg cmd a) ! i) = default_val (cmd_options cmd ! i)"
  by (auto simp: set_arg_def Let_def intro!: nth_update_field split: option.splits)

lemma arg_index_set [simp]: "arg_index (set_arg cmd a) b = arg_index cmd b"
  by (simp add: arg_index_def set_arg_keeps)

lemma arg_ok_set [simp]: "arg_ok (set_arg cmd a) b = arg_ok cmd b"
  by (simp add: arg_ok_def set_arg_keeps split: option.splits)

lemma cmd_ok_set: "cmd_ok cmd \<Longrightarrow> cmd_ok (set_arg cmd a)"
  by (simp add: cmd_ok_def set_arg_keeps)

lemma arg_in_range: "cmd_ok cmd \<Longrightarrow> arg_index cmd a = Some i \<Longrightarrow> i < length (cmd_options cmd)"
  by (auto simp: cmd_ok_def arg_index_def split: if_splits)

lemma parse_arg:
  assumes "cmd_ok cmd" and "arg_ok cmd a"
  shows "parse_args (arg_text a @ as) None cmd = parse_args as None (set_arg cmd a)"
proof -
  obtain i where i: "arg_index cmd a = Some i" "i < length (cmd_options cmd)"
      "arg_value a = None \<longleftrightarrow> op_type (cmd_options cmd ! i) = VALUE_TYPE_BOOL"
    using assms arg_in_range [OF assms(1)] by (auto simp: arg_ok_def split: option.splits)
  have n: "arg_name a \<noteq> []" "arg_name a \<noteq> ''?''" "arg_name a \<noteq> ''help''" "NUL \<notin> set (arg_name a)"
      "arg_short a \<Longrightarrow> hd (arg_name a) \<noteq> CHR ''-''"
    using assms(2) by (auto simp: arg_ok_def)
  have "cstr ((if arg_short a then ''-'' else ''--'') @ arg_name a) = (if arg_short a then ''-'' else ''--'') @ arg_name a"
    by (rule cstr_no_nul) (use n in auto)
  then show ?thesis using n i
    by (cases "arg_value a"; cases "arg_short a") (simp_all add: arg_text_def set_arg_def arg_index_def)
qed

lemma parse_arg_list:
  assumes "cmd_ok cmd" and "list_all (arg_ok cmd) args"
  shows "parse_args (concat (map arg_text args)) None cmd = Inr (Some (foldl set_arg cmd args))"
  using assms
proof (induction args arbitrary: cmd)
  case (Cons a args)
  have "list_all (arg_ok (set_arg cmd a)) args" using Cons.prems(2) by (simp add: list_all_iff)
  then show ?case using parse_arg [OF Cons.prems(1)] Cons.IH [OF cmd_ok_set [OF Cons.prems(1)]] Cons.prems(2) by simp
qed simp

lemma set_args_keep:
  "name_index (foldl set_arg cmd args) = name_index cmd" "length (cmd_options (foldl set_arg cmd args)) = length (cmd_options cmd)"
  "op_type (cmd_options (foldl set_arg cmd args) ! i) = op_type (cmd_options cmd ! i)"
  "op_required (cmd_options (foldl set_arg cmd args) ! i) = op_required (cmd_options cmd ! i)"
  "default_val (cmd_options (foldl set_arg cmd args) ! i) = default_val (cmd_options cmd ! i)"
  "arg_index (foldl set_arg cmd args) b = arg_index cmd b"
  by (induction args rule: rev_induct) (simp_all add: set_arg_keeps)

lemma set_arg_at:
  assumes "i < length (cmd_options cmd)"
  shows "present (cmd_options (set_arg cmd a) ! i) \<longleftrightarrow> arg_index cmd a = Some i \<or> present (cmd_options cmd ! i)"
    and "op_value (cmd_options (set_arg cmd a) ! i) =
      (case arg_value a of Some v \<Rightarrow> if arg_index cmd a = Some i then Some (cstr v) else op_value (cmd_options cmd ! i)
       | None \<Rightarrow> op_value (cmd_options cmd ! i))"
proof -
  have u: "(cmd_options cmd)[j := x] ! i = (if j = i then x else cmd_options cmd ! i)" for j x
    using assms by (cases "j = i") simp_all
  show "present (cmd_options (set_arg cmd a) ! i) \<longleftrightarrow> arg_index cmd a = Some i \<or> present (cmd_options cmd ! i)"
    by (auto simp: set_arg_def Let_def u split: option.splits)
  show "op_value (cmd_options (set_arg cmd a) ! i) =
      (case arg_value a of Some v \<Rightarrow> if arg_index cmd a = Some i then Some (cstr v) else op_value (cmd_options cmd ! i)
       | None \<Rightarrow> op_value (cmd_options cmd ! i))"
    by (auto simp: set_arg_def Let_def u split: option.splits)
qed

lemma last_given_snoc: "last_given cmd (args @ [a]) i = (if arg_index cmd a = Some i then Some (arg_value a) else last_given cmd args i)"
  by (auto simp: last_given_def)

lemma option_after:
  assumes "cmd_ok cmd" and "i < length (cmd_options cmd)"
  shows "present (cmd_options (foldl set_arg cmd args) ! i) \<longleftrightarrow> last_given cmd args i \<noteq> None \<or> present (cmd_options cmd ! i)"
    and "list_all (arg_ok cmd) args \<Longrightarrow> op_value (cmd_options (foldl set_arg cmd args) ! i) =
      (case last_given cmd args i of Some (Some v) \<Rightarrow> Some (cstr v) | _ \<Rightarrow> op_value (cmd_options cmd ! i))"
proof (induction args rule: rev_induct)
  case (snoc a args)
  let ?c = "foldl set_arg cmd args"
  have len: "i < length (cmd_options ?c)" using assms(2) by (simp add: set_args_keep)
  {
    case 1
    show ?case using snoc(1) set_arg_at(1) [OF len, of a] by (simp add: set_args_keep last_given_snoc)
  next
    case 2
    have ok: "arg_ok cmd a" "list_all (arg_ok cmd) args" using 2 by simp_all
    have flag: "arg_value a = None \<Longrightarrow> arg_index cmd a = Some i \<Longrightarrow> op_value (cmd_options ?c ! i) = op_value (cmd_options cmd ! i)"
    proof -
      assume h: "arg_value a = None" "arg_index cmd a = Some i"
      then have "op_type (cmd_options cmd ! i) = VALUE_TYPE_BOOL" using ok(1) by (simp add: arg_ok_def)
      then have "arg_value b = None" if "b \<in> set args" "arg_index cmd b = Some i" for b
        using that ok(2) by (auto simp: list_all_iff arg_ok_def)
      then have "last_given cmd args i \<noteq> Some (Some v)" for v
        by (auto simp: last_given_def dest!: map_of_SomeD)
      then show "op_value (cmd_options ?c ! i) = op_value (cmd_options cmd ! i)" using snoc(2) [OF ok(2)] by (auto split: option.splits)
    qed
    show ?case using snoc(2) [OF ok(2)] flag set_arg_at(2) [OF len, of a] by (auto simp: set_args_keep last_given_snoc split: option.splits)
  }
qed (simp_all add: last_given_def)

text \<open>A command as the callers make it, before parsing: no option is present or has a value.\<close>

definition cmd_fresh :: "tmq_cmd \<Rightarrow> bool" where
  "cmd_fresh cmd \<longleftrightarrow> cmd_ok cmd \<and> list_all (\<lambda>oper. \<not> present oper \<and> op_value oper = None) (cmd_options cmd)"

lemma cmd_fresh_init: "cmd_fresh tmq_cmd_init"
  by (simp add: cmd_fresh_def cmd_ok_init) (simp add: tmq_cmd_init_def)

lemma cmd_fresh_add: "cmd_fresh cmd \<Longrightarrow> cmd_fresh (add_option cmd name short desc req ty def)"
  by (simp add: cmd_fresh_def cmd_ok_add) (simp add: add_option_def Let_def)

text \<open>
  C32. Options on the command line. For registered options, given by name or short name, as switches or with a value that follows, parsing returns -1 when the
  arguments name not every required option, and 0 otherwise. Afterwards an option exists exactly when the arguments name it, and its
  string is the last value they give it, or else its default.
\<close>

theorem cmd_parse_correct:
  assumes "cmd_fresh cmd" and "list_all (arg_ok cmd) args"
  shows "\<exists>cmd'. tmq_cmd_parse cmd (prog # concat (map arg_text args)) =
      Inr (if \<exists>i<length (cmd_options cmd). op_required (cmd_options cmd ! i) \<and> last_given cmd args i = None then -1 else 0, cmd') \<and>
    (\<forall>n i. map_of (name_index cmd) n = Some i \<and> NUL \<notin> set n \<longrightarrow>
       (tmq_cmd_exist cmd' n \<longleftrightarrow> last_given cmd args i \<noteq> None) \<and>
       tmq_cmd_get_string cmd' n = Some (case last_given cmd args i of
          Some (Some v) \<Rightarrow> cstr v
        | _ \<Rightarrow> (case default_val (cmd_options cmd ! i) of None \<Rightarrow> [] | Some d \<Rightarrow> cstr d)))"
proof -
  have ok: "cmd_ok cmd" and new: "\<And>i. i < length (cmd_options cmd) \<Longrightarrow> \<not> present (cmd_options cmd ! i) \<and> op_value (cmd_options cmd ! i) = None"
    using assms(1) by (auto simp: cmd_fresh_def list_all_length)
  let ?c = "foldl set_arg cmd args"
  have p: "present (cmd_options ?c ! i) \<longleftrightarrow> last_given cmd args i \<noteq> None" if "i < length (cmd_options cmd)" for i
    using option_after(1) [OF ok that] new [OF that] by blast
  have v: "op_value (cmd_options ?c ! i) = (case last_given cmd args i of Some (Some v) \<Rightarrow> Some (cstr v) | _ \<Rightarrow> None)"
    if "i < length (cmd_options cmd)" for i
    using option_after(2) [OF ok that assms(2)] new [OF that] by (simp split: option.splits)
  have given: "\<exists>w. last_given cmd args i = Some (Some w)"
    if h: "last_given cmd args i \<noteq> None" "op_type (cmd_options cmd ! i) \<noteq> VALUE_TYPE_BOOL" for i
  proof -
    obtain w where w: "last_given cmd args i = Some w" using h(1) by blast
    then obtain b where "b \<in> set args" "arg_index cmd b = Some i" "arg_value b = w"
      unfolding last_given_def by (auto dest!: map_of_SomeD)
    then show ?thesis using w h(2) assms(2) by (cases w) (auto simp: list_all_iff arg_ok_def)
  qed
  have parse: "tmq_cmd_parse cmd (prog # concat (map arg_text args)) =
      Inr (if list_ex (\<lambda>oper. op_required oper \<and> \<not> present oper) (cmd_options ?c) then -1 else 0, ?c)"
    using parse_arg_list [OF ok assms(2)] by (simp add: tmq_cmd_parse_def)
  have req: "list_ex (\<lambda>oper. op_required oper \<and> \<not> present oper) (cmd_options ?c) \<longleftrightarrow>
      (\<exists>i<length (cmd_options cmd). op_required (cmd_options cmd ! i) \<and> last_given cmd args i = None)"
    using p by (auto simp: list_ex_length set_args_keep)
  have "tmq_cmd_exist ?c n \<longleftrightarrow> last_given cmd args i \<noteq> None" "tmq_cmd_get_string ?c n = Some (case last_given cmd args i of
      Some (Some v) \<Rightarrow> cstr v | _ \<Rightarrow> (case default_val (cmd_options cmd ! i) of None \<Rightarrow> [] | Some d \<Rightarrow> cstr d))"
    if h: "map_of (name_index cmd) n = Some i" "NUL \<notin> set n" for n i
  proof -
    have i: "i < length (cmd_options cmd)" using ok h(1) by (simp add: cmd_ok_def)
    show "tmq_cmd_exist ?c n \<longleftrightarrow> last_given cmd args i \<noteq> None"
      using h p [OF i] v [OF i] given [of i] by (auto simp: tmq_cmd_exist_def set_args_keep Let_def split: option.splits)
    show "tmq_cmd_get_string ?c n = Some (case last_given cmd args i of
      Some (Some v) \<Rightarrow> cstr v | _ \<Rightarrow> (case default_val (cmd_options cmd ! i) of None \<Rightarrow> [] | Some d \<Rightarrow> cstr d))"
      using h v [OF i] by (auto simp: tmq_cmd_get_string_def set_args_keep Let_def split: option.splits)
  qed
  then show ?thesis unfolding parse req by blast
qed

definition example_cmd :: tmq_cmd where
  "example_cmd = tmq_cmd_add_string tmq_cmd_init ''config'' ''c'' ''config file path'' True (Some ''tinymqtt.conf'')"

definition example_args :: "cmd_arg list" where
  "example_args = [\<lparr>arg_short = False, arg_name = ''config'', arg_value = Some ''a''\<rparr>, \<lparr>arg_short = True, arg_name = ''c'', arg_value = Some ''b''\<rparr>]"

theorem cmd_parse_correct_witness:
  "\<exists>cmd'. tmq_cmd_parse example_cmd [''broker'', ''--config'', ''a'', ''-c'', ''b''] = Inr (0, cmd') \<and>
     tmq_cmd_exist cmd' ''config'' \<and> tmq_cmd_get_string cmd' ''config'' = Some ''b''"
proof -
  have ok: "cmd_fresh example_cmd" by (simp add: example_cmd_def tmq_cmd_add_string_def cmd_fresh_add cmd_fresh_init)
  have a: "list_all (arg_ok example_cmd) example_args" "last_given example_cmd example_args 0 = Some (Some ''b'')"
      "map_of (name_index example_cmd) ''config'' = Some 0" "length (cmd_options example_cmd) = 1"
      "concat (map arg_text example_args) = [''--config'', ''a'', ''-c'', ''b'']"
    by code_simp+
  show ?thesis using cmd_parse_correct [OF ok a(1), of "''broker''"] a(2-5) by auto
qed

end
