(* ===== verification/Config.thy ===== *)
theory Config
  imports Str Dict
begin

text \<open>
  Configuration and password files, \<^verbatim>\<open>base/mqtt_config.c\<close>. The file behind \<^verbatim>\<open>cfg->fp\<close> is its contents;
  \<^verbatim>\<open>tmq_config_sync\<close> rewrites it. A configuration whose tables have been freed, or were never set up, is an
  \<open>Inl\<close> value: every use of it is a fault.
\<close>

definition MAX_LINE_SIZE :: nat where "MAX_LINE_SIZE = 1024"
definition MAX_DELIMETER_SIZE :: nat where "MAX_DELIMETER_SIZE = 10"

record config_value =
  cv_value :: tmq_str
  cv_modified :: bool
  cv_deleted :: bool

record tmq_config =
  cfg_file :: tmq_str
  cfg_mod :: bool
  cfg_map :: "(tmq_str, config_value) alist"
  new_items :: "(tmq_str \<times> tmq_str) list"
  delimeter :: tmq_str

section \<open>Reading the file\<close>

abbreviation NL :: char where "NL \<equiv> CHR 0x0A"

text \<open>\<^verbatim>\<open>fgets(buf, MAX_LINE_SIZE, fp)\<close>: up to and with the next newline, but at most 1023 characters.\<close>

fun fgets_loop :: "nat \<Rightarrow> tmq_str \<Rightarrow> tmq_str \<times> tmq_str" where
  "fgets_loop 0 s = ([], s)"
| "fgets_loop (Suc n) [] = ([], [])"
| "fgets_loop (Suc n) (c # s) = (if c = NL then ([NL], s) else (let (l, r) = fgets_loop n s in (c # l, r)))"

definition fgets :: "tmq_str \<Rightarrow> (tmq_str \<times> tmq_str) option" where
  "fgets s = (if s = [] then None else Some (fgets_loop (MAX_LINE_SIZE - 1) s))"

lemma fgets_shrinks: "fgets s = Some (l, r) \<Longrightarrow> length r < length s"
proof -
  have le: "fgets_loop n s = (l, r) \<Longrightarrow> length r \<le> length s" for n s l r
    by (induction n s arbitrary: l r rule: fgets_loop.induct) (fastforce split: if_splits prod.splits)+
  assume "fgets s = Some (l, r)"
  moreover obtain n where "MAX_LINE_SIZE - 1 = Suc n" by (simp add: MAX_LINE_SIZE_def eval_nat_numeral)
  ultimately obtain c s' where s: "s = c # s'" "fgets_loop (Suc n) (c # s') = (l, r)"
    by (cases s) (auto simp: fgets_def)
  then show ?thesis using le by (auto split: if_splits prod.splits intro: le_imp_less_Suc)
qed

text \<open>The local variables of \<^verbatim>\<open>read_config_file\<close>.\<close>

record read_state =
  parsing_value :: bool
  rd_key :: tmq_str
  rd_value :: tmq_str
  rd_map :: "(tmq_str, config_value) alist"

definition flush :: "read_state \<Rightarrow> (tmq_str, config_value) alist" where
  "flush st =
     (if parsing_value st then al_put (rd_map st) (rd_key st) \<lparr>cv_value = rd_value st, cv_modified = False, cv_deleted = False\<rparr>
      else rd_map st)"

text \<open>One line; \<open>None\<close> is a malformed one.\<close>

definition read_line :: "tmq_str \<Rightarrow> tmq_str \<Rightarrow> read_state \<Rightarrow> read_state option" where
  "read_line delim line st =
     (if line = [] \<or> tmq_str_find line (CHR ''#'') \<noteq> None
      then Some (st\<lparr>rd_map := flush st, parsing_value := False\<rparr>)
      else case tmq_str_split (Some line) delim of
             [x] \<Rightarrow> if \<not> parsing_value st then None else Some (st\<lparr>rd_value := tmq_str_trim (rd_value st @ x)\<rparr>)
           | [x, y] \<Rightarrow> Some \<lparr>parsing_value = True, rd_key = tmq_str_trim x, rd_value = tmq_str_trim y, rd_map = flush st\<rparr>
           | _ \<Rightarrow> None)"

text \<open>\<^verbatim>\<open>buf[strlen(buf) - 1]\<close> is out of bounds when the line starts with a NUL byte.\<close>

function read_lines :: "tmq_str \<Rightarrow> read_state \<Rightarrow> tmq_str \<Rightarrow> (int \<times> read_state) res" where
  "read_lines delim st file =
     (case fgets file of
        None \<Rightarrow> Inr (0, st)
      | Some (buf, rest) \<Rightarrow>
          let b = cstr buf
          in if b = [] then Inl Out_Of_Bounds
             else (case read_line delim (if last b = NL then butlast b else b) st of
                     None \<Rightarrow> Inr (-1, st)
                   | Some st' \<Rightarrow> read_lines delim st' rest))"
  by pat_completeness auto
termination by (relation "measure (\<lambda>(d, st, f). length f)") (auto dest: fgets_shrinks)

declare read_lines.simps [simp del]

definition read_config_file :: "tmq_str \<Rightarrow> (tmq_str, config_value) alist \<Rightarrow> tmq_str \<Rightarrow>
    (int \<times> (tmq_str, config_value) alist) res" where
  "read_config_file delim m file =
     bind (read_lines delim \<lparr>parsing_value = False, rd_key = [], rd_value = [], rd_map = m\<rparr> file) (\<lambda>(err, st).
       Inr (err, if err = 0 then flush st else rd_map st))"

text \<open>
  The status and the configuration. When reading fails, the tables are freed but the status is 0 all the same.
\<close>

definition tmq_config_init :: "tmq_str option \<Rightarrow> tmq_str \<Rightarrow> (int \<times> tmq_config res) res" where
  "tmq_config_init file delim =
     (if length (cstr delim) > MAX_DELIMETER_SIZE then Inr (-1, Inl Uninit_Read)
      else case file of
             None \<Rightarrow> Inr (-1, Inl Uninit_Read)
           | Some f \<Rightarrow>
               bind (read_config_file delim [] f) (\<lambda>(err, m).
                 Inr (0, if err < 0 then Inl Use_After_Free
                         else Inr \<lparr>cfg_file = f, cfg_mod = False, cfg_map = m, new_items = [], delimeter = cstr delim\<rparr>)))"

section \<open>Access\<close>

definition tmq_config_get :: "tmq_config \<Rightarrow> tmq_str \<Rightarrow> tmq_str option" where
  "tmq_config_get cfg key =
     (case map_of (cfg_map cfg) (cstr key) of
        None \<Rightarrow> None
      | Some v \<Rightarrow> if cv_deleted v then None else Some (cstr (cv_value v)))"

definition tmq_config_exist :: "tmq_config \<Rightarrow> tmq_str \<Rightarrow> bool" where
  "tmq_config_exist cfg key =
     (case map_of (cfg_map cfg) (cstr key) of None \<Rightarrow> False | Some v \<Rightarrow> \<not> cv_deleted v)"

definition tmq_config_add :: "tmq_config \<Rightarrow> tmq_str \<Rightarrow> tmq_str \<Rightarrow> tmq_config" where
  "tmq_config_add cfg key v = cfg\<lparr>new_items := new_items cfg @ [(cstr key, cstr v)]\<rparr>"

definition tmq_config_mod :: "tmq_config \<Rightarrow> tmq_str \<Rightarrow> tmq_str \<Rightarrow> tmq_config" where
  "tmq_config_mod cfg key v =
     (case map_of (cfg_map cfg) (cstr key) of
        None \<Rightarrow> cfg
      | Some cv \<Rightarrow> cfg\<lparr>cfg_map := al_put (cfg_map cfg) (cstr key) (cv\<lparr>cv_value := cstr v, cv_modified := True\<rparr>), cfg_mod := True\<rparr>)"

definition tmq_config_del :: "tmq_config \<Rightarrow> tmq_str \<Rightarrow> tmq_config" where
  "tmq_config_del cfg key =
     (case map_of (cfg_map cfg) (cstr key) of
        None \<Rightarrow> cfg
      | Some cv \<Rightarrow> cfg\<lparr>cfg_map := al_put (cfg_map cfg) (cstr key) (cv\<lparr>cv_deleted := True\<rparr>), cfg_mod := True\<rparr>)"

section \<open>Writing back\<close>

text \<open>The loop of \<^verbatim>\<open>tmq_config_sync\<close> that copies the file: the flag \<^verbatim>\<open>skip\<close>, the table and what is written.\<close>

definition sync_line :: "tmq_str \<Rightarrow> tmq_str \<Rightarrow> bool \<times> (tmq_str, config_value) alist \<Rightarrow>
    tmq_str \<times> bool \<times> (tmq_str, config_value) alist" where
  "sync_line delim line = (\<lambda>(skip, m).
     if line = [NL] \<or> tmq_str_find line (CHR ''#'') \<noteq> None then (line, False, m)
     else case tmq_str_split (Some line) delim of
            [x] \<Rightarrow> (if skip then [] else line, skip, m)
          | [x, y] \<Rightarrow>
              (let key = tmq_str_trim x
               in case map_of m key of
                    None \<Rightarrow> (line, False, m)
                  | Some cv \<Rightarrow>
                      if \<not> cv_deleted cv \<and> \<not> cv_modified cv then (line, False, m)
                      else if cv_deleted cv then ([], True, al_erase m key)
                      else (key @ delim @ cv_value cv @ [NL], True, al_put m key (cv\<lparr>cv_modified := False\<rparr>)))
          | _ \<Rightarrow> ([], skip, m))"

function sync_lines :: "tmq_str \<Rightarrow> bool \<times> (tmq_str, config_value) alist \<Rightarrow> tmq_str \<Rightarrow>
    tmq_str \<times> (tmq_str, config_value) alist" where
  "sync_lines delim st file =
     (case fgets file of
        None \<Rightarrow> ([], snd st)
      | Some (buf, rest) \<Rightarrow>
          let (out, st') = sync_line delim (cstr buf) st;
              (outs, m) = sync_lines delim st' rest
          in (out @ outs, m))"
  by pat_completeness auto
termination by (relation "measure (\<lambda>(d, st, f). length f)") (auto dest: fgets_shrinks)

declare sync_lines.simps [simp del]

definition new_item_line :: "tmq_str \<Rightarrow> tmq_str \<times> tmq_str \<Rightarrow> tmq_str" where
  "new_item_line delim = (\<lambda>(k, v). k @ delim @ v @ [NL])"

definition tmq_config_sync :: "tmq_config \<Rightarrow> tmq_config" where
  "tmq_config_sync cfg =
     (let cfg1 = (if cfg_mod cfg
            then let (out, m) = sync_lines (delimeter cfg) (False, cfg_map cfg) (cfg_file cfg)
                 in cfg\<lparr>cfg_mod := False, cfg_file := out, cfg_map := m\<rparr>
            else cfg)
      in if new_items cfg1 = [] then cfg1
         else cfg1\<lparr>cfg_file := cfg_file cfg1 @ concat (map (new_item_line (delimeter cfg1)) (new_items cfg1)), new_items := []\<rparr>)"

definition tmq_config_reload :: "tmq_config \<Rightarrow> (int \<times> tmq_config) res" where
  "tmq_config_reload cfg =
     bind (read_config_file (delimeter cfg) [] (cfg_file cfg)) (\<lambda>(err, m). Inr (err, cfg\<lparr>cfg_map := m\<rparr>))"

section \<open>Reading back what was written\<close>

lemma fgets_loop_append:
  "s \<noteq> [] \<Longrightarrow> last s = NL \<Longrightarrow> fgets_loop n (s @ t) = (fst (fgets_loop n s), snd (fgets_loop n s) @ t)"
  by (induction n s rule: fgets_loop.induct) (auto split: prod.splits if_splits)

lemma fgets_loop_last: "last s = NL \<Longrightarrow> fgets_loop n s = (l, r) \<Longrightarrow> r = [] \<or> last r = NL"
  by (induction n s arbitrary: l r rule: fgets_loop.induct) (fastforce split: if_splits prod.splits)+

lemma read_lines_append:
  assumes "read_lines delim st s = Inr (0, st')" and "s = [] \<or> last s = NL"
  shows "read_lines delim st (s @ t) = read_lines delim st' t"
  using assms
proof (induction delim st s rule: read_lines.induct)
  case (1 delim st s)
  show ?case
  proof (cases "s = []")
    case True
    then show ?thesis using "1.prems"(1) by (simp add: read_lines.simps [of delim st "[]"] fgets_def)
  next
    case False
    obtain buf rest where f: "fgets s = Some (buf, rest)" "fgets_loop (MAX_LINE_SIZE - 1) s = (buf, rest)"
      using False by (auto simp: fgets_def intro: prod.exhaust)
    have fa: "fgets (s @ t) = Some (buf, rest @ t)"
      using fgets_loop_append [OF False] "1.prems"(2) False f(2) by (simp add: fgets_def)
    let ?line = "if last (cstr buf) = NL then butlast (cstr buf) else cstr buf"
    obtain st1 where st1: "cstr buf \<noteq> []" "read_line delim ?line st = Some st1" "read_lines delim st1 rest = Inr (0, st')"
      using "1.prems"(1) f(1) by (subst (asm) read_lines.simps) (auto simp: Let_def split: if_splits option.splits)
    have "rest = [] \<or> last rest = NL" using fgets_loop_last f(2) "1.prems"(2) False by blast
    then have "read_lines delim st1 (rest @ t) = read_lines delim st' t"
      using "1.IH" [OF f(1) refl refl st1(1,2,3)] by simp
    then show ?thesis using st1(1,2) by (subst read_lines.simps) (simp only: fa option.case prod.case Let_def if_False)
  qed
qed

text \<open>Text that is read back as it was written.\<close>

definition plain_text :: "tmq_str \<Rightarrow> tmq_str \<Rightarrow> bool" where
  "plain_text delim t \<longleftrightarrow> t \<noteq> [] \<and> set t \<inter> (set delim \<union> {NUL, NL, CHR ''#''}) = {} \<and>
     \<not> isblank (hd t) \<and> \<not> isblank (last t)"

lemma trim_plain: "plain_text delim t \<Longrightarrow> tmq_str_trim t = t"
proof -
  assume p: "plain_text delim t"
  then have "dropWhile isblank t = t" by (cases t) (auto simp: plain_text_def)
  moreover have "dropWhile isblank (rev t) = rev t"
    using p by (cases t rule: rev_cases) (auto simp: plain_text_def)
  moreover have "hd t \<noteq> NUL" using p by (cases t) (auto simp: plain_text_def)
  ultimately show ?thesis using p by (simp add: tmq_str_trim_def plain_text_def)
qed

lemma tokens_one:
  assumes "t \<noteq> []" and "set t \<inter> set delim = {}"
  shows "tokens delim t = [t]" and "c \<in> set delim \<Longrightarrow> tokens delim (t @ c # r) = t # tokens delim r"
proof -
  obtain x xs where t: "t = x # xs" using assms(1) by (cases t) auto
  have x: "x \<notin> set delim" using assms(2) t by auto
  have tw: "takeWhile (\<lambda>c. c \<notin> set delim) (t @ c # r) = t" "dropWhile (\<lambda>c. c \<notin> set delim) (t @ c # r) = c # r"
    if "c \<in> set delim" for c r
    by (subst takeWhile_append2 dropWhile_append2; use that assms(2) in auto)+
  have tw1: "takeWhile (\<lambda>c. c \<notin> set delim) t = t" "dropWhile (\<lambda>c. c \<notin> set delim) t = []"
    using assms(2) by auto
  show "tokens delim t = [t]"
    using tokens_Cons [of delim t x xs] tw1 [unfolded t] x t tokens_Nil [of delim "[]"]
    by (simp del: dropWhile_eq_Nil_conv takeWhile_eq_all_conv)
  show "tokens delim (t @ c # r) = t # tokens delim r" if "c \<in> set delim"
    using tokens_Cons [of delim "t @ c # r" x "xs @ c # r"] tw [OF that] x t by simp
qed

lemma cstr_fgets:
  assumes "NUL \<notin> set t" and "NL \<notin> set t" and "length t + 1 < MAX_LINE_SIZE"
  shows "fgets (t @ NL # r) = Some (t @ [NL], r)" and "cstr (t @ [NL]) = t @ [NL]"
proof -
  have "length t < n \<Longrightarrow> fgets_loop n (t @ NL # r) = (t @ [NL], r)" for n
    using assms(2) by (induction t arbitrary: n) (auto simp: less_Suc_eq_0_disj gr0_conv_Suc Suc_less_eq2)
  then show "fgets (t @ NL # r) = Some (t @ [NL], r)" using assms(3) by (simp add: fgets_def)
  show "cstr (t @ [NL]) = t @ [NL]" by (rule cstr_no_nul) (use assms(1) in auto)
qed

lemma read_new_item:
  assumes "plain_text [d] k" and "plain_text [d] v" and "d \<notin> {NUL, NL, CHR ''#''}"
    and "length k + length v + 2 < MAX_LINE_SIZE"
  shows "read_lines [d] st (new_item_line [d] (k, v)) =
    Inr (0, \<lparr>parsing_value = True, rd_key = k, rd_value = v, rd_map = flush st\<rparr>)"
proof -
  let ?line = "k @ d # v"
  have line: "NUL \<notin> set ?line" "NL \<notin> set ?line" "CHR ''#'' \<notin> set ?line" "?line \<noteq> []" "length ?line + 1 < MAX_LINE_SIZE"
    using assms by (auto simp: plain_text_def)
  have f: "fgets (new_item_line [d] (k, v)) = Some (?line @ [NL], [])"
    using cstr_fgets(1) [OF line(1,2,5), of "[]"] by (simp add: new_item_line_def)
  have "tokens [d] ?line = [k, v]"
    using tokens_one(2) [of k "[d]" d v] tokens_one(1) [of v "[d]"] assms(1,2) by (auto simp: plain_text_def)
  then have "tmq_str_split (Some ?line) [d] = [k, v]"
    using line(1) assms(3) by (simp add: tmq_str_split_def)
  then have r: "read_line [d] ?line st = Some \<lparr>parsing_value = True, rd_key = k, rd_value = v, rd_map = flush st\<rparr>"
    using line assms(1,2) by (simp add: read_line_def tmq_str_find_def trim_plain)
  have n: "read_lines [d] st' [] = Inr (0, st')" for st' by (simp add: read_lines.simps fgets_def)
  show ?thesis
    by (subst read_lines.simps)
       (simp add: f Let_def cstr_fgets(2) [OF line(1,2,5), simplified] r [simplified] n butlast_append)
qed

text \<open>
  C31. An entry that is added is stored: after \<^verbatim>\<open>tmq_config_add\<close> and \<^verbatim>\<open>tmq_config_sync\<close> on a file that reads without
  error and ends with a newline, \<^verbatim>\<open>tmq_config_reload\<close> succeeds and the entry has its value, all others are as before.
  (The delimiter is a single character; the key and the value are plain text that fits into a line.)
\<close>

theorem config_add_roundtrip:
  assumes "read_config_file [d] [] (cfg_file cfg) = Inr (0, m)" and "cfg_file cfg = [] \<or> last (cfg_file cfg) = NL"
    and "\<not> cfg_mod cfg" "new_items cfg = []" "delimeter cfg = [d]" and "d \<notin> {NUL, NL, CHR ''#''}"
    and "plain_text [d] k" "plain_text [d] v" "length k + length v + 2 < MAX_LINE_SIZE"
  shows "\<exists>cfg'. tmq_config_reload (tmq_config_sync (tmq_config_add cfg k v)) = Inr (0, cfg') \<and>
    tmq_config_get cfg' k = Some v \<and>
    (\<forall>k'. cstr k' \<noteq> k \<longrightarrow> tmq_config_get cfg' k' = tmq_config_get (cfg\<lparr>cfg_map := m\<rparr>) k')"
proof -
  have nul: "cstr k = k" "cstr v = v" using assms(7,8) by (auto simp: plain_text_def intro: cstr_no_nul)
  let ?st0 = "\<lparr>parsing_value = False, rd_key = [], rd_value = [], rd_map = []\<rparr>"
  obtain st where st: "read_lines [d] ?st0 (cfg_file cfg) = Inr (0, st)" "m = flush st"
    using assms(1) by (auto simp: read_config_file_def bind_eq_Inr split: if_splits)
  let ?cfg = "tmq_config_sync (tmq_config_add cfg k v)"
  have fl: "cfg_file ?cfg = cfg_file cfg @ new_item_line [d] (k, v)" "delimeter ?cfg = [d]"
    using assms(3,4,5) nul by (simp_all add: tmq_config_sync_def tmq_config_add_def)
  let ?m = "al_put m k \<lparr>cv_value = v, cv_modified = False, cv_deleted = False\<rparr>"
  have "read_config_file [d] [] (cfg_file ?cfg) = Inr (0, ?m)"
    unfolding read_config_file_def fl read_lines_append [OF st(1) assms(2)] read_new_item [OF assms(7,8,6,9)]
    by (simp add: flush_def [of "\<lparr>parsing_value = True, rd_key = k, rd_value = v, rd_map = flush st\<rparr>"] st(2))
  then have "tmq_config_reload ?cfg = Inr (0, ?cfg\<lparr>cfg_map := ?m\<rparr>)"
    using fl(2) by (simp add: tmq_config_reload_def)
  then show ?thesis using nul by (auto simp: tmq_config_get_def map_of_al_put)
qed

definition example_config :: tmq_config where
  "example_config = \<lparr>cfg_file = ''a=1'' @ [NL], cfg_mod = False, cfg_map = [], new_items = [], delimeter = ''=''\<rparr>"

theorem config_add_roundtrip_witness:
  "\<exists>cfg'. tmq_config_reload (tmq_config_sync (tmq_config_add example_config ''port'' ''1883'')) = Inr (0, cfg') \<and>
     tmq_config_get cfg' ''port'' = Some ''1883''"
proof -
  have "read_config_file ''='' [] (cfg_file example_config) =
      Inr (0, [(''a'', \<lparr>cv_value = ''1'', cv_modified = False, cv_deleted = False\<rparr>)])"
    using read_new_item [of "CHR ''=''" "''a''" "''1''" "\<lparr>parsing_value = False, rd_key = [], rd_value = [], rd_map = []\<rparr>"]
    by (simp add: read_config_file_def example_config_def new_item_line_def plain_text_def isblank_def MAX_LINE_SIZE_def flush_def)
  from config_add_roundtrip [OF this, of "''port''" "''1883''"] show ?thesis
    by (auto simp: example_config_def plain_text_def isblank_def MAX_LINE_SIZE_def)
qed

text \<open>A file with a malformed line: initialisation reports success, but the tables have been freed.\<close>

theorem config_init_ignores_errors:
  assumes "read_config_file delim [] f = Inr (-1, m)" and "length (cstr delim) \<le> MAX_DELIMETER_SIZE"
  shows "tmq_config_init (Some f) delim = Inr (0, Inl Use_After_Free)"
  using assms by (simp add: tmq_config_init_def)

end
