(* ===== verification/Broker.thy ===== *)
theory Broker
  imports Session Acl Config Cmd
begin

text \<open>
  The broker, \<^verbatim>\<open>mqtt/mqtt_broker.c\<close>. Sessions are shared by the broker thread, the I/O threads and the topic tree
  through pointers with reference counts: \<open>session_at\<close> maps an address to the session and its count, and a
  freed session is no longer in it, so that a use of it is the fault \<open>Use_After_Free\<close>. Connections are owned by
  the I/O threads; what the broker reads of them is \<open>conn_at\<close>, and reference counts of connections are
  events. Mails to the I/O threads, tasks posted to the executor or to the thread pool, packets written directly
  and events for the rule engine and for the cluster are events of the result, in their order.

  The mapping of the subscribers' flag \<^verbatim>\<open>is_session_closed\<close>: \<^verbatim>\<open>mqtt_broadcast\<close> writes it into the table of the
  topic tree and copies it at once; it is never read there, so the model only puts it into the copy.
\<close>

record conn_info =
  io_index :: nat
  conn_id :: tmq_str
  peer_ip :: u32

datatype session_req =
    Session_Connect nat connect_pkt
  | Session_Disconnect "addr option"
  | Session_Force_Close "addr option"

text \<open>
  A request about subscriptions points to the client identifier inside the session object: it has the address of the session, and the
  text, which never changes.
\<close>

datatype topic_req =
    Topic_Subscribe addr tmq_str subscribe_pkt
  | Topic_Unsubscribe addr tmq_str unsubscribe_pkt

datatype broker_task =
    Handle_Session_Req session_req
  | Handle_Topic_Req topic_req
  | Handle_Publish_Req publish_req

record session_connect_resp =
  resp_code :: connack_return_code
  resp_session :: "addr option"
  resp_conn :: nat
  session_present :: bool

record broadcast_ctx =
  bc_topic :: tmq_str
  bc_message :: mqtt_message
  bc_retain :: bool
  bc_subscribers :: "subscribe_info list"

datatype user_op = ADD | DEL | MOD

record user_op_context =
  uo_op :: user_op
  uo_conn :: nat
  uo_username :: tmq_str
  uo_password :: tmq_str
  uo_success :: bool
  uo_reason :: "tmq_str option"

datatype pool_task =
    Validate_Password nat connect_pkt
  | User_Operation user_op_context

datatype broker_event =
    Post broker_task nat
  | Pool_Task pool_task
  | Connect_Response nat session_connect_resp
  | Packet_Send nat nat any_packet
  | Broadcast nat broadcast_ctx
  | Receipt nat user_op_context
  | Tcp_Connection nat u64
  | Write nat any_packet
  | Conn_Share nat
  | Conn_Unref nat
  | Device_Online tmq_str tmq_str
  | Rule_Trigger event_listener pub_event_data
  | Tun_Publish tmq_str mqtt_message "(tmq_str, int) alist"
  | Add_Route tmq_str

record broker =
  br_sessions :: "(tmq_str, addr) alist"
  session_at :: "addr \<Rightarrow> (tmq_session \<times> int) option"
  next_session :: addr
  topics_tree :: topic_node
  conn_at :: "nat \<Rightarrow> conn_info"
  br_acl :: tmq_acl
  pwd_conf :: "tmq_config res"
  next_io_context :: nat
  io_threads :: nat
  mysql_enabled :: bool
  acl_enabled :: bool
  cluster_enabled :: bool
  ssl_enabled :: bool
  allow_anonymous :: bool
  mongodb_pool :: bool
  mongodb_store_trigger :: int
  br_inflight_window :: u8

section \<open>Session objects\<close>

definition get_session :: "broker \<Rightarrow> addr \<Rightarrow> tmq_session res" where
  "get_session b a = (case session_at b a of None \<Rightarrow> Inl Use_After_Free | Some (s, _) \<Rightarrow> Inr s)"

text \<open>A request may carry a NULL session.\<close>

definition deref_session :: "broker \<Rightarrow> addr option \<Rightarrow> (addr \<times> tmq_session) res" where
  "deref_session b so =
     (case so of None \<Rightarrow> Inl Null_Deref | Some a \<Rightarrow> bind (get_session b a) (\<lambda>s. Inr (a, s)))"

definition put_session :: "broker \<Rightarrow> addr \<Rightarrow> tmq_session \<Rightarrow> broker" where
  "put_session b a s =
     b\<lparr>session_at := (session_at b)(a := map_option (\<lambda>(_, n). (s, n)) (session_at b a))\<rparr>"

text \<open>\<^verbatim>\<open>SESSION_SHARE\<close> and \<^verbatim>\<open>SESSION_RELEASE\<close>, which are \<^verbatim>\<open>get_ref\<close> and \<^verbatim>\<open>release_ref\<close> of \<^verbatim>\<open>ev/mqtt_event.c\<close>.\<close>

definition share_session :: "broker \<Rightarrow> addr \<Rightarrow> broker res" where
  "share_session b a =
     (case session_at b a of
        None \<Rightarrow> Inl Use_After_Free
      | Some (s, n) \<Rightarrow> Inr (b\<lparr>session_at := (session_at b)(a \<mapsto> (s, n + 1))\<rparr>))"

definition release_session :: "broker \<Rightarrow> addr \<Rightarrow> broker res" where
  "release_session b a =
     (case session_at b a of
        None \<Rightarrow> Inl Use_After_Free
      | Some (s, n) \<Rightarrow> Inr (b\<lparr>session_at := (session_at b)(a := if n - 1 = 0 then None else Some (s, n - 1))\<rparr>))"

section \<open>Dispatching connections\<close>

definition get_next_io_context :: "broker \<Rightarrow> nat \<times> broker" where
  "get_next_io_context b =
     (let n = next_io_context b; n' = n + 1
      in (n, b\<lparr>next_io_context := (if n' \<ge> io_threads b then 0 else n')\<rparr>))"

definition dispatch_new_connection :: "u64 \<Rightarrow> broker \<Rightarrow> broker_event list \<times> broker" where
  "dispatch_new_connection sock b =
     (let (i, b') = get_next_io_context b in ([Tcp_Connection i sock], b'))"

definition dispatch_ssl_connection :: "u64 \<Rightarrow> broker \<Rightarrow> broker_event list \<times> broker" where
  "dispatch_ssl_connection sock b =
     (let (i, b') = get_next_io_context b in ([Tcp_Connection i (sock OR push_bit 63 1)], b'))"

section \<open>Sessions\<close>

definition make_connect_respond :: "broker \<Rightarrow> nat \<Rightarrow> connack_return_code \<Rightarrow> addr option \<Rightarrow> bool \<Rightarrow> broker_event" where
  "make_connect_respond b c code s sp =
     Connect_Response (io_index (conn_at b c))
       \<lparr>resp_code = code, resp_session = s, resp_conn = c, session_present = sp\<rparr>"

fun unsubscribe_all :: "tmq_str list \<Rightarrow> tmq_str \<Rightarrow> topic_node \<Rightarrow> topic_node res" where
  "unsubscribe_all [] cid t = Inr t"
| "unsubscribe_all (f # fs) cid t = bind (tmq_topics_remove_subscription t f cid) (unsubscribe_all fs cid)"

definition session_close_callback :: "broker \<Rightarrow> addr \<Rightarrow> bool \<Rightarrow> broker res" where
  "session_close_callback b a force_clean =
     bind (get_session b a) (\<lambda>s.
       if s_clean_session s = 0 \<and> \<not> force_clean then Inr b
       else
         bind (unsubscribe_all (map fst (subscriptions s)) (s_client_id s) (topics_tree b)) (\<lambda>t.
         release_session (b\<lparr>topics_tree := t, br_sessions := al_erase (br_sessions b) (s_client_id s)\<rparr>) a))"

text \<open>\<^verbatim>\<open>tmq_session_close\<close> with the broker's close callback.\<close>

definition close_session :: "broker \<Rightarrow> addr \<Rightarrow> bool \<Rightarrow> (broker_event list \<times> broker) res" where
  "close_session b a force_clean =
     bind (get_session b a) (\<lambda>s.
       let (evs, s') = tmq_session_close force_clean s;
           b' = put_session b a s'
       in bind (if On_Close force_clean \<in> set evs then session_close_callback b' a force_clean else Inr b') (\<lambda>b''.
            Inr ([Conn_Unref (s_conn s)], b'')))"

definition get_message_store :: "broker \<Rightarrow> any_store" where
  "get_message_store b =
     (if mongodb_pool b then Mongodb_Store (tmq_message_store_mongodb_new (of_int (mongodb_store_trigger b)))
      else Memory_Store tmq_message_store_memory_new)"

text \<open>The client identifier of a CONNECT without one is made from the name of the connection.\<close>

definition effective_client_id :: "broker \<Rightarrow> nat \<Rightarrow> connect_pkt \<Rightarrow> tmq_str" where
  "effective_client_id b c p =
     (case client_id p of
        None \<Rightarrow> ''tmp_client['' @ conn_id (conn_at b c) @ '']''
      | Some i \<Rightarrow> if i = [] then ''tmp_client['' @ conn_id (conn_at b c) @ '']'' else i)"

text \<open>\<^verbatim>\<open>tmq_session_new\<close> with the arguments that all three calls of \<^verbatim>\<open>start_session\<close> share, and the allocation of the object.\<close>

definition will_args :: "connect_pkt \<Rightarrow> tmq_str option \<times> tmq_str option \<times> u8 \<times> u8" where
  "will_args p =
     (if CONNECT_WILL_FLAG (conn_flags p)
      then (will_topic p, will_message p, CONNECT_WILL_QOS (conn_flags p), if CONNECT_WILL_RETAIN (conn_flags p) then 1 else 0)
      else (None, None, 0, 0))"

definition new_session :: "nat \<Rightarrow> int \<Rightarrow> broker \<Rightarrow> nat \<Rightarrow> tmq_str \<Rightarrow> connect_pkt \<Rightarrow> u8 \<Rightarrow> addr \<times> broker" where
  "new_session rnd now b c cid p clean =
     (let (wt, wm, wq, wr) = will_args p;
          s = tmq_session_new rnd now True c (of_nat (io_index (conn_at b c))) cid (username p) clean (keep_alive p)
                wt wm wq wr (br_inflight_window b) (get_message_store b);
          a = next_session b
      in (a, b\<lparr>session_at := (session_at b)(a \<mapsto> (s, 0)), next_session := Suc a\<rparr>))"

text \<open>Storing a new session in the table and answering: the end of the first and the third case.\<close>

definition register_session :: "broker \<Rightarrow> nat \<Rightarrow> addr \<Rightarrow> tmq_str \<Rightarrow> bool \<Rightarrow> (broker_event list \<times> broker) res" where
  "register_session b c a cid sp =
     bind (share_session b a) (\<lambda>b1.
     bind (get_session b1 a) (\<lambda>s.
       Inr ([Conn_Share c, make_connect_respond b1 c CONNECTION_ACCEPTED (Some a) sp, Device_Online (s_username s) (s_client_id s)],
            b1\<lparr>br_sessions := al_put (br_sessions b1) (cstr cid) a\<rparr>)))"

definition start_session :: "nat \<Rightarrow> int \<Rightarrow> broker \<Rightarrow> nat \<Rightarrow> connect_pkt \<Rightarrow> (broker_event list \<times> broker) res" where
  "start_session rnd now b c p =
     (let (wt, wm, wq, wr) = will_args p;
          cid = effective_client_id b c p
      in case map_of (br_sessions b) (cstr cid) of
           None \<Rightarrow>
             let (a, b1) = new_session rnd now b c cid p (if CONNECT_CLEAN_SESSION (conn_flags p) then 1 else 0)
             in register_session b1 c a cid False
         | Some a \<Rightarrow>
             bind (get_session b a) (\<lambda>s.
               if s_state s = OPEN then Inr ([make_connect_respond b c IDENTIFIER_REJECTED None False], b)
               else if s_clean_session s \<noteq> 0 then Inl Assert_Failed
               else if CONNECT_CLEAN_SESSION (conn_flags p) then
                 bind (close_session b a True) (\<lambda>(evs, b1).
                   let (a', b2) = new_session rnd now b1 c cid p 1
                   in bind (register_session b2 c a' cid True) (\<lambda>(evs', b3). Inr (evs @ evs', b3)))
               else
                 let s' = tmq_session_resume now c (username p) (keep_alive p) wt wm wq wr s;
                     b1 = put_session b a s'
                 in Inr ([Conn_Share c, make_connect_respond b1 c CONNECTION_ACCEPTED (Some a) True,
                          Device_Online (s_username s') (s_client_id s')], b1)))"



section \<open>Publishing\<close>

text \<open>
  \<^verbatim>\<open>mqtt_broadcast\<close>: one task for every I/O thread, with the subscribers whose session belongs to it.
  \<open>broadcast_infos\<close> is the loop over the subscribers; the session's thread index goes with each.
\<close>

fun broadcast_infos :: "subscribe_map \<Rightarrow> broker \<Rightarrow> (broker_event list \<times> (nat \<times> subscribe_info) list \<times> broker) res" where
  "broadcast_infos [] b = Inr ([], [], b)"
| "broadcast_infos ((cid, info) # m) b =
     bind (get_session b (sub_session info)) (\<lambda>s.
     bind (share_session b (sub_session info)) (\<lambda>b1.
       let i = unat (io_context_idx s)
       in if i \<ge> io_threads b then Inl Out_Of_Bounds
          else bind (broadcast_infos m b1) (\<lambda>(evs, is, b2).
            Inr ((if s_state s = CLOSED then [] else [Conn_Share (s_conn s)]) @ evs,
                 (i, info\<lparr>is_session_closed := (s_state s = CLOSED)\<rparr>) # is, b2))))"

definition mqtt_broadcast :: "broker \<Rightarrow> tmq_str \<Rightarrow> mqtt_message \<Rightarrow> subscribe_map \<Rightarrow> (broker_event list \<times> broker) res" where
  "mqtt_broadcast b t msg m =
     bind (broadcast_infos m b) (\<lambda>(evs, is, b').
       Inr (evs @ map (\<lambda>i. Broadcast i \<lparr>bc_topic = cstr t, bc_message = \<lparr>message = cstr (message msg), msg_qos = msg_qos msg\<rparr>,
                    bc_retain = False, bc_subscribers = map snd (filter (\<lambda>(j, _). j = i) is)\<rparr>) [0..<io_threads b], b'))"

text \<open>The callbacks of \<^verbatim>\<open>tmq_topics_publish\<close>: the rule engine's listeners and \<^verbatim>\<open>client_on_match\<close>, in the order of the walk.\<close>

fun run_matches :: "tmq_str \<Rightarrow> mqtt_message \<Rightarrow> topic_event list \<Rightarrow> broker \<Rightarrow> (broker_event list \<times> broker) res" where
  "run_matches t msg [] b = Inr ([], b)"
| "run_matches t msg (Trigger l d # es) b = bind (run_matches t msg es b) (\<lambda>(evs, b'). Inr (Rule_Trigger l d # evs, b'))"
| "run_matches t msg (Member_Match a # es) b = run_matches t msg es b"
| "run_matches t msg (Client_Match m # es) b =
     bind (mqtt_broadcast b t msg m) (\<lambda>(evs, b1).
     bind (run_matches t msg es b1) (\<lambda>(evs', b2). Inr (evs @ evs', b2)))"

definition topics_publish :: "(tmq_str \<Rightarrow> bool) \<Rightarrow> broker \<Rightarrow> publish_req \<Rightarrow> (broker_event list \<times> broker) res" where
  "topics_publish json_ok b req =
     (let (es, members, t) = tmq_topics_publish json_ok (topics_tree b) req
      in bind (run_matches (req_topic req) (req_message req) es (b\<lparr>topics_tree := t\<rparr>)) (\<lambda>(evs, b').
           Inr (evs @ (case members of None \<Rightarrow> [] | Some ms \<Rightarrow> [Tun_Publish (req_topic req) (req_message req) ms]), b')))"

definition handle_publish_req :: "(tmq_str \<Rightarrow> bool) \<Rightarrow> broker \<Rightarrow> publish_req \<Rightarrow> (broker_event list \<times> broker) res" where
  "handle_publish_req json_ok b req = topics_publish json_ok b req"

section \<open>The tasks of the broker thread\<close>

text \<open>The will message is published when a session ends without a DISCONNECT.\<close>

definition will_pub_req :: "tmq_session \<Rightarrow> tmq_str \<Rightarrow> publish_req" where
  "will_pub_req s wt =
     \<lparr>req_topic = wt,
      req_message = \<lparr>message = (case s_will_message s of None \<Rightarrow> [] | Some m \<Rightarrow> cstr m), msg_qos = s_will_qos s\<rparr>,
      req_retain = (s_will_retain s \<noteq> 0), is_tunneled_pub = False,
      publisher_username = cstr (s_username s), publisher_client_id = cstr (s_client_id s)\<rparr>"

fun handle_session_req :: "(tmq_str \<Rightarrow> bool) \<Rightarrow> nat \<Rightarrow> int \<Rightarrow> broker \<Rightarrow> session_req \<Rightarrow> (broker_event list \<times> broker) res" where
  "handle_session_req json_ok rnd now b (Session_Connect c p) = start_session rnd now b c p"
| "handle_session_req json_ok rnd now b (Session_Disconnect so) =
     bind (deref_session b so) (\<lambda>(a, s). close_session b a False)"
| "handle_session_req json_ok rnd now b (Session_Force_Close so) =
     bind (deref_session b so) (\<lambda>(a, s).
     bind (case s_will_topic s of None \<Rightarrow> Inr ([], b) | Some wt \<Rightarrow> topics_publish json_ok b (will_pub_req s wt)) (\<lambda>(evs, b1).
     bind (close_session b1 a False) (\<lambda>(evs', b2). Inr (evs @ evs', b2))))"

text \<open>
  The loop over the filters of a SUBSCRIBE: the return codes, the retained messages and the events. The
  out-parameter \<^verbatim>\<open>topic_exist\<close> is not written for an empty filter.
\<close>

fun subscribe_filters :: "addr \<Rightarrow> tmq_session \<Rightarrow> topic_filter_qos list \<Rightarrow> broker \<Rightarrow>
    (u8 list \<times> retain_message list \<times> broker_event list \<times> broker) res" where
  "subscribe_filters a s [] b = Inr ([], [], [], b)"
| "subscribe_filters a s (tf # tfs) b =
     (let (perm, acl) = (if acl_enabled b then tmq_acl_auth (br_acl b) s (peer_ip (conn_at b (s_conn s))) (topic_filter tf) SUB
                         else (UNKNOWN, br_acl b));
          b0 = b\<lparr>br_acl := acl\<rparr>
      in if acl_enabled b \<and> perm = DENY then subscribe_filters a s tfs b0
         else
           let (retain, exist, t) = tmq_topics_add_subscription (topics_tree b0) (topic_filter tf) (s_client_id s)
                  \<lparr>sub_session = a, sub_qos = tf_qos tf, is_session_closed = False\<rparr>;
               b1 = b0\<lparr>topics_tree := t\<rparr>
           in if cluster_enabled b \<and> exist = None then Inl Uninit_Read
              else
                let route = (if cluster_enabled b \<and> exist = Some False then [Add_Route (topic_filter tf)] else [])
                in bind (subscribe_filters a s tfs b1) (\<lambda>(codes, retains, evs, b2).
                     Inr (tf_qos tf # codes, retain @ retains, route @ evs, b2)))"

text \<open>
  Looking up the client identifier reads it inside its session, which must still be there. The task for a retained message is
  allocated with \<^verbatim>\<open>malloc\<close> and its list of subscribers is used without being initialised.
\<close>

fun handle_topic_req :: "broker \<Rightarrow> topic_req \<Rightarrow> (broker_event list \<times> broker) res" where
  "handle_topic_req b (Topic_Subscribe owner cid p) =
     bind (get_session b owner) (\<lambda>_.
      case map_of (br_sessions b) (cstr cid) of
        None \<Rightarrow> Inr ([], b)
      | Some a \<Rightarrow>
          bind (get_session b a) (\<lambda>s.
            if s_state s = CLOSED then Inr ([], b)
            else
              bind (subscribe_filters a s (sub_topics p) b) (\<lambda>(codes, retains, evs, b1).
                if retains \<noteq> [] then Inl Uninit_Read
                else Inr (evs @ [Conn_Share (s_conn s), Packet_Send (io_index (conn_at b (s_conn s))) (s_conn s)
                            (SUBACK \<lparr>suback_packet_id = sub_packet_id p, return_codes = codes\<rparr>)], b1))))"
| "handle_topic_req b (Topic_Unsubscribe owner cid p) =
     bind (get_session b owner) (\<lambda>_.
      case map_of (br_sessions b) (cstr cid) of
        None \<Rightarrow> Inr ([], b)
      | Some a \<Rightarrow>
          bind (get_session b a) (\<lambda>s.
            if s_state s = CLOSED then Inr ([], b)
            else
              bind (unsubscribe_all (unsub_topics p) cid (topics_tree b)) (\<lambda>t.
                Inr ([Conn_Share (s_conn s), Packet_Send (io_index (conn_at b (s_conn s))) (s_conn s)
                        (UNSUBACK (unsub_packet_id p))], b\<lparr>topics_tree := t\<rparr>))))"

fun run_task :: "(tmq_str \<Rightarrow> bool) \<Rightarrow> nat \<Rightarrow> int \<Rightarrow> broker_task \<Rightarrow> broker \<Rightarrow> (broker_event list \<times> broker) res" where
  "run_task json_ok rnd now (Handle_Session_Req r) b = handle_session_req json_ok rnd now b r"
| "run_task json_ok rnd now (Handle_Topic_Req r) b = handle_topic_req b r"
| "run_task json_ok rnd now (Handle_Publish_Req r) b = handle_publish_req json_ok b r"

section \<open>Entry points of the I/O threads\<close>

text \<open>
  \<open>encode\<close> is \<^verbatim>\<open>password_encode\<close> (MD5 and base 64). A NULL user name is in no password file. (It hashes to 0, and the
  comparison would only be reached for a key with that hash.)
\<close>

definition check_password :: "(tmq_str \<Rightarrow> tmq_str) \<Rightarrow> broker \<Rightarrow> connect_pkt \<Rightarrow> bool res" where
  "check_password encode b p =
     bind (pwd_conf b) (\<lambda>cfg.
       case username p of
         None \<Rightarrow> Inr False
       | Some u \<Rightarrow>
           if \<not> tmq_config_exist cfg u then Inr False
           else case password p of
                  None \<Rightarrow> Inl Null_Deref
                | Some pw \<Rightarrow> Inr (tmq_config_get cfg u = Some (encode (cstr pw))))"

definition mqtt_connect :: "(tmq_str \<Rightarrow> tmq_str) \<Rightarrow> broker \<Rightarrow> nat \<Rightarrow> connect_pkt \<Rightarrow> broker_event list res" where
  "mqtt_connect encode b c p =
     (if \<not> allow_anonymous b \<and> mysql_enabled b then Inr [Conn_Share c, Pool_Task (Validate_Password c p)]
      else
        bind (if allow_anonymous b then Inr True else check_password encode b p) (\<lambda>ok.
          if \<not> ok then Inr [Write c (CONNACK \<lparr>ack_flags = 0, return_code = connack_code NOT_AUTHORIZED\<rparr>)]
          else Inr [Conn_Share c, Post (Handle_Session_Req (Session_Connect c p)) 1]))"

definition mqtt_disconnect :: "addr \<Rightarrow> broker_event list" where
  "mqtt_disconnect a = [Post (Handle_Session_Req (Session_Disconnect (Some a))) 1]"

text \<open>The client identifier is that of the session at \<open>owner\<close>.\<close>

definition mqtt_subscribe :: "addr \<Rightarrow> tmq_str \<Rightarrow> subscribe_pkt \<Rightarrow> broker_event list" where
  "mqtt_subscribe owner cid p = [Post (Handle_Topic_Req (Topic_Subscribe owner cid p)) 1]"

definition mqtt_unsubscribe :: "addr \<Rightarrow> tmq_str \<Rightarrow> unsubscribe_pkt \<Rightarrow> broker_event list" where
  "mqtt_unsubscribe owner cid p = [Post (Handle_Topic_Req (Topic_Unsubscribe owner cid p)) 1]"

definition mqtt_publish :: "broker \<Rightarrow> tmq_session option \<Rightarrow> tmq_str \<Rightarrow> mqtt_message \<Rightarrow> bool \<Rightarrow> tmq_str option \<Rightarrow> tmq_str option \<Rightarrow>
    bool \<Rightarrow> broker_event list \<times> broker" where
  "mqtt_publish b so t msg retain user cid tunneled =
     (let (perm, acl) = (case so of
            None \<Rightarrow> (UNKNOWN, br_acl b)
          | Some s \<Rightarrow> if acl_enabled b then tmq_acl_auth (br_acl b) s (peer_ip (conn_at b (s_conn s))) t PUB
                      else (UNKNOWN, br_acl b));
          b' = b\<lparr>br_acl := acl\<rparr>
      in if so \<noteq> None \<and> acl_enabled b \<and> perm = DENY then ([], b')
         else ([Post (Handle_Publish_Req \<lparr>req_topic = t, req_message = msg, req_retain = retain, is_tunneled_pub = tunneled,
                  publisher_username = (case user of None \<Rightarrow> [] | Some u \<Rightarrow> cstr u),
                  publisher_client_id = (case cid of None \<Rightarrow> [] | Some i \<Rightarrow> cstr i)\<rparr>) 0], b'))"

section \<open>Thread pool tasks\<close>

text \<open>
  \<open>valid\<close> is \<^verbatim>\<open>mysql_validate_connect_password\<close>, \<open>add_user_ok\<close> is whether \<^verbatim>\<open>mysql_add_user\<close> succeeds. Without MySQL
  the pool has size 0, and taking a connection waits for ever.
\<close>

definition validate_password_in_thread_pool :: "(tmq_str \<Rightarrow> tmq_str \<Rightarrow> bool) \<Rightarrow> broker \<Rightarrow> nat \<Rightarrow> connect_pkt \<Rightarrow> broker_event list" where
  "validate_password_in_thread_pool valid b c p =
     (case (username p, password p) of
        (Some u, Some pw) \<Rightarrow>
          if valid (cstr u) (cstr pw) then [Post (Handle_Session_Req (Session_Connect c p)) 1]
          else [make_connect_respond b c NOT_AUTHORIZED None False]
      | _ \<Rightarrow> [make_connect_respond b c NOT_AUTHORIZED None False])"

definition user_operation_in_thread_pool :: "(tmq_str \<Rightarrow> tmq_str) \<Rightarrow> (tmq_str \<Rightarrow> tmq_str \<Rightarrow> bool) \<Rightarrow> broker \<Rightarrow> user_op_context \<Rightarrow> broker_event list" where
  "user_operation_in_thread_pool encode add_user_ok b ctx =
     (let ctx' = (if uo_op ctx = ADD then
                    if add_user_ok (uo_username ctx) (encode (uo_password ctx)) then ctx\<lparr>uo_success := True\<rparr>
                    else ctx\<lparr>uo_success := False, uo_reason := Some ''user already exists''\<rparr>
                  else ctx)
      in if uo_op ctx = ADD \<and> \<not> mysql_enabled b then [] else [Receipt (io_index (conn_at b (uo_conn ctx))) ctx'])"

text \<open>The console's request to add a user. That MySQL is not enabled is only logged.\<close>

definition add_user :: "broker \<Rightarrow> nat \<Rightarrow> tmq_str \<Rightarrow> tmq_str \<Rightarrow> broker_event list" where
  "add_user b c user pw =
     [Conn_Share c, Pool_Task (User_Operation \<lparr>uo_op = ADD, uo_conn = c, uo_username = cstr user, uo_password = cstr pw,
        uo_success = False, uo_reason = None\<rparr>)]"

text \<open>
  A message that the delay plugin returns. \<open>json\<close> is \<^verbatim>\<open>cJSON_Parse\<close> with the accessors the function uses: the strings of
  an object's items and the numbers of \<^verbatim>\<open>qos\<close> and \<^verbatim>\<open>retain\<close>.
\<close>

record delay_json =
  dj_topic :: "tmq_str option"
  dj_message :: "tmq_str option"
  dj_qos :: int
  dj_retain :: int
  dj_username :: "tmq_str option"
  dj_client_id :: "tmq_str option"

definition mqtt_delay_message :: "(tmq_str \<Rightarrow> delay_json option) \<Rightarrow> broker \<Rightarrow> tmq_str \<Rightarrow> broker_event list \<times> broker" where
  "mqtt_delay_message json b pl =
     (case json (cstr pl) of
        None \<Rightarrow> ([], b)
      | Some j \<Rightarrow>
          (case (dj_topic j, dj_message j) of
             (Some t, Some m) \<Rightarrow>
               mqtt_publish b None (cstr t) \<lparr>message = cstr m, msg_qos = of_int (dj_qos j)\<rparr>
                 ((of_int (dj_retain j) :: u8) \<noteq> 0) (dj_username j) (dj_client_id j) False
           | _ \<Rightarrow> ([], b)))"

end
