(* ===== verification/Broker_Init.thy ===== *)
theory Broker_Init
  imports Broker
begin

text \<open>
  Setting up the broker from the configuration, the second half of \<^verbatim>\<open>mqtt/mqtt_broker.c\<close>. The environment provides
  the contents of files, the rows of the rule table and the names of the parameters that each adaptor registers; listening sockets, connection pools and the cluster are
  events. \<open>None\<close> as a result would mean that loading the rules blocks.
\<close>

record init_env =
  file_contents :: "tmq_str \<Rightarrow> tmq_str option"
  acl_rows :: "acl_row list"
  addr_of_ip :: "tmq_str \<Rightarrow> u32"
  register_parameters :: "nat \<Rightarrow> tmq_str list"

datatype init_event =
    Plugins_Info "(tmq_str, plugin_handle) alist"
  | Mysql_Pool_Init tmq_str int tmq_str tmq_str tmq_str int
  | Mongodb_Pool_Init tmq_str
  | Listen int
  | Listen_Console
  | Listen_Ssl int
  | Ssl_Ctx tmq_str tmq_str
  | Io_Context_Init nat
  | Cluster_Init "tmq_str option" int tmq_str int

definition config_flag :: "tmq_config \<Rightarrow> tmq_str \<Rightarrow> bool" where
  "config_flag cfg key = (case tmq_config_get cfg key of None \<Rightarrow> False | Some v \<Rightarrow> tmq_str_equal v ''true'')"

definition get_or :: "tmq_config \<Rightarrow> tmq_str \<Rightarrow> tmq_str \<Rightarrow> tmq_str" where
  "get_or cfg key def = (case tmq_config_get cfg key of None \<Rightarrow> def | Some v \<Rightarrow> v)"

definition number_or :: "tmq_config \<Rightarrow> tmq_str \<Rightarrow> int \<Rightarrow> int" where
  "number_or cfg key def = (case tmq_config_get cfg key of None \<Rightarrow> def | Some v \<Rightarrow> atoi v)"

definition unsigned_or :: "tmq_config \<Rightarrow> tmq_str \<Rightarrow> int \<Rightarrow> int" where
  "unsigned_or cfg key def = (case tmq_config_get cfg key of None \<Rightarrow> def | Some v \<Rightarrow> strtoul v)"

definition init_plugins :: "init_env \<Rightarrow> (tmq_str, plugin_handle) alist \<Rightarrow> (tmq_str, plugin_handle) alist" where
  "init_plugins env plugins =
     map (\<lambda>(name, h). (name, h\<lparr>adaptor_parameters := adaptor_parameters h @ register_parameters env (plugin_adaptor h)\<rparr>)) plugins"

definition init_mysql :: "init_env \<Rightarrow> tmq_config \<Rightarrow> broker \<Rightarrow> (int \<times> init_event list \<times> broker) res option" where
  "init_mysql env cfg b =
     (if config_flag cfg ''mysql_enable'' then
        let b1 = b\<lparr>mysql_enabled := True\<rparr>
        in case (tmq_config_get cfg ''mysql_username'', tmq_config_get cfg ''mysql_password'') of
             (Some user, Some pwd) \<Rightarrow>
               map_option (\<lambda>r. bind r (\<lambda>acl.
                   Inr (0, [Mysql_Pool_Init (get_or cfg ''mysql_host'' ''localhost'') (number_or cfg ''mysql_port'' 3306) user pwd
                              (get_or cfg ''mysql_db'' ''tinymqtt_db'') (number_or cfg ''mysql_pool_size'' 50)], b1\<lparr>br_acl := acl\<rparr>)))
                 (mysql_load_acl (addr_of_ip env) (acl_rows env) (tmq_acl_init DENY))
           | _ \<Rightarrow> Some (Inr (-1, [], b1))
      else
        Some (bind (tmq_config_init (file_contents env (get_or cfg ''password_file'' ''pwd.conf'')) '':'') (\<lambda>(r, conf).
          if r = 0 then Inr (0, [], b\<lparr>pwd_conf := conf, acl_enabled := False\<rparr>)
          else Inr (-1, [], b\<lparr>pwd_conf := conf\<rparr>))))"

definition init_mongodb :: "tmq_config \<Rightarrow> broker \<Rightarrow> init_event list \<times> broker" where
  "init_mongodb cfg b =
     (case tmq_config_get cfg ''mongodb_uri'' of
        None \<Rightarrow> ([], b)
      | Some uri \<Rightarrow> ([Mongodb_Pool_Init uri], b\<lparr>mongodb_pool := True\<rparr>))"

definition init_ssl :: "tmq_config \<Rightarrow> tmq_cmd \<Rightarrow> broker \<Rightarrow> (init_event list \<times> broker) res" where
  "init_ssl cfg cmd b =
     (if config_flag cfg ''ssl_enable'' then
        case (tmq_config_get cfg ''certfile'', tmq_config_get cfg ''keyfile'') of
          (Some cert, Some key) \<Rightarrow>
            bind (tmq_cmd_get_number cmd ''ssl-port'') (\<lambda>port.
              Inr ([Ssl_Ctx cert key, Listen_Ssl port], b\<lparr>ssl_enabled := True\<rparr>))
        | _ \<Rightarrow> Inr ([], b)
      else Inr ([], b))"

text \<open>The configured address of the registry is replaced by the local one; without one it stays NULL.\<close>

definition init_cluster :: "tmq_config \<Rightarrow> tmq_cmd \<Rightarrow> broker \<Rightarrow> (init_event list \<times> broker) res" where
  "init_cluster cfg cmd b =
     (if config_flag cfg ''cluster_enable'' then
        bind (tmq_cmd_get_number cmd ''cluster-port'') (\<lambda>port.
          Inr ([Cluster_Init (if tmq_config_get cfg ''redis_host'' \<noteq> None then Some ''127.0.0.1'' else None)
                  (number_or cfg ''redis_port'' 6379) (get_or cfg ''node_ip'' ''127.0.0.1'') port],
               b\<lparr>cluster_enabled := True\<rparr>))
      else Inr ([], b))"

text \<open>The state after \<^verbatim>\<open>bzero\<close>; the maps, the tree and the access control are initialised later, if at all.\<close>

definition zero_broker :: "(nat \<Rightarrow> conn_info) \<Rightarrow> broker" where
  "zero_broker conns =
     \<lparr>br_sessions = [], session_at = Map.empty, next_session = 1, topics_tree = topic_tree_node_new, conn_at = conns,
      br_acl = tmq_acl_init ALLOW, pwd_conf = Inl Uninit_Read, next_io_context = 0, io_threads = 0, mysql_enabled = False,
      acl_enabled = False, cluster_enabled = False, ssl_enabled = False, allow_anonymous = False, mongodb_pool = False,
      mongodb_store_trigger = 0, br_inflight_window = 0\<rparr>"

definition tmq_broker_init :: "(nat \<Rightarrow> conn_info) \<Rightarrow> init_env \<Rightarrow> tmq_config \<Rightarrow> tmq_cmd \<Rightarrow>
    (tmq_str, plugin_handle) alist \<Rightarrow> (int \<times> init_event list \<times> broker) res option" where
  "tmq_broker_init conns env cfg cmd plugins =
     (let b = (zero_broker conns)
            \<lparr>acl_enabled := config_flag cfg ''acl_enable'', allow_anonymous := config_flag cfg ''allow_anonymous'',
             mongodb_store_trigger := number_or cfg ''mongodb_store_trigger'' 50\<rparr>;
          evs0 = [Plugins_Info (init_plugins env plugins)]
      in map_option (\<lambda>r. bind r (\<lambda>(st, evs1, b1).
           if st < 0 then Inr (-1, evs0 @ evs1, b1)
           else
             let (evs2, b2) = init_mongodb cfg b1
             in bind (tmq_cmd_get_number cmd ''port'') (\<lambda>port.
                let b3 = b2\<lparr>br_inflight_window := of_int (unsigned_or cfg ''inflight_window'' 1)\<rparr>
                in bind (init_ssl cfg cmd b3) (\<lambda>(evs3, b4).
                   let n = nat (sint (of_int (unsigned_or cfg ''io_threads'' 4) :: 32 word));
                       b5 = b4\<lparr>io_threads := n, next_io_context := 0\<rparr>
                   in bind (init_cluster cfg cmd b5) (\<lambda>(evs4, b6).
                        Inr (0, evs0 @ evs1 @ evs2 @ [Listen port, Listen_Console] @ evs3 @ map Io_Context_Init [0..<n] @ evs4, b6))))))
         (init_mysql env cfg b))"

section \<open>The initial state\<close>

text \<open>What the later stages do not change.\<close>

definition init_core where
  "init_core b = (br_sessions b, session_at b, topics_tree b, br_acl b, pwd_conf b, mysql_enabled b, acl_enabled b, allow_anonymous b)"

lemma later_stages:
  "init_mongodb cfg b = (evs, b') \<Longrightarrow> init_core b' = init_core b"
  "init_ssl cfg cmd b = Inr (evs, b') \<Longrightarrow> init_core b' = init_core b"
  "init_cluster cfg cmd b = Inr (evs, b') \<Longrightarrow> init_core b' = init_core b"
  by (auto simp: init_mongodb_def init_ssl_def init_cluster_def init_core_def bind_eq_Inr split: if_splits option.splits)

lemma init_mysql_ok:
  assumes "init_mysql env cfg b = Some (Inr (st, evs, b'))" and "\<not> st < 0"
  shows "init_core b' =
    (br_sessions b, session_at b, topics_tree b, br_acl b', pwd_conf b', config_flag cfg ''mysql_enable'' \<or> mysql_enabled b,
     config_flag cfg ''mysql_enable'' \<and> acl_enabled b, allow_anonymous b)"
    and "config_flag cfg ''mysql_enable'' \<Longrightarrow>
      mysql_load_acl (addr_of_ip env) (acl_rows env) (tmq_acl_init DENY) = Some (Inr (br_acl b'))"
    and "\<not> config_flag cfg ''mysql_enable'' \<Longrightarrow>
      tmq_config_init (file_contents env (get_or cfg ''password_file'' ''pwd.conf'')) '':'' = Inr (0, pwd_conf b')"
  using assms
  by (auto simp: init_mysql_def init_core_def Let_def bind_eq_Inr split: if_splits option.splits)

lemma broker_init_stages:
  assumes "tmq_broker_init conns env cfg cmd plugins = Some (Inr (0, evs, b))"
  obtains st e1 b1 where
    "init_mysql env cfg ((zero_broker conns)
       \<lparr>acl_enabled := config_flag cfg ''acl_enable'', allow_anonymous := config_flag cfg ''allow_anonymous'',
        mongodb_store_trigger := number_or cfg ''mongodb_store_trigger'' 50\<rparr>) = Some (Inr (st, e1, b1))"
    "\<not> st < 0" "init_core b = init_core b1" "hd evs = Plugins_Info (init_plugins env plugins)"
proof -
  let ?b = "(zero_broker conns)\<lparr>acl_enabled := config_flag cfg ''acl_enable'', allow_anonymous := config_flag cfg ''allow_anonymous'',
        mongodb_store_trigger := number_or cfg ''mongodb_store_trigger'' 50\<rparr>"
  obtain st e1 b1 where m: "init_mysql env cfg ?b = Some (Inr (st, e1, b1))"
    using assms by (auto simp: tmq_broker_init_def Let_def bind_eq_Inr)
  have st: "\<not> st < 0" using assms by (auto simp: tmq_broker_init_def Let_def m)
  obtain e2 b2 where g: "init_mongodb cfg b1 = (e2, b2)" by (cases "init_mongodb cfg b1")
  obtain e3 b4 e4 where s: "init_ssl cfg cmd (b2\<lparr>br_inflight_window := of_int (unsigned_or cfg ''inflight_window'' 1)\<rparr>) = Inr (e3, b4)"
    and c: "init_cluster cfg cmd (b4\<lparr>io_threads := nat (sint (of_int (unsigned_or cfg ''io_threads'' 4) :: 32 word)), next_io_context := 0\<rparr>) = Inr (e4, b)"
    using assms st by (auto simp: tmq_broker_init_def Let_def m g bind_eq_Inr)
  have "init_core b = init_core b1"
    using later_stages(1) [OF g] later_stages(2) [OF s] later_stages(3) [OF c] by (simp add: init_core_def)
  moreover have "hd evs = Plugins_Info (init_plugins env plugins)"
    using assms st by (auto simp: tmq_broker_init_def Let_def m g bind_eq_Inr)
  ultimately show ?thesis by (rule that [OF m st])
qed

text \<open>
  C30. What initialisation establishes: if it succeeds, the broker has no sessions and no subscriptions; access control
  is on exactly when it is configured together with MySQL, and then the rules are those of the table over a default
  of DENY; anonymous access and MySQL are on as configured; without MySQL, the password configuration is what
  \<^verbatim>\<open>tmq_config_init\<close> made of the password file when it returned 0 (which it also does for a file with an error); and first of all each
  plugin got the parameters that its adaptor registers.
\<close>

theorem broker_init_ok:
  assumes "tmq_broker_init conns env cfg cmd plugins = Some (Inr (0, evs, b))"
  shows "br_sessions b = [] \<and> session_at b = Map.empty \<and> topics_tree b = topic_tree_node_new \<and>
    (acl_enabled b \<longrightarrow> config_flag cfg ''acl_enable'' \<and> config_flag cfg ''mysql_enable'' \<and>
       mysql_load_acl (addr_of_ip env) (acl_rows env) (tmq_acl_init DENY) = Some (Inr (br_acl b))) \<and>
    (config_flag cfg ''acl_enable'' \<and> config_flag cfg ''mysql_enable'' \<longrightarrow> acl_enabled b) \<and>
    allow_anonymous b = config_flag cfg ''allow_anonymous'' \<and> mysql_enabled b = config_flag cfg ''mysql_enable'' \<and>
    (\<not> mysql_enabled b \<longrightarrow>
       tmq_config_init (file_contents env (get_or cfg ''password_file'' ''pwd.conf'')) '':'' = Inr (0, pwd_conf b)) \<and>
    hd evs = Plugins_Info (map (\<lambda>(name, h). (name, h\<lparr>adaptor_parameters := adaptor_parameters h @ register_parameters env (plugin_adaptor h)\<rparr>)) plugins)"
proof -
  obtain st e1 b1 where m: "init_mysql env cfg ((zero_broker conns)
       \<lparr>acl_enabled := config_flag cfg ''acl_enable'', allow_anonymous := config_flag cfg ''allow_anonymous'',
        mongodb_store_trigger := number_or cfg ''mongodb_store_trigger'' 50\<rparr>) = Some (Inr (st, e1, b1))"
    "\<not> st < 0" "init_core b = init_core b1" "hd evs = Plugins_Info (init_plugins env plugins)"
    using assms by (rule broker_init_stages)
  note i = init_mysql_ok [OF m(1,2)]
  show ?thesis using i m(3,4) by (auto simp: init_core_def zero_broker_def init_plugins_def)
qed


definition example_env :: init_env where
  "example_env = \<lparr>file_contents = (\<lambda>_. Some []), acl_rows = [], addr_of_ip = (\<lambda>_. 0), register_parameters = (\<lambda>_. [])\<rparr>"

definition example_conns :: "nat \<Rightarrow> conn_info" where
  "example_conns c = \<lparr>io_index = 0, conn_id = ''127.0.0.1:5000'', peer_ip = 0\<rparr>"

definition example_cfg :: tmq_config where
  "example_cfg = \<lparr>cfg_file = [], cfg_mod = False,
     cfg_map = [(''acl_enable'', \<lparr>cv_value = ''true'', cv_modified = False, cv_deleted = False\<rparr>)], new_items = [], delimeter = ''=''\<rparr>"

theorem broker_init_ok_witness:
  "\<exists>evs b. tmq_broker_init example_conns example_env example_cfg tmq_cmd_init [] = Some (Inr (0, evs, b)) \<and>
     br_sessions b = [] \<and> \<not> acl_enabled b"
proof -
  have g: "tmq_config_get example_cfg k = (if cstr k = ''acl_enable'' then Some ''true'' else None)" for k
    by (simp add: tmq_config_get_def example_cfg_def)
  have r: "read_config_file '':'' [] [] = Inr (0, [])"
    by (simp add: read_config_file_def read_lines.simps fgets_def flush_def)
  have n: "tmq_cmd_get_number tmq_cmd_init k = Inr 0" for k by (simp add: tmq_cmd_get_number_def tmq_cmd_init_def)
  have fl: "config_flag example_cfg k = (cstr k = ''acl_enable'')" for k by (simp add: config_flag_def g tmq_str_equal_def)
  have "\<exists>evs b. tmq_broker_init example_conns example_env example_cfg tmq_cmd_init [] = Some (Inr (0, evs, b))"
    by (simp add: tmq_broker_init_def init_mysql_def fl init_mongodb_def g init_ssl_def init_cluster_def n
        tmq_config_init_def example_env_def r MAX_DELIMETER_SIZE_def Let_def)
  then obtain evs b where b: "tmq_broker_init example_conns example_env example_cfg tmq_cmd_init [] = Some (Inr (0, evs, b))"
    by (elim exE) (rule that)
  have "\<not> config_flag example_cfg ''mysql_enable''" by (simp add: fl)
  then show ?thesis using broker_init_ok [OF b] b by blast
qed

end
