(* ===== verification/Io_Context.thy ===== *)
theory Io_Context
  imports Broker Decode
begin

text \<open>
  The I/O threads, \<^verbatim>\<open>mqtt/mqtt_io_context.c\<close>, with the parts of \<^verbatim>\<open>net/mqtt_tcp_conn.c\<close> that change the state of a
  connection, on top of the broker: the queues of the executor, the thread pool and the mailboxes connect the
  threads. A connection is its position in \<open>conns\<close>; what it was created with (I/O thread, name, peer) is in \<open>conn_at\<close> of
  the broker. Mails of all I/O threads are in one list with the index of the thread: \<^verbatim>\<open>tmq_mailbox_push\<close> appends, and a
  thread handles its own mails in order (\<open>first_mail\<close>), which is what \<^verbatim>\<open>mail_callback\<close> does when it swaps out the
  list and walks over it. What is written to a connection is recorded in \<open>written\<close>; a write that fails closes the connection, in the
  middle of the handler that writes.

  The context of a connection has \<^verbatim>\<open>upstream.session\<close> as \<open>Some\<close> address when the union holds a session. Connections of the
  console have a context of another type, without a session, and no \<^verbatim>\<open>on_close\<close>.
\<close>

datatype tcp_conn_state = SSL_HANDSHAKING | CONNECTED | DISCONNECTING | DISCONNECTED

record io_conn =
  is_console :: bool
  tcp_state :: tcp_conn_state
  ctx_state :: conn_state_e
  ctx_session :: "addr option"

record system =
  br :: broker
  high :: "broker_task list"
  low :: "broker_task list"
  pool :: "pool_task list"
  conns :: "io_conn list"
  responses :: "(nat \<times> session_connect_resp) list"
  broadcasts :: "(nat \<times> broadcast_ctx) list"
  sends :: "(nat \<times> nat \<times> any_packet) list"
  written :: "(nat \<times> any_packet) list"

section \<open>Effects of the broker's functions\<close>

text \<open>\<^verbatim>\<open>tmq_executor_post\<close> and \<^verbatim>\<open>tmq_mailbox_push\<close>; the reference counts of connections are not modelled.\<close>

fun emit :: "broker_event \<Rightarrow> system \<Rightarrow> system" where
  "emit (Post t p) sys = (if p = 0 then sys\<lparr>low := low sys @ [t]\<rparr> else sys\<lparr>high := high sys @ [t]\<rparr>)"
| "emit (Pool_Task t) sys = sys\<lparr>pool := pool sys @ [t]\<rparr>"
| "emit (Connect_Response i r) sys = sys\<lparr>responses := responses sys @ [(i, r)]\<rparr>"
| "emit (Packet_Send i c p) sys = sys\<lparr>sends := sends sys @ [(i, c, p)]\<rparr>"
| "emit (Broadcast i x) sys = sys\<lparr>broadcasts := broadcasts sys @ [(i, x)]\<rparr>"
| "emit (Write c p) sys = sys\<lparr>written := written sys @ [(c, p)]\<rparr>"
| "emit _ sys = sys"

definition emits :: "broker_event list \<Rightarrow> system \<Rightarrow> system" where
  "emits evs sys = fold emit evs sys"

fun first_mail :: "nat \<Rightarrow> (nat \<times> 'a) list \<Rightarrow> ('a \<times> (nat \<times> 'a) list) option" where
  "first_mail i [] = None"
| "first_mail i ((j, x) # ms) =
     (if j = i then Some (x, ms) else map_option (\<lambda>(y, ms'). (y, (j, x) # ms')) (first_mail i ms))"

section \<open>Closing connections\<close>

definition set_conn :: "nat \<Rightarrow> io_conn \<Rightarrow> system \<Rightarrow> system" where
  "set_conn c k sys = sys\<lparr>conns := (conns sys)[c := k]\<rparr>"

definition tcp_conn_close_callback :: "nat \<Rightarrow> system \<Rightarrow> system" where
  "tcp_conn_close_callback c sys =
     (let k = conns sys ! c
      in if ctx_state k = IN_SESSION
         then emits [Post (Handle_Session_Req (Session_Force_Close (ctx_session k))) 1]
                (set_conn c (k\<lparr>ctx_state := NO_SESSION\<rparr>) sys)
         else sys)"

definition conn_close :: "nat \<Rightarrow> system \<Rightarrow> system" where
  "conn_close c sys =
     (if tcp_state (conns sys ! c) = DISCONNECTED then sys
      else
        let sys' = (if is_console (conns sys ! c) then sys else tcp_conn_close_callback c sys)
        in set_conn c ((conns sys' ! c)\<lparr>tcp_state := DISCONNECTED\<rparr>) sys')"

text \<open>
  The SSL handshake, on a read or write event of a connection that is not yet connected: \<open>r\<close> is what the library answered
  (\<open>Some True\<close> for success, \<open>None\<close> when it wants more data).
\<close>

definition ssl_handshake :: "bool option \<Rightarrow> nat \<Rightarrow> system \<Rightarrow> system" where
  "ssl_handshake r c sys =
     (if tcp_state (conns sys ! c) \<noteq> SSL_HANDSHAKING then sys
      else case r of
             None \<Rightarrow> sys
           | Some True \<Rightarrow> set_conn c ((conns sys ! c)\<lparr>tcp_state := CONNECTED\<rparr>) sys
           | Some False \<Rightarrow> conn_close c sys)"

text \<open>
  \<^verbatim>\<open>tmq_tcp_conn_write\<close>: nothing is written to a closed connection, and an error of the socket closes it at once. \<open>bad c n\<close> says that writing
  to connection \<open>c\<close> fails when \<open>n\<close> packets have been written before. (Connections stay in the list when they are closed, so there is no index
  beyond it.) \<open>io_emits\<close> are the effects of a handler of an I/O thread.
\<close>

type_synonym write_errors = "nat \<Rightarrow> nat \<Rightarrow> bool"

definition conn_write :: "write_errors \<Rightarrow> nat \<Rightarrow> any_packet \<Rightarrow> system \<Rightarrow> system" where
  "conn_write bad c p sys =
     (if length (conns sys) \<le> c \<or> tcp_state (conns sys ! c) = DISCONNECTED then sys
      else if bad c (length (written sys)) then conn_close c sys
      else sys\<lparr>written := written sys @ [(c, p)]\<rparr>)"

fun io_emit :: "write_errors \<Rightarrow> broker_event \<Rightarrow> system \<Rightarrow> system" where
  "io_emit bad (Write c p) sys = conn_write bad c p sys"
| "io_emit bad e sys = emit e sys"

definition io_emits :: "write_errors \<Rightarrow> broker_event list \<Rightarrow> system \<Rightarrow> system" where
  "io_emits bad evs sys = fold (io_emit bad) evs sys"

text \<open>
  The keep-alive timer of thread \<open>i\<close>: the connections of the thread whose session has been silent for one and a
  half intervals. \<open>open_conns\<close> is the iteration over \<^verbatim>\<open>tcp_conns\<close>, which has the connections of the console too. Their
  context is read as if it were one of MQTT: at the place of \<^verbatim>\<open>conn_state\<close> it has the state of its parser, which is 0 or 1, so
  that it reads as \<open>NO_SESSION\<close> or \<open>STARTING_SESSION\<close> and the connection is passed over.
\<close>

definition open_conns :: "nat \<Rightarrow> system \<Rightarrow> nat list" where
  "open_conns i sys =
     filter (\<lambda>c. io_index (conn_at (br sys) c) = i \<and> tcp_state (conns sys ! c) \<noteq> DISCONNECTED) [0..<length (conns sys)]"

fun timeout_conns :: "int \<Rightarrow> system \<Rightarrow> nat list \<Rightarrow> nat list res" where
  "timeout_conns now sys [] = Inr []"
| "timeout_conns now sys (c # cs) =
     (let k = conns sys ! c
      in if is_console k \<or> ctx_state k \<noteq> IN_SESSION then timeout_conns now sys cs
         else bind (deref_session (br sys) (ctx_session k)) (\<lambda>(a, s).
              bind (timeout_conns now sys cs) (\<lambda>r.
                Inr (if s_keep_alive s \<noteq> 0 \<and> now - last_pkt_ts s \<ge> 1500000 * int (unat (s_keep_alive s)) then c # r else r))))"

definition mqtt_keepalive :: "nat \<Rightarrow> int \<Rightarrow> system \<Rightarrow> system res" where
  "mqtt_keepalive i now sys =
     bind (timeout_conns now sys (open_conns i sys)) (\<lambda>cs. Inr (fold conn_close cs sys))"

section \<open>Mail handlers\<close>

text \<open>The socket of a new connection; the top bit marks a connection to the SSL port.\<close>

definition mail_socket :: "u64 \<Rightarrow> bool \<times> u64" where
  "mail_socket m =
     (if m AND push_bit 63 1 \<noteq> 0 then (True, m AND NOT (push_bit 63 1)) else (False, m))"

text \<open>
  A new connection of thread \<open>i\<close>, of the console when its socket is local. \<^verbatim>\<open>tmq_tcp_conn_new\<close> registers two handlers, each of which has a
  reference to the connection, and \<^verbatim>\<open>tcp_conns\<close> gets one; the handler asserts that there are three.
\<close>

definition new_conn_refs :: nat where "new_conn_refs = 2"

definition new_tcp_connection_handler :: "nat \<Rightarrow> bool \<Rightarrow> tmq_str \<Rightarrow> u32 \<Rightarrow> u64 \<Rightarrow> system \<Rightarrow> system res" where
  "new_tcp_connection_handler i local name ip m sys =
     (let (is_ssl, sock) = mail_socket m; c = length (conns sys)
      in if new_conn_refs + 1 \<noteq> 3 then Inl Assert_Failed
         else Inr (sys\<lparr>conns := conns sys @ [\<lparr>is_console = local, tcp_state = (if is_ssl then SSL_HANDSHAKING else CONNECTED),
                                  ctx_state = NO_SESSION, ctx_session = None\<rparr>],
             br := (br sys)\<lparr>conn_at := (conn_at (br sys))(c := \<lparr>io_index = i, conn_id = name, peer_ip = ip\<rparr>)\<rparr>\<rparr>))"

text \<open>
  \<^verbatim>\<open>a && b || c\<close> groups as \<^verbatim>\<open>(a && b) || c\<close>: a refused connection that was closed meanwhile takes the first branch, with a
  NULL session. Packets resent when the session starts are written to the connection of the session.
\<close>

definition session_writes :: "nat \<Rightarrow> session_event list \<Rightarrow> broker_event list" where
  "session_writes c evs = concat (map (\<lambda>e. case e of Session.Send p \<Rightarrow> [Write c p] | _ \<Rightarrow> []) evs)"

definition connect_complete_handler :: "write_errors \<Rightarrow> session_connect_resp \<Rightarrow> system \<Rightarrow> system res" where
  "connect_complete_handler bad r sys =
     (let c = resp_conn r; k = conns sys ! c
      in if (resp_code r = CONNECTION_ACCEPTED \<and> ctx_state k = NO_SESSION) \<or> tcp_state k \<noteq> CONNECTED
         then Inr (emits [Post (Handle_Session_Req (if ctx_state k = NO_SESSION then Session_Disconnect (resp_session r)
                                                   else Session_Force_Close (resp_session r))) 1] sys)
         else
           let sys1 = (if resp_code r = CONNECTION_ACCEPTED
                 then set_conn c (k\<lparr>ctx_session := resp_session r, ctx_state := IN_SESSION\<rparr>) sys else sys);
               sys2 = io_emits bad [Write c (CONNACK \<lparr>ack_flags = (if session_present r then 1 else 0), return_code = connack_code (resp_code r)\<rparr>)] sys1
           in if resp_code r = CONNECTION_ACCEPTED
              then bind (deref_session (br sys2) (resp_session r)) (\<lambda>(a, s).
                     case tmq_session_start s of
                       None \<Rightarrow> Inl Out_Of_Bounds
                     | Some r' \<Rightarrow> bind r' (\<lambda>evs. Inr (io_emits bad (session_writes (s_conn s) evs) sys2)))
              else Inr sys2)"

definition send_packet_handler :: "write_errors \<Rightarrow> nat \<Rightarrow> any_packet \<Rightarrow> system \<Rightarrow> system" where
  "send_packet_handler bad c p sys = io_emits bad [Write c p] sys"

fun broadcast_loop :: "write_errors \<Rightarrow> int \<Rightarrow> broadcast_ctx \<Rightarrow> subscribe_info list \<Rightarrow> system \<Rightarrow> system res" where
  "broadcast_loop bad now x [] sys = Inr sys"
| "broadcast_loop bad now x (info # is) sys =
     bind (get_session (br sys) (sub_session info)) (\<lambda>s.
       let qos = (if sub_qos info < msg_qos (bc_message x) then sub_qos info else msg_qos (bc_message x))
       in bind (tmq_session_publish now (bc_topic x) (message (bc_message x)) qos (if bc_retain x then 1 else 0)
                  (is_session_closed info) s) (\<lambda>(evs, s').
          bind (release_session (put_session (br sys) (sub_session info) s') (sub_session info)) (\<lambda>b.
            broadcast_loop bad now x is (io_emits bad (session_writes (s_conn s) evs) (sys\<lparr>br := b\<rparr>)))))"

definition broadcast_handler :: "write_errors \<Rightarrow> int \<Rightarrow> broadcast_ctx \<Rightarrow> system \<Rightarrow> system res" where
  "broadcast_handler bad now x sys = broadcast_loop bad now x (bc_subscribers x) sys"

end
