(* ===== verification/Broker_Inv.thy ===== *)
theory Broker_Inv
  imports Broker
begin

text \<open>
  The invariant of the broker's tables and what the tasks of the broker thread do to it. \<open>broker_inv b R\<close>: every
  session in the table is alive and filed under its client identifier; a closed session in the table is
  persistent; an open one is in the table; the reference count of a session is one for the table plus the
  references \<open>R\<close> held by broadcast tasks; and every subscription in the topic tree points to the session that the
  table has for the client. The theorems are for a broker with its messages in memory, without access control,
  cluster and retained messages (the findings say why the last two restrictions are there).
\<close>

section \<open>What session handlers do not change\<close>

definition fixed where
  "fixed s = (s_client_id s, s_state s, s_clean_session s, has_on_close s, io_context_idx s, s_conn s, s_will_topic s,
     s_will_message s, s_will_qos s, s_will_retain s)"

lemma memory_store_fixed:
  "memory_store_store_message h st se p = Inr (b, h', st', se') \<Longrightarrow> \<exists>k. se' = se\<lparr>inflight_packets := k\<rparr>"
  by (rule exI [of _ "inflight_packets se'"])
     (auto simp: memory_store_store_message_def bind_eq_Inr Let_def split: if_splits)

lemma memory_ack_fixed:
  assumes "memory_store_acknowledge now h st se pid ty qos = Inr (nx, fin, h', st', se')"
  shows "\<exists>k. se' = se\<lparr>inflight_packets := k\<rparr>"
  using assms
  by (intro exI [of _ "inflight_packets se'"])
     (auto simp: memory_store_acknowledge_def advance_pending_def bind_eq_Inr Let_def split: option.splits if_splits)

definition in_memory :: "tmq_session \<Rightarrow> bool" where
  "in_memory s \<longleftrightarrow> (\<exists>st. s_store s = Memory_Store st)"

lemma store_message_fixed:
  assumes "in_memory s" and "store_message s a = Inr (b, evs, s')"
  shows "fixed s' = fixed s \<and> subscriptions s' = subscriptions s \<and> in_memory s' \<and> evs = []"
  using assms by (auto simp: in_memory_def store_message_def bind_eq_Inr fixed_def dest!: memory_store_fixed)

lemma acknowledge_fixed:
  assumes "in_memory s" and "acknowledge now s pid ty qos = Inr (evs, s')"
  shows "fixed s' = fixed s \<and> subscriptions s' = subscriptions s \<and> in_memory s'"
  using assms
  by (auto simp: in_memory_def acknowledge_def acknowledge_and_next_def bind_eq_Inr fixed_def
      dest!: memory_ack_fixed split: option.splits)


lemma set_send_time_fixed:
  "set_send_time now a s = Inr s' \<Longrightarrow> fixed s' = fixed s \<and> subscriptions s' = subscriptions s \<and> in_memory s' = in_memory s"
  by (auto simp: set_send_time_def bind_eq_Inr fixed_def in_memory_def)

lemma fixed_updates [simp]:
  "fixed (s\<lparr>last_pkt_ts := t\<rparr>) = fixed s" "in_memory (s\<lparr>last_pkt_ts := t\<rparr>) = in_memory s"
  "fixed (s\<lparr>next_packet_id := i\<rparr>) = fixed s" "in_memory (s\<lparr>next_packet_id := i\<rparr>) = in_memory s"
  "fixed (s\<lparr>s_heap := h, next_addr := n\<rparr>) = fixed s" "in_memory (s\<lparr>s_heap := h, next_addr := n\<rparr>) = in_memory s"
  by (simp_all add: fixed_def in_memory_def)

fun subs_after :: "session_op \<Rightarrow> (tmq_str, u8) alist \<Rightarrow> (tmq_str, u8) alist" where
  "subs_after (In_Subscribe p) m = fold (\<lambda>tf m. al_put m (cstr (topic_filter tf)) (tf_qos tf)) (sub_topics p) m"
| "subs_after (In_Unsubscribe p) m = fold (\<lambda>tf m. al_erase m (cstr tf)) (unsub_topics p) m"
| "subs_after _ m = m"

lemma alloc_fixed:
  "fst (alloc_packet s p i) = next_addr s" "fixed (snd (alloc_packet s p i)) = fixed s"
  "subscriptions (snd (alloc_packet s p i)) = subscriptions s" "in_memory (snd (alloc_packet s p i)) = in_memory s"
  by (simp_all add: alloc_packet_def)

text \<open>A packet is stored, and its time is set when it is sent at once: both outgoing operations end so.\<close>

lemma stored_fixed:
  assumes "in_memory s" and "store_message (snd (alloc_packet s p i)) a = Inr (b, evs, s3)"
    and "(if b then set_send_time now a s3 else Inr s3) = Inr s'"
  shows "fixed s' = fixed s \<and> subscriptions s' = subscriptions s \<and> in_memory s'"
proof -
  have "fixed s3 = fixed s \<and> subscriptions s3 = subscriptions s \<and> in_memory s3"
    using store_message_fixed [OF _ assms(2)] assms(1) by (simp add: alloc_fixed)
  then show ?thesis using assms(3) set_send_time_fixed [of now a s3 s'] by (cases b) auto
qed

lemma publish_fixed:
  assumes "in_memory s" and "tmq_session_publish now t pl qos r so s = Inr (evs, s')"
  shows "fixed s' = fixed s \<and> subscriptions s' = subscriptions s \<and> in_memory s'"
proof (cases "qos > 0")
  case True
  let ?s1 = "s\<lparr>next_packet_id := bump_packet_id (next_packet_id s)\<rparr>"
  let ?pkt = "\<lparr>pub_flags = r OR push_bit 1 qos, topic = cstr t, packet_id = next_packet_id s, payload = cstr pl\<rparr>"
  let ?s2 = "snd (alloc_packet ?s1 (PUBLISH (tmq_publish_pkt_clone ?pkt)) (next_packet_id s))"
  have "\<exists>b evs s3. store_message ?s2 (next_addr s) = Inr (b, evs, s3) \<and>
      (if b then set_send_time now (next_addr s) s3 else Inr s3) = Inr s'"
    using assms(2) True by (cases "store_message ?s2 (next_addr s)")
      (auto simp: tmq_session_publish_def Let_def split_beta alloc_fixed bind_eq_Inr split: if_splits)
  then show ?thesis using stored_fixed [of ?s1] assms(1) by fastforce
next
  case False
  then show ?thesis using assms by (auto simp: tmq_session_publish_def)
qed

lemma pubrec_fixed:
  assumes "in_memory s" and "tmq_session_handle_pubrec now i s = Inr (evs, s')"
  shows "fixed s' = fixed s \<and> subscriptions s' = subscriptions s \<and> in_memory s'"
proof -
  obtain evs1 s1 where s1: "acknowledge now (s\<lparr>last_pkt_ts := now\<rparr>) i MQTT_PUBLISH 2 = Inr (evs1, s1)"
    using assms(2) by (auto simp: tmq_session_handle_pubrec_def bind_eq_Inr)
  have f1: "fixed s1 = fixed s" "subscriptions s1 = subscriptions s" "in_memory s1"
    using acknowledge_fixed [OF _ s1] assms(1) by auto
  let ?s2 = "snd (alloc_packet s1 (PUBREL i) i)"
  have "\<exists>b evs s3. store_message ?s2 (next_addr s1) = Inr (b, evs, s3) \<and>
      (if b then set_send_time now (next_addr s1) s3 else Inr s3) = Inr s'"
    using assms(2) s1 by (cases "store_message ?s2 (next_addr s1)")
      (auto simp: tmq_session_handle_pubrec_def Let_def split_beta alloc_fixed bind_eq_Inr split: if_splits)
  then show ?thesis using stored_fixed [OF f1(3)] f1 by fastforce
qed

lemma session_step_fixed:
  assumes "in_memory s" and "session_step now op s = Inr (evs, s')"
  shows "fixed s' = fixed s \<and> subscriptions s' = subs_after op (subscriptions s) \<and> in_memory s'"
proof (cases op)
  case (In_Puback i)
  then show ?thesis using assms acknowledge_fixed [of "s\<lparr>last_pkt_ts := now\<rparr>" now i MQTT_PUBLISH 1 evs s']
    by (simp add: tmq_session_handle_puback_def)
next
  case (In_Pubcomp i)
  then show ?thesis using assms acknowledge_fixed [of "s\<lparr>last_pkt_ts := now\<rparr>" now i MQTT_PUBREL "- 1" evs s']
    by (simp add: tmq_session_handle_pubcomp_def)
next
  case (In_Pubrec i)
  then show ?thesis using assms pubrec_fixed by simp
next
  case (Out_Publish t p q r so)
  then show ?thesis using assms publish_fixed by simp
next
  case (In_Publish p)
  then show ?thesis using assms
    by (auto simp: tmq_session_handle_publish_def Let_def fixed_def in_memory_def split: if_splits)
next
  case (In_Pubrel i)
  then show ?thesis using assms by (auto simp: tmq_session_handle_pubrel_def fixed_def in_memory_def)
next
  case (In_Subscribe p)
  then show ?thesis using assms by (auto simp: tmq_session_handle_subscribe_def Let_def fixed_def in_memory_def)
next
  case (In_Unsubscribe p)
  then show ?thesis using assms by (auto simp: tmq_session_handle_unsubscribe_def Let_def fixed_def in_memory_def)
next
  case In_Pingreq
  then show ?thesis using assms by (auto simp: tmq_session_handle_pingreq_def fixed_def in_memory_def)
qed

section \<open>The invariant\<close>

definition filters_of :: "tmq_session \<Rightarrow> tmq_str list set" where
  "filters_of s = (\<lambda>f. tmq_topic_split (cstr f)) ` fst ` set (subscriptions s)"

definition will_ok :: "tmq_session \<Rightarrow> bool" where
  "will_ok s \<longleftrightarrow> s_will_retain s = 0 \<and> (\<forall>t. s_will_topic s = Some t \<longrightarrow> plain (tmq_topic_split (cstr t)))"

definition session_ok :: "nat \<Rightarrow> tmq_session \<Rightarrow> bool" where
  "session_ok n s \<longleftrightarrow> (\<exists>as. session_inv s as) \<and> has_on_close s \<and> unat (io_context_idx s) < n \<and> will_ok s \<and>
     cstr (s_client_id s) = s_client_id s \<and> al_ok (subscriptions s) \<and> (\<forall>f\<in>fst ` set (subscriptions s). cstr f = f)"

definition tree_subs :: "broker \<Rightarrow> tmq_str \<Rightarrow> tmq_str list set" where
  "tree_subs b c = {f. subs_at (topics_tree b) f c \<noteq> None}"

definition session_of :: "broker \<Rightarrow> tmq_str \<Rightarrow> tmq_session option" where
  "session_of b c =
     (case map_of (br_sessions b) c of None \<Rightarrow> None | Some a \<Rightarrow> map_option fst (session_at b a))"

definition sess_subs :: "broker \<Rightarrow> tmq_str \<Rightarrow> tmq_str list set" where
  "sess_subs b c = (case session_of b c of None \<Rightarrow> {} | Some s \<Rightarrow> filters_of s)"

definition open_sessions :: "broker \<Rightarrow> addr set" where
  "open_sessions b = {a. \<exists>s n. session_at b a = Some (s, n) \<and> s_state s = OPEN}"

definition table_ref :: "broker \<Rightarrow> tmq_session \<Rightarrow> addr \<Rightarrow> int" where
  "table_ref b s a = (if map_of (br_sessions b) (s_client_id s) = Some a then 1 else 0)"

definition config_ok :: "broker \<Rightarrow> bool" where
  "config_ok b \<longleftrightarrow> \<not> acl_enabled b \<and> \<not> cluster_enabled b \<and> \<not> mongodb_pool b \<and> io_threads b \<le> 256 \<and>
     (\<forall>c. io_index (conn_at b c) < io_threads b) \<and> next_io_context b < io_threads b \<and>
     (allow_anonymous b \<or> mysql_enabled b \<or> (\<exists>cfg. pwd_conf b = Inr cfg))"

definition tree_inv :: "broker \<Rightarrow> bool" where
  "tree_inv b \<longleftrightarrow> topics_inv (topics_tree b) \<and> retained_at (topics_tree b) = Map.empty \<and>
     (\<forall>f c info. subs_at (topics_tree b) f c = Some info \<longrightarrow> map_of (br_sessions b) c = Some (sub_session info))"

definition broker_inv :: "broker \<Rightarrow> addr multiset \<Rightarrow> bool" where
  "broker_inv b R \<longleftrightarrow> config_ok b \<and> tree_inv b \<and>
     (\<forall>c a. map_of (br_sessions b) c = Some a \<longrightarrow>
        (\<exists>s n. session_at b a = Some (s, n) \<and> s_client_id s = c \<and> (s_state s = CLOSED \<longrightarrow> s_clean_session s = 0))) \<and>
     (\<forall>a s n. session_at b a = Some (s, n) \<longrightarrow>
        a < next_session b \<and> session_ok (io_threads b) s \<and>
        (s_state s = OPEN \<longrightarrow> map_of (br_sessions b) (s_client_id s) = Some a) \<and>
        n = table_ref b s a + int (count R a) \<and> 0 < n) \<and>
     (\<forall>a. a \<in># R \<longrightarrow> session_at b a \<noteq> None)"

lemma broker_invD:
  assumes "broker_inv b R"
  shows "config_ok b" and "tree_inv b"
    and "map_of (br_sessions b) c = Some a \<Longrightarrow>
      \<exists>s n. session_at b a = Some (s, n) \<and> s_client_id s = c \<and> (s_state s = CLOSED \<longrightarrow> s_clean_session s = 0)"
    and "session_at b a = Some (s, n) \<Longrightarrow> a < next_session b \<and> session_ok (io_threads b) s \<and>
        (s_state s = OPEN \<longrightarrow> map_of (br_sessions b) (s_client_id s) = Some a) \<and>
        n = table_ref b s a + int (count R a) \<and> 0 < n"
    and "a \<in># R \<Longrightarrow> session_at b a \<noteq> None"
  using assms unfolding broker_inv_def by blast+


lemma broker_invI:
  assumes "config_ok b" and "tree_inv b"
    and "\<And>c a. map_of (br_sessions b) c = Some a \<Longrightarrow>
      \<exists>s n. session_at b a = Some (s, n) \<and> s_client_id s = c \<and> (s_state s = CLOSED \<longrightarrow> s_clean_session s = 0)"
    and "\<And>a s n. session_at b a = Some (s, n) \<Longrightarrow> a < next_session b \<and> session_ok (io_threads b) s \<and>
        (s_state s = OPEN \<longrightarrow> map_of (br_sessions b) (s_client_id s) = Some a) \<and>
        n = table_ref b s a + int (count R a) \<and> 0 < n"
    and "\<And>a. a \<in># R \<Longrightarrow> session_at b a \<noteq> None"
  shows "broker_inv b R"
  using assms unfolding broker_inv_def by blast

lemma unsubscribe_all_ok:
  assumes "topics_inv t" and "distinct (map (\<lambda>f. tmq_topic_split (cstr f)) fs)"
    and "\<And>f. f \<in> set fs \<Longrightarrow> subs_at t (tmq_topic_split (cstr f)) (cstr cid) \<noteq> None"
  shows "\<exists>t'. unsubscribe_all fs cid t = Inr t' \<and> topics_inv t' \<and> retained_at t' = retained_at t \<and>
    subs_at t' = (\<lambda>p c. if c = cstr cid \<and> p \<in> (\<lambda>f. tmq_topic_split (cstr f)) ` set fs then None else subs_at t p c)"
  using assms
proof (induction fs arbitrary: t)
  case (Cons f fs)
  let ?f = "tmq_topic_split (cstr f)"
  have "subs_at t ?f \<noteq> Map.empty" using Cons.prems(3) [of f] by auto
  then obtain t1 where t1: "tmq_topics_remove_subscription t f cid = Inr t1" "topics_inv t1"
      "subs_at t1 = (subs_at t)(?f := (subs_at t ?f)(cstr cid := None))" "retained_at t1 = retained_at t"
    using unsubscribe_ok [OF Cons.prems(1)] by blast
  have "subs_at t1 (tmq_topic_split (cstr g)) (cstr cid) \<noteq> None" if "g \<in> set fs" for g
  proof -
    have "tmq_topic_split (cstr g) \<in> (\<lambda>f. tmq_topic_split (cstr f)) ` set fs" using that by blast
    then have "tmq_topic_split (cstr g) \<noteq> ?f" using Cons.prems(2) by auto
    then show ?thesis using Cons.prems(3) [of g] that t1(3) by simp
  qed
  then obtain t' where t': "unsubscribe_all fs cid t1 = Inr t'" "topics_inv t'" "retained_at t' = retained_at t1"
      "subs_at t' = (\<lambda>p c. if c = cstr cid \<and> p \<in> (\<lambda>f. tmq_topic_split (cstr f)) ` set fs then None else subs_at t1 p c)"
    using Cons.IH [OF t1(2)] Cons.prems(2) by auto
  have "subs_at t' = (\<lambda>p c. if c = cstr cid \<and> p \<in> (\<lambda>f. tmq_topic_split (cstr f)) ` set (f # fs) then None else subs_at t p c)"
    by (intro ext) (auto simp: t'(4) t1(3))
  then show ?case using t1(1,4) t'(1,2,3) by simp
qed simp

lemma topic_split_inj: "cstr f = f \<Longrightarrow> cstr g = g \<Longrightarrow> tmq_topic_split (cstr f) = tmq_topic_split (cstr g) \<Longrightarrow> f = g"
  by (metis join_split)

lemma session_filters:
  assumes "session_ok n s"
  shows "distinct (map (\<lambda>f. tmq_topic_split (cstr f)) (map fst (subscriptions s)))"
    and "(\<lambda>f. tmq_topic_split (cstr f)) ` set (map fst (subscriptions s)) = filters_of s"
proof -
  have "al_ok (subscriptions s)" "\<forall>f\<in>fst ` set (subscriptions s). cstr f = f" using assms by (auto simp: session_ok_def)
  moreover have "inj_on (\<lambda>f. tmq_topic_split (cstr f)) A" if "\<forall>f\<in>A. cstr f = f" for A
    using that topic_split_inj by (intro inj_onI) metis
  ultimately show "distinct (map (\<lambda>f. tmq_topic_split (cstr f)) (map fst (subscriptions s)))"
    unfolding distinct_map [of _ "map fst _"] by (simp add: al_ok_def)
  show "(\<lambda>f. tmq_topic_split (cstr f)) ` set (map fst (subscriptions s)) = filters_of s"
    by (simp add: filters_of_def)
qed

section \<open>Changing a session\<close>

lemma put_session_fields [simp]:
  "br_sessions (put_session b a s) = br_sessions b" "topics_tree (put_session b a s) = topics_tree b"
  "next_session (put_session b a s) = next_session b" "config_ok (put_session b a s) = config_ok b"
  "tree_inv (put_session b a s) = tree_inv b" "io_threads (put_session b a s) = io_threads b"
  "tree_subs (put_session b a s) = tree_subs b" "conn_at (put_session b a s) = conn_at b"
  by (simp_all add: put_session_def config_ok_def tree_inv_def tree_subs_def fun_eq_iff)

lemma table_ref_put [simp]: "table_ref (put_session b a s) = table_ref b"
  by (simp add: table_ref_def fun_eq_iff)

lemma session_at_put:
  "session_at b a = Some (s, n) \<Longrightarrow> session_at (put_session b a s') = (session_at b)(a \<mapsto> (s', n))"
  by (simp add: put_session_def)

lemma put_session_inv:
  assumes "broker_inv b R" and "session_at b a = Some (s, n)" and "s_client_id s' = s_client_id s"
    and "session_ok (io_threads b) s'"
    and "s_state s' = OPEN \<Longrightarrow> map_of (br_sessions b) (s_client_id s) = Some a"
    and "s_state s' = CLOSED \<Longrightarrow> map_of (br_sessions b) (s_client_id s) = Some a \<Longrightarrow> s_clean_session s' = 0"
  shows "broker_inv (put_session b a s') R"
    and "open_sessions (put_session b a s') = (if s_state s' = OPEN then insert a (open_sessions b) else open_sessions b - {a})"
    and "session_of (put_session b a s') c =
      (if map_of (br_sessions b) c = Some a then Some s' else session_of b c)"
proof -
  note at = session_at_put [OF assms(2), of s']
  note D = broker_invD [OF assms(1)]
  show "broker_inv (put_session b a s') R"
  proof (rule broker_invI)
    fix c a' assume "map_of (br_sessions (put_session b a s')) c = Some a'"
    then show "\<exists>s n. session_at (put_session b a s') a' = Some (s, n) \<and> s_client_id s = c \<and> (s_state s = CLOSED \<longrightarrow> s_clean_session s = 0)"
      using D(3) [of c a'] assms(2,3,6) by (auto simp: at)
  next
    fix a' s1 n1 assume s1: "session_at (put_session b a s') a' = Some (s1, n1)"
    consider "a' = a" "s1 = s'" "n1 = n" | "session_at b a' = Some (s1, n1)"
    proof (cases "a' = a")
      case True
      then show ?thesis using s1 that(1) by (simp add: at)
    next
      case False
      then show ?thesis using s1 that(2) by (simp add: at)
    qed
    then show "a' < next_session (put_session b a s') \<and> session_ok (io_threads (put_session b a s')) s1 \<and>
        (s_state s1 = OPEN \<longrightarrow> map_of (br_sessions (put_session b a s')) (s_client_id s1) = Some a') \<and>
        n1 = table_ref (put_session b a s') s1 a' + int (count R a') \<and> 0 < n1"
    proof cases
      case 1
      then show ?thesis using D(4) [OF assms(2)] assms(3,4,5) by (simp add: table_ref_def)
    next
      case 2
      then show ?thesis using D(4) [OF 2] by simp
    qed
  next
    fix a' assume "a' \<in># R"
    then show "session_at (put_session b a s') a' \<noteq> None" using D(5) [of a'] by (simp add: at)
  qed (use D(1,2) in simp_all)
  show "open_sessions (put_session b a s') = (if s_state s' = OPEN then insert a (open_sessions b) else open_sessions b - {a})"
    by (auto simp: open_sessions_def at split: if_splits)
  show "session_of (put_session b a s') c = (if map_of (br_sessions b) c = Some a then Some s' else session_of b c)"
    by (auto simp: session_of_def at split: option.splits)
qed

lemma get_session_Some: "session_at b a = Some (s, n) \<Longrightarrow> get_session b a = Inr s"
  by (simp add: get_session_def)

lemma put_session_twice: "put_session (put_session b a s) a s' = put_session b a s'"
  by (cases "session_at b a") (auto simp: put_session_def)

lemma session_of_Some:
  "session_of b c = Some s \<longleftrightarrow> (\<exists>a n. map_of (br_sessions b) c = Some a \<and> session_at b a = Some (s, n))"
  by (auto simp: session_of_def split: option.splits)

lemma other_client:
  assumes "broker_inv b R" and "map_of (br_sessions b) c = Some a" "map_of (br_sessions b) c' = Some a"
  shows "c' = c"
  using broker_invD(3) [OF assms(1,2)] broker_invD(3) [OF assms(1,3)] by auto


section \<open>References\<close>

definition same_tables :: "broker \<Rightarrow> broker \<Rightarrow> bool" where
  "same_tables b b' \<longleftrightarrow> br_sessions b' = br_sessions b \<and> topics_tree b' = topics_tree b \<and>
     open_sessions b' = open_sessions b \<and> session_of b' = session_of b \<and> conn_at b' = conn_at b \<and> io_threads b' = io_threads b"

lemma same_tables_refl [simp]: "same_tables b b"
  by (simp add: same_tables_def)

lemma same_tables_trans: "same_tables b b' \<Longrightarrow> same_tables b' b'' \<Longrightarrow> same_tables b b''"
  by (simp add: same_tables_def)

lemma set_count_fields:
  fixes b :: broker
  assumes "session_at b a = Some (s, n)"
  shows "same_tables b (b\<lparr>session_at := (session_at b)(a \<mapsto> (s, m))\<rparr>)"
    and "table_ref (b\<lparr>session_at := f\<rparr>) = table_ref b" and "config_ok (b\<lparr>session_at := f\<rparr>) = config_ok b"
    and "tree_inv (b\<lparr>session_at := f\<rparr>) = tree_inv b"
  using assms by (auto simp: same_tables_def open_sessions_def session_of_def table_ref_def config_ok_def tree_inv_def fun_eq_iff
      split: option.splits)

lemma set_count_inv:
  assumes "broker_inv b R" and "session_at b a = Some (s, n)" and "m = table_ref b s a + int (count R' a)" and "0 < m"
    and "\<And>a'. a' \<noteq> a \<Longrightarrow> count R' a' = count R a'"
  shows "broker_inv (b\<lparr>session_at := (session_at b)(a \<mapsto> (s, m))\<rparr>) R'" (is "broker_inv ?b R'")
proof (rule broker_invI)
  note D = broker_invD [OF assms(1)]
  show "config_ok ?b" "tree_inv ?b" using D(1,2) by (simp_all add: set_count_fields [OF assms(2)])
  show "\<exists>s n. session_at ?b a' = Some (s, n) \<and> s_client_id s = c \<and> (s_state s = CLOSED \<longrightarrow> s_clean_session s = 0)"
    if "map_of (br_sessions ?b) c = Some a'" for c a'
    using D(3) [of c a'] that assms(2) by auto
  show "a' < next_session ?b \<and> session_ok (io_threads ?b) s1 \<and>
      (s_state s1 = OPEN \<longrightarrow> map_of (br_sessions ?b) (s_client_id s1) = Some a') \<and>
      n1 = table_ref ?b s1 a' + int (count R' a') \<and> 0 < n1"
    if s1: "session_at ?b a' = Some (s1, n1)" for a' s1 n1
  proof (cases "a' = a")
    case True
    then have "s1 = s" "n1 = m" using s1 by simp_all
    then show ?thesis using D(4) [OF assms(2)] assms(3,4) True by (simp add: set_count_fields [OF assms(2)])
  next
    case False
    then have "session_at b a' = Some (s1, n1)" using s1 by simp
    from D(4) [OF this] False assms(5) show ?thesis by (simp add: table_ref_def)
  qed
  show "session_at ?b a' \<noteq> None" if "a' \<in># R'" for a'
  proof (cases "a' = a")
    case False
    then have "a' \<in># R" using that assms(5) [OF False] by (metis count_greater_zero_iff)
    then show ?thesis using D(5) False by simp
  qed simp
qed

lemma share_session_inv:
  assumes "broker_inv b R" and "session_at b a \<noteq> None"
  shows "\<exists>b'. share_session b a = Inr b' \<and> broker_inv b' (add_mset a R) \<and> same_tables b b'"
proof -
  obtain s n where s: "session_at b a = Some (s, n)" using assms(2) by auto
  have n: "n = table_ref b s a + int (count R a)" "0 < n" using broker_invD(4) [OF assms(1) s] by auto
  show ?thesis
    using set_count_inv [OF assms(1) s, of "n + 1" "add_mset a R"] n set_count_fields(1) [OF s, of "n + 1"]
    by (simp add: share_session_def s)
qed

lemma dead_session_inv:
  assumes "broker_inv b R" and "session_at b a = Some (s, n)" and "table_ref b s a = 0" and "a \<notin># R'"
    and "\<And>a'. a' \<noteq> a \<Longrightarrow> count R' a' = count R a'"
  shows "broker_inv (b\<lparr>session_at := (session_at b)(a := None)\<rparr>) R'" (is "broker_inv ?b R'")
    and "same_tables b (b\<lparr>session_at := (session_at b)(a := None)\<rparr>)"
proof -
  note D = broker_invD [OF assms(1)]
  have nt: "map_of (br_sessions b) c \<noteq> Some a" for c
    using D(3) [of c a] assms(2,3) by (auto simp: table_ref_def)
  have no: "s_state s \<noteq> OPEN" using D(4) [OF assms(2)] nt by auto
  show "broker_inv ?b R'"
  proof (rule broker_invI)
    show "config_ok ?b" "tree_inv ?b" using D(1,2) by (simp_all add: set_count_fields [OF assms(2)])
    show "\<exists>s n. session_at ?b a' = Some (s, n) \<and> s_client_id s = c \<and> (s_state s = CLOSED \<longrightarrow> s_clean_session s = 0)"
      if "map_of (br_sessions ?b) c = Some a'" for c a'
      using D(3) [of c a'] that nt [of c] by auto
    show "a' < next_session ?b \<and> session_ok (io_threads ?b) s1 \<and>
        (s_state s1 = OPEN \<longrightarrow> map_of (br_sessions ?b) (s_client_id s1) = Some a') \<and>
        n1 = table_ref ?b s1 a' + int (count R' a') \<and> 0 < n1"
      if s1: "session_at ?b a' = Some (s1, n1)" for a' s1 n1
    proof -
      have a': "a' \<noteq> a" "session_at b a' = Some (s1, n1)" using s1 by (auto split: if_splits)
      then show ?thesis using D(4) [OF a'(2)] assms(5) by (simp add: table_ref_def)
    qed
    show "session_at ?b a' \<noteq> None" if "a' \<in># R'" for a'
    proof -
      have "a' \<noteq> a" using that assms(4) by auto
      moreover from this have "a' \<in># R" using that assms(5) by (metis count_greater_zero_iff)
      ultimately show ?thesis using D(5) by simp
    qed
  qed
  have "open_sessions ?b = open_sessions b" using no assms(2) by (auto simp: open_sessions_def)
  moreover have "session_of ?b = session_of b" using nt by (auto simp: session_of_def fun_eq_iff split: option.splits)
  ultimately show "same_tables b ?b" by (simp add: same_tables_def)
qed

lemma release_ref_inv:
  assumes "broker_inv b (add_mset a R)"
  shows "\<exists>b'. release_session b a = Inr b' \<and> broker_inv b' R \<and> same_tables b b'"
proof -
  obtain s n where s: "session_at b a = Some (s, n)" using broker_invD(5) [OF assms, of a] by auto
  have n: "n = table_ref b s a + int (count R a) + 1" "0 < n" using broker_invD(4) [OF assms s] by auto
  show ?thesis
  proof (cases "n - 1 = 0")
    case True
    then have "table_ref b s a = 0" "a \<notin># R" using n(1) by (auto simp: table_ref_def count_eq_zero_iff split: if_splits)
    then show ?thesis using dead_session_inv [OF assms s] True by (simp add: release_session_def s)
  next
    case False
    then have "0 < n - 1" using n by simp
    then show ?thesis
      using set_count_inv [OF assms s, of "n - 1" R] n False set_count_fields(1) [OF s, of "n - 1"]
      by (simp add: release_session_def s)
  qed
qed


section \<open>Publishing\<close>

fun refs_of :: "broker_event \<Rightarrow> addr multiset" where
  "refs_of (Broadcast i x) = mset (map sub_session (bc_subscribers x))"
| "refs_of _ = {#}"

definition ev_refs :: "broker_event list \<Rightarrow> addr multiset" where
  "ev_refs evs = (\<Sum>e\<leftarrow>evs. refs_of e)"

lemma ev_refs_simps [simp]:
  "ev_refs [] = {#}" "ev_refs (e # evs) = refs_of e + ev_refs evs" "ev_refs (xs @ ys) = ev_refs xs + ev_refs ys"
  by (simp_all add: ev_refs_def)

text \<open>Events that post no task and answer no connection request.\<close>

fun quiet_ev :: "broker_event \<Rightarrow> bool" where
  "quiet_ev (Post t p) \<longleftrightarrow> False"
| "quiet_ev (Connect_Response i r) \<longleftrightarrow> False"
| "quiet_ev (Pool_Task t) \<longleftrightarrow> False"
| "quiet_ev _ \<longleftrightarrow> True"

definition match_refs :: "subscribe_map \<Rightarrow> addr multiset" where
  "match_refs m = mset (map (sub_session \<circ> snd) m)"

definition in_table :: "broker \<Rightarrow> addr \<Rightarrow> bool" where
  "in_table b a \<longleftrightarrow> (\<exists>c. map_of (br_sessions b) c = Some a)"

lemma in_table_same: "same_tables b b' \<Longrightarrow> in_table b' a = in_table b a"
  by (simp add: in_table_def same_tables_def)

lemma in_table_at: "broker_inv b R \<Longrightarrow> in_table b a \<Longrightarrow> \<exists>s n. session_at b a = Some (s, n)"
  using broker_invD(3) by (fastforce simp: in_table_def)

lemma broadcast_infos_ok:
  assumes "broker_inv b R" and "\<And>x. x \<in> set m \<Longrightarrow> in_table b (sub_session (snd x))"
  shows "\<exists>evs is b'. broadcast_infos m b = Inr (evs, is, b') \<and> broker_inv b' (R + mset (map (sub_session \<circ> snd) is)) \<and>
    same_tables b b' \<and> map (sub_session \<circ> snd) is = map (sub_session \<circ> snd) m \<and>
    list_all quiet_ev evs \<and> ev_refs evs = {#} \<and> list_all (\<lambda>x. fst x < io_threads b) is"
  using assms
proof (induction m arbitrary: b R)
  case (Cons x m)
  obtain cid info where x: "x = (cid, info)" by (cases x)
  let ?a = "sub_session info"
  have "in_table b ?a" using Cons.prems(2) [of x] x by simp
  then obtain s n where s: "session_at b ?a = Some (s, n)" using in_table_at [OF Cons.prems(1)] by blast
  have i: "unat (io_context_idx s) < io_threads b" using broker_invD(4) [OF Cons.prems(1) s] by (simp add: session_ok_def)
  obtain b1 where b1: "share_session b ?a = Inr b1" "broker_inv b1 (add_mset ?a R)" "same_tables b b1"
    using share_session_inv [OF Cons.prems(1)] s by blast
  have io: "io_threads b1 = io_threads b" using b1(3) by (simp add: same_tables_def)
  obtain evs "is" b2 where r: "broadcast_infos m b1 = Inr (evs, is, b2)"
      "broker_inv b2 (add_mset ?a R + mset (map (sub_session \<circ> snd) is))" "same_tables b1 b2"
      "map (sub_session \<circ> snd) is = map (sub_session \<circ> snd) m" "list_all quiet_ev evs" "ev_refs evs = {#}"
      "list_all (\<lambda>x. fst x < io_threads b1) is"
    using Cons.IH [OF b1(2)] Cons.prems(2) in_table_same [OF b1(3)] by (metis list.set_intros(2))
  have "image_mset (sub_session \<circ> snd) (mset is) = image_mset (sub_session \<circ> snd) (mset m)"
    using arg_cong [OF r(4), of mset] by simp
  then show ?case
    using x get_session_Some [OF s] b1(1) i r io same_tables_trans [OF b1(3) r(3)]
    by (simp add: Let_def comp_def)
qed simp

lemma partition_sum:
  assumes "list_all (\<lambda>x. fst x < n) xs"
  shows "(\<Sum>i\<leftarrow>[0..<n]. mset (map g (map snd (filter (\<lambda>(j, _). j = i) xs)))) = mset (map (g \<circ> snd) xs)"
  using assms
proof (induction xs)
  case Nil
  then show ?case by (induction n) simp_all
next
  case (Cons x xs)
  obtain j y where x: "x = (j, y)" by (cases x)
  have "(\<Sum>i\<leftarrow>[0..<n]. mset (map g (map snd (filter (\<lambda>(j, _). j = i) (x # xs))))) =
      (\<Sum>i\<leftarrow>[0..<n]. (if j = i then {#g y#} else {#}) + mset (map g (map snd (filter (\<lambda>(j, _). j = i) xs))))"
    by (rule arg_cong [of _ _ sum_list], rule map_cong) (auto simp: x)
  also have "\<dots> = (\<Sum>i\<leftarrow>[0..<n]. if j = i then {#g y#} else {#}) +
      (\<Sum>i\<leftarrow>[0..<n]. mset (map g (map snd (filter (\<lambda>(j, _). j = i) xs))))"
    by (simp add: sum_list_addf)
  also have "(\<Sum>i\<leftarrow>[0..<n]. if j = i then {#g y#} else {#}) = {#g y#}"
    using Cons.prems x by (simp add: interv_sum_list_conv_sum_set_nat)
  finally show ?case using Cons x by simp
qed

lemma mqtt_broadcast_ok:
  assumes "broker_inv b R" and "\<And>x. x \<in> set m \<Longrightarrow> in_table b (sub_session (snd x))"
  shows "\<exists>evs b'. mqtt_broadcast b t msg m = Inr (evs, b') \<and> broker_inv b' (R + ev_refs evs) \<and>
    same_tables b b' \<and> list_all quiet_ev evs \<and> ev_refs evs = match_refs m"
proof -
  obtain evs "is" b' where r: "broadcast_infos m b = Inr (evs, is, b')"
      "broker_inv b' (R + mset (map (sub_session \<circ> snd) is))" "same_tables b b'" "list_all quiet_ev evs" "ev_refs evs = {#}"
      "list_all (\<lambda>x. fst x < io_threads b) is" "map (sub_session \<circ> snd) is = map (sub_session \<circ> snd) m"
    using broadcast_infos_ok [OF assms] by blast
  let ?bc = "\<lambda>i. Broadcast i \<lparr>bc_topic = cstr t, bc_message = \<lparr>message = cstr (message msg), msg_qos = msg_qos msg\<rparr>,
      bc_retain = False, bc_subscribers = map snd (filter (\<lambda>(j, _). j = i) is)\<rparr>"
  have "ev_refs (map ?bc [0..<io_threads b]) = mset (map (sub_session \<circ> snd) is)"
    using partition_sum [OF r(6), of sub_session] by (simp add: ev_refs_def comp_def)
  then have "ev_refs (map ?bc [0..<io_threads b]) = match_refs m" by (simp only: r(7) match_refs_def)
  moreover have "list_all quiet_ev (map ?bc [0..<io_threads b])" by (simp add: list_all_iff)
  moreover have "broker_inv b' (R + match_refs m)" using r(2) by (simp only: r(7) match_refs_def)
  ultimately show ?thesis using r(1,3,4,5) by (simp add: mqtt_broadcast_def)
qed

lemma run_matches_ok:
  assumes "broker_inv b R" and "\<And>m x. m \<in> set (client_matches es) \<Longrightarrow> x \<in> set m \<Longrightarrow> in_table b (sub_session (snd x))"
  shows "\<exists>evs b'. run_matches t msg es b = Inr (evs, b') \<and> broker_inv b' (R + ev_refs evs) \<and>
    same_tables b b' \<and> list_all quiet_ev evs \<and> ev_refs evs = (\<Sum>m\<leftarrow>client_matches es. match_refs m)"
  using assms
proof (induction t msg es b arbitrary: R rule: run_matches.induct)
  case (2 t msg l d es b)
  have "\<exists>evs b'. run_matches t msg es b = Inr (evs, b') \<and> broker_inv b' (R + ev_refs evs) \<and> same_tables b b' \<and>
      list_all quiet_ev evs \<and> ev_refs evs = (\<Sum>m\<leftarrow>client_matches es. match_refs m)"
    by (rule "2.IH" [OF "2.prems"(1)]) (rule "2.prems"(2), simp_all)
  then show ?case by auto
next
  case (3 t msg a es b)
  then show ?case by simp
next
  case (4 t msg m es b)
  obtain evs b1 where b1: "mqtt_broadcast b t msg m = Inr (evs, b1)" "broker_inv b1 (R + ev_refs evs)" "same_tables b b1"
      "list_all quiet_ev evs" "ev_refs evs = match_refs m"
    using mqtt_broadcast_ok [OF "4.prems"(1), of m t msg] "4.prems"(2) [of m] by (metis client_matches.simps(2) list.set_intros(1))
  obtain evs' b2 where b2: "run_matches t msg es b1 = Inr (evs', b2)" "broker_inv b2 (R + ev_refs evs + ev_refs evs')"
      "same_tables b1 b2" "list_all quiet_ev evs'" "ev_refs evs' = (\<Sum>m\<leftarrow>client_matches es. match_refs m)"
    using "4.IH" [OF b1(2)] "4.prems"(2) in_table_same [OF b1(3)] by (metis client_matches.simps(2) list.set_intros(2))
  show ?case using b1 b2 same_tables_trans [OF b1(3) b2(3)] by (simp add: add.assoc)
qed simp

lemma client_match_node:
  assumes "topics_inv n" and "plain (tmq_topic_split (cstr (req_topic req)))"
    and "m \<in> set (client_matches (fst (tmq_topics_publish j n req)))"
  shows "\<exists>p. subscribers (node_at n p) = Some m"
proof -
  let ?ls = "tmq_topic_split (cstr (req_topic req))"
  have "hash_leaf n" using assms(1) by (simp add: topics_inv_def)
  then have "fst (tmq_topics_publish j n req) = concat (map (\<lambda>p. visit j req (node_at n p)) (matching ?ls n))"
    using match_events [OF assms(2)] by (simp add: tmq_topics_publish_def Let_def split_beta)
  moreover have "m \<in> set (client_matches (concat (map (\<lambda>p. visit j req (node_at n p)) ps))) \<Longrightarrow>
      \<exists>p. subscribers (node_at n p) = Some m" for ps
    by (induction ps) (auto simp: client_matches_visit split: option.splits)
  ultimately show ?thesis using assms(3) by simp
qed

lemma topics_publish_ok:
  assumes "broker_inv b R" and "plain (tmq_topic_split (cstr (req_topic req)))" and "\<not> req_retain req"
  shows "\<exists>evs b'. topics_publish j b req = Inr (evs, b') \<and> broker_inv b' (R + ev_refs evs) \<and>
    same_tables b b' \<and> list_all quiet_ev evs \<and>
    ev_refs evs = (\<Sum>m\<leftarrow>client_matches (fst (tmq_topics_publish j (topics_tree b) req)). match_refs m)"
proof -
  let ?r = "tmq_topics_publish j (topics_tree b) req"
  have t: "topics_inv (topics_tree b)"
      "\<And>f c info. subs_at (topics_tree b) f c = Some info \<Longrightarrow> map_of (br_sessions b) c = Some (sub_session info)"
    using broker_invD(2) [OF assms(1)] by (auto simp: tree_inv_def)
  have same: "b\<lparr>topics_tree := snd (snd ?r)\<rparr> = b"
    using publish_tree [OF assms(2), of j "topics_tree b"] assms(3) by simp
  have "in_table b (sub_session (snd x))" if m: "m \<in> set (client_matches (fst ?r))" and x: "x \<in> set m" for m x
  proof -
    obtain p where p: "subscribers (node_at (topics_tree b) p) = Some m"
      using client_match_node [OF t(1) assms(2) m] by blast
    then have "al_ok m" using t(1) by (auto simp: topics_inv_def subs_ok_def)
    then have "subs_at (topics_tree b) p (fst x) = Some (snd x)"
      using x p al_ok_in [of m "fst x" "snd x"] by (simp add: subs_at_def)
    then show ?thesis using t(2) by (auto simp: in_table_def)
  qed
  then obtain evs b' where r: "run_matches (req_topic req) (req_message req) (fst ?r) b = Inr (evs, b')"
      "broker_inv b' (R + ev_refs evs)" "same_tables b b'" "list_all quiet_ev evs"
      "ev_refs evs = (\<Sum>m\<leftarrow>client_matches (fst ?r). match_refs m)"
    using run_matches_ok [OF assms(1), of "fst ?r"] by blast
  have "topics_publish j b req = bind (run_matches (req_topic req) (req_message req) (fst ?r) b) (\<lambda>(evs, b').
      Inr (evs @ (case fst (snd ?r) of None \<Rightarrow> [] | Some ms \<Rightarrow> [Tun_Publish (req_topic req) (req_message req) ms]), b'))"
    by (simp add: topics_publish_def split_beta same)
  then show ?thesis using r by (auto split: option.splits)
qed

section \<open>Closing a session\<close>

text \<open>What a task may do to clients: only \<open>c\<close> is affected.\<close>

definition only_client :: "tmq_str \<Rightarrow> broker \<Rightarrow> broker \<Rightarrow> bool" where
  "only_client c b b' \<longleftrightarrow> (\<forall>c'. c' \<noteq> c \<longrightarrow> session_of b' c' = session_of b c' \<and> tree_subs b' c' = tree_subs b c' \<and>
        map_of (br_sessions b') c' = map_of (br_sessions b) c') \<and>
     conn_at b' = conn_at b \<and> io_threads b' = io_threads b"

lemma only_client_trans: "only_client c b b' \<Longrightarrow> only_client c b' b'' \<Longrightarrow> only_client c b b''"
  by (simp add: only_client_def)

lemma tree_subs_same: "topics_tree b' = topics_tree b \<Longrightarrow> tree_subs b' = tree_subs b"
  by (simp add: tree_subs_def fun_eq_iff)

lemma same_tables_tree: "same_tables b b' \<Longrightarrow> tree_subs b' = tree_subs b"
  by (rule tree_subs_same) (simp add: same_tables_def)

lemma same_tables_only: "same_tables b b' \<Longrightarrow> only_client c b b'"
  using tree_subs_same [of b' b] by (simp add: same_tables_def only_client_def)

lemma session_inv_state [simp]:
  "session_inv (s\<lparr>s_state := x\<rparr>) as = session_inv s as"
  by (simp add: session_inv_def queue_rel_def window_def)

lemma session_ok_closed: "session_ok n s \<Longrightarrow> session_ok n (s\<lparr>s_state := x\<rparr>)"
  by (simp add: session_ok_def will_ok_def)

text \<open>Taking a session out of the table leaves the reference of the table to be released.\<close>

lemma unfile_inv:
  assumes "broker_inv b R" and "session_at b a = Some (s, n)" and "map_of (br_sessions b) (s_client_id s) = Some a"
    and "topics_inv t" "retained_at t = retained_at (topics_tree b)"
    and "subs_at t = (\<lambda>p c. if c = s_client_id s then None else subs_at (topics_tree b) p c)"
  defines "b' \<equiv> (put_session b a (s\<lparr>s_state := CLOSED\<rparr>))\<lparr>topics_tree := t, br_sessions := al_erase (br_sessions b) (s_client_id s)\<rparr>"
  shows "broker_inv b' (add_mset a R)" and "only_client (s_client_id s) b b'" and "open_sessions b' = open_sessions b - {a}"
    and "map_of (br_sessions b') (s_client_id s) = None" and "tree_subs b' (s_client_id s) = {}"
proof -
  note D = broker_invD [OF assms(1)]
  let ?c = "s_client_id s"
  have at: "session_at b' = (session_at b)(a \<mapsto> (s\<lparr>s_state := CLOSED\<rparr>, n))"
    using session_at_put [OF assms(2)] by (simp add: b'_def)
  have tab: "map_of (br_sessions b') c = (if c = ?c then None else map_of (br_sessions b) c)" for c
    by (simp add: b'_def map_of_al_erase)
  have na: "map_of (br_sessions b) c = Some a \<Longrightarrow> c = ?c" for c using other_client [OF assms(1,3)] by blast
  have ts: "topics_tree b' = t" "next_session b' = next_session b" "io_threads b' = io_threads b" "conn_at b' = conn_at b"
    by (simp_all add: b'_def)
  show "broker_inv b' (add_mset a R)"
  proof (rule broker_invI)
    show "config_ok b'" using D(1) by (simp add: config_ok_def b'_def put_session_def)
    show "tree_inv b'" using D(2) assms(4-6) tab by (simp add: tree_inv_def ts)
    show "\<exists>s n. session_at b' a' = Some (s, n) \<and> s_client_id s = c \<and> (s_state s = CLOSED \<longrightarrow> s_clean_session s = 0)"
      if h: "map_of (br_sessions b') c = Some a'" for c a'
    proof -
      have "map_of (br_sessions b) c = Some a'" "c \<noteq> ?c" using h tab by (auto split: if_splits)
      moreover from this have "a' \<noteq> a" using na by blast
      ultimately show ?thesis using D(3) [of c a'] at by simp
    qed
    show "a' < next_session b' \<and> session_ok (io_threads b') s1 \<and>
        (s_state s1 = OPEN \<longrightarrow> map_of (br_sessions b') (s_client_id s1) = Some a') \<and>
        n1 = table_ref b' s1 a' + int (count (add_mset a R) a') \<and> 0 < n1"
      if h: "session_at b' a' = Some (s1, n1)" for a' s1 n1
    proof (cases "a' = a")
      case True
      then have "s1 = s\<lparr>s_state := CLOSED\<rparr>" "n1 = n" using h at by simp_all
      then show ?thesis using D(4) [OF assms(2)] assms(3) True by (simp add: ts table_ref_def tab session_ok_closed)
    next
      case False
      then have s1: "session_at b a' = Some (s1, n1)" using h at by simp
      show ?thesis using D(4) [OF s1] assms(3) False by (auto simp: ts table_ref_def tab)
    qed
    show "session_at b' a' \<noteq> None" if "a' \<in># add_mset a R" for a' using that D(5) [of a'] at by auto
  qed
  show "only_client ?c b b'"
    using na by (auto simp: only_client_def session_of_def tab at tree_subs_def ts assms(6) split: option.splits)
  show "open_sessions b' = open_sessions b - {a}" by (auto simp: open_sessions_def at)
  show "map_of (br_sessions b') ?c = None" by (simp add: tab)
  show "tree_subs b' ?c = {}" by (simp add: tree_subs_def ts assms(6))
qed

text \<open>The client's table entry and subscriptions agree: nothing of a SUBSCRIBE or UNSUBSCRIBE is outstanding.\<close>

definition synced :: "broker \<Rightarrow> tmq_str \<Rightarrow> bool" where
  "synced b c \<longleftrightarrow> tree_subs b c = sess_subs b c"

text \<open>The clients whose session is open.\<close>

definition live :: "broker \<Rightarrow> tmq_str \<Rightarrow> addr option" where
  "live b c = (case map_of (br_sessions b) c of None \<Rightarrow> None | Some a \<Rightarrow> if a \<in> open_sessions b then Some a else None)"

lemma live_Some: "live b c = Some a \<longleftrightarrow> map_of (br_sessions b) c = Some a \<and> a \<in> open_sessions b"
  by (auto simp: live_def split: option.splits)

lemma live_None: "live b c = None \<longleftrightarrow> (\<forall>a. map_of (br_sessions b) c = Some a \<longrightarrow> a \<notin> open_sessions b)"
  by (auto simp: live_def split: option.splits)

lemma live_session:
  assumes "live b c = Some a"
  shows "\<exists>s. session_of b c = Some s \<and> s_state s = OPEN"
  using assms by (auto simp: live_Some open_sessions_def session_of_Some)

lemma sess_subs_at: "map_of (br_sessions b) c = Some a \<Longrightarrow> session_at b a = Some (s, n) \<Longrightarrow> sess_subs b c = filters_of s"
  by (simp add: sess_subs_def session_of_def)

lemma close_session_drops:
  assumes "broker_inv b R" and "session_at b a = Some (s, n)" and "map_of (br_sessions b) (s_client_id s) = Some a"
    and "synced b (s_client_id s)" and "s_clean_session s \<noteq> 0 \<or> force"
  shows "\<exists>b'. close_session b a force = Inr ([Conn_Unref (s_conn s)], b') \<and> broker_inv b' R \<and>
    only_client (s_client_id s) b b' \<and> open_sessions b' = open_sessions b - {a} \<and>
    map_of (br_sessions b') (s_client_id s) = None \<and> tree_subs b' (s_client_id s) = {}"
proof -
  note D = broker_invD [OF assms(1)]
  let ?c = "s_client_id s" and ?s = "s\<lparr>s_state := CLOSED\<rparr>"
  have ok: "session_ok (io_threads b) s" using D(4) [OF assms(2)] by simp
  have c: "cstr ?c = ?c" and cb: "has_on_close s" using ok by (simp_all add: session_ok_def)
  have eq: "{f. subs_at (topics_tree b) f ?c \<noteq> None} = filters_of s"
    using assms(4) sess_subs_at [OF assms(3,2)] by (simp add: synced_def tree_subs_def)
  have "subs_at (topics_tree b) (tmq_topic_split (cstr f)) (cstr ?c) \<noteq> None" if "f \<in> set (map fst (subscriptions s))" for f
    using that eq session_filters(2) [OF ok] unfolding c by blast
  then obtain t where t: "unsubscribe_all (map fst (subscriptions s)) ?c (topics_tree b) = Inr t" "topics_inv t"
      "retained_at t = retained_at (topics_tree b)"
      "subs_at t = (\<lambda>p c. if c = cstr ?c \<and> p \<in> (\<lambda>f. tmq_topic_split (cstr f)) ` set (map fst (subscriptions s)) then None
          else subs_at (topics_tree b) p c)"
    using unsubscribe_all_ok [of "topics_tree b" "map fst (subscriptions s)" ?c] session_filters(1) [OF ok] D(2)
    unfolding tree_inv_def by blast
  have "subs_at t = (\<lambda>p c. if c = ?c then None else subs_at (topics_tree b) p c)"
    using eq unfolding t(4) session_filters(2) [OF ok] c by (intro ext) auto
  note u = unfile_inv [OF assms(1-3) t(2,3) this]
  obtain b' where b': "release_session ((put_session b a ?s)\<lparr>topics_tree := t, br_sessions := al_erase (br_sessions b) ?c\<rparr>) a = Inr b'"
      "broker_inv b' R" "same_tables ((put_session b a ?s)\<lparr>topics_tree := t, br_sessions := al_erase (br_sessions b) ?c\<rparr>) b'"
    using release_ref_inv [OF u(1)] by blast
  have g: "get_session (put_session b a ?s) a = Inr ?s"
    using session_at_put [OF assms(2)] by (simp add: get_session_def)
  have "close_session b a force = Inr ([Conn_Unref (s_conn s)], b')"
    using assms(5) get_session_Some [OF assms(2)] g t(1) b'(1) cb
    by (auto simp: close_session_def tmq_session_close_def session_close_callback_def Let_def)
  then show ?thesis
    using b' u only_client_trans [OF u(2) same_tables_only [OF b'(3)]] same_tables_tree [OF b'(3)] by (simp add: same_tables_def)
qed

lemma close_session_keeps:
  assumes "broker_inv b R" and "session_at b a = Some (s, n)" and "map_of (br_sessions b) (s_client_id s) = Some a"
    and "s_clean_session s = 0"
  shows "close_session b a False = Inr ([Conn_Unref (s_conn s)], put_session b a (s\<lparr>s_state := CLOSED\<rparr>))"
    and "broker_inv (put_session b a (s\<lparr>s_state := CLOSED\<rparr>)) R"
    and "only_client (s_client_id s) b (put_session b a (s\<lparr>s_state := CLOSED\<rparr>))"
    and "open_sessions (put_session b a (s\<lparr>s_state := CLOSED\<rparr>)) = open_sessions b - {a}"
    and "sess_subs (put_session b a (s\<lparr>s_state := CLOSED\<rparr>)) = sess_subs b"
proof -
  let ?s = "s\<lparr>s_state := CLOSED\<rparr>"
  have ok: "session_ok (io_threads b) s" using broker_invD(4) [OF assms(1,2)] by simp
  note p = put_session_inv [OF assms(1,2), of ?s]
  show "broker_inv (put_session b a ?s) R" using p(1) session_ok_closed [OF ok] assms(4) by simp
  show "open_sessions (put_session b a ?s) = open_sessions b - {a}" using p(2) session_ok_closed [OF ok] assms(4) by simp
  have so: "session_of (put_session b a ?s) c = (if map_of (br_sessions b) c = Some a then Some ?s else session_of b c)" for c
    using p(3) session_ok_closed [OF ok] assms(4) by simp
  show "only_client (s_client_id s) b (put_session b a ?s)"
    using other_client [OF assms(1,3)] by (auto simp: only_client_def so)
  show "sess_subs (put_session b a ?s) = sess_subs b"
  proof
    fix c
    show "sess_subs (put_session b a ?s) c = sess_subs b c"
    proof (cases "map_of (br_sessions b) c = Some a")
      case True
      then have "session_of b c = Some s" using assms(2) by (simp add: session_of_def)
      then show ?thesis using True so [of c] by (simp add: sess_subs_def filters_of_def)
    next
      case False
      then show ?thesis using so [of c] by (simp add: sess_subs_def)
    qed
  qed
  have g: "get_session (put_session b a ?s) a = Inr ?s"
    using session_at_put [OF assms(2)] by (simp add: get_session_def)
  show "close_session b a False = Inr ([Conn_Unref (s_conn s)], put_session b a ?s)"
    using get_session_Some [OF assms(2)] g assms(4)
    by (simp add: close_session_def tmq_session_close_def session_close_callback_def Let_def)
qed

lemma close_session_ok:
  assumes "broker_inv b R" and "session_at b a = Some (s, n)" and "map_of (br_sessions b) (s_client_id s) = Some a"
    and "synced b (s_client_id s)"
  shows "\<exists>b'. close_session b a False = Inr ([Conn_Unref (s_conn s)], b') \<and> broker_inv b' R \<and>
    only_client (s_client_id s) b b' \<and> open_sessions b' = open_sessions b - {a} \<and> synced b' (s_client_id s) \<and>
    live b' (s_client_id s) = None"
proof (cases "s_clean_session s = 0")
  case True
  then show ?thesis using close_session_keeps [OF assms(1-3)] assms(3,4) by (simp add: synced_def live_def)
next
  case False
  then show ?thesis using close_session_drops [OF assms, of False]
    by (auto simp: synced_def sess_subs_def session_of_def live_def)
qed

section \<open>Starting a session\<close>

definition will_plain :: "connect_pkt \<Rightarrow> bool" where
  "will_plain p \<longleftrightarrow>
     (case will_args p of (wt, wm, wq, wr) \<Rightarrow> wr = 0 \<and> (\<forall>t. wt = Some t \<longrightarrow> plain (tmq_topic_split (cstr t))))"

lemma will_plain_code [code]:
  "will_plain p \<longleftrightarrow>
     (case will_args p of (wt, wm, wq, wr) \<Rightarrow> wr = 0 \<and> (case wt of None \<Rightarrow> True | Some t \<Rightarrow> plain (tmq_topic_split (cstr t))))"
  by (auto simp: will_plain_def split: option.splits)

definition session_for where
  "session_for rnd now b c p clean =
     (case will_args p of (wt, wm, wq, wr) \<Rightarrow>
        tmq_session_new rnd now True c (of_nat (io_index (conn_at b c))) (effective_client_id b c p) (username p) clean (keep_alive p)
          wt wm wq wr (br_inflight_window b) (Memory_Store tmq_message_store_memory_new))"

lemma session_for_fields [simp]:
  "s_client_id (session_for rnd now b c p clean) = cstr (effective_client_id b c p)"
  "s_state (session_for rnd now b c p clean) = OPEN" "subscriptions (session_for rnd now b c p clean) = []"
  by (auto simp: session_for_def tmq_session_new_def split: prod.splits)

lemma session_for_ok:
  assumes "config_ok b" and "will_plain p"
  shows "session_ok (io_threads b) (session_for rnd now b c p clean)"
proof -
  obtain wt wm wq wr where w: "will_args p = (wt, wm, wq, wr)" by (cases "will_args p") auto
  have "io_index (conn_at b c) < io_threads b" "io_threads b \<le> 256" using assms(1) by (auto simp: config_ok_def)
  then have "unat (of_nat (io_index (conn_at b c)) :: u8) < io_threads b" by (simp add: unat_of_nat)
  moreover have "session_inv (session_for rnd now b c p clean) []"
    unfolding session_for_def w by (simp add: session_inv_new)
  ultimately show ?thesis using assms(2)
    by (auto simp: session_ok_def will_ok_def session_for_def w will_plain_def tmq_session_new_def)
qed

text \<open>The broker after \<^verbatim>\<open>tmq_session_new\<close> and \<^verbatim>\<open>tmq_map_put\<close>.\<close>

definition filed :: "broker \<Rightarrow> tmq_session \<Rightarrow> broker" where
  "filed b s = b\<lparr>session_at := (session_at b)(next_session b \<mapsto> (s, 1)), next_session := Suc (next_session b),
     br_sessions := al_put (br_sessions b) (s_client_id s) (next_session b)\<rparr>"

lemma filed_inv:
  assumes "broker_inv b R" and "map_of (br_sessions b) (s_client_id s) = None" and "session_ok (io_threads b) s" and "s_state s = OPEN"
  shows "broker_inv (filed b s) R" and "only_client (s_client_id s) b (filed b s)" and "next_session b \<notin> open_sessions b"
    and "open_sessions (filed b s) = insert (next_session b) (open_sessions b)"
    and "session_of (filed b s) (s_client_id s) = Some s" and "tree_subs (filed b s) (s_client_id s) = {}"
proof -
  note D = broker_invD [OF assms(1)]
  let ?a = "next_session b" and ?b = "filed b s"
  have "session_at b ?a \<noteq> Some (x, k)" for x k using D(4) [of ?a x k] by auto
  then have fresh: "session_at b ?a = None" by (cases "session_at b ?a") auto
  have nR: "count R ?a = 0" using D(5) [of ?a] fresh by (auto simp: count_eq_zero_iff)
  have at: "session_at ?b = (session_at b)(?a \<mapsto> (s, 1))" by (simp add: filed_def)
  have tab: "map_of (br_sessions ?b) c = (if c = s_client_id s then Some ?a else map_of (br_sessions b) c)" for c
    by (simp add: filed_def map_of_al_put)
  have na: "map_of (br_sessions b) c \<noteq> Some ?a" for c using D(3) [of c ?a] fresh by auto
  have fs: "topics_tree ?b = topics_tree b" "io_threads ?b = io_threads b" "conn_at ?b = conn_at b" "next_session ?b = Suc ?a"
    by (simp_all add: filed_def)
  show "broker_inv ?b R"
  proof (rule broker_invI)
    show "config_ok ?b" using D(1) by (simp add: config_ok_def filed_def)
    show "tree_inv ?b" using D(2) assms(2) unfolding tree_inv_def fs tab by fastforce
    show "\<exists>s n. session_at ?b a' = Some (s, n) \<and> s_client_id s = c \<and> (s_state s = CLOSED \<longrightarrow> s_clean_session s = 0)"
      if h: "map_of (br_sessions ?b) c = Some a'" for c a'
      using h D(3) [of c a'] na [of c] assms(4) by (auto simp: tab at split: if_splits)
    show "a' < next_session ?b \<and> session_ok (io_threads ?b) s1 \<and>
        (s_state s1 = OPEN \<longrightarrow> map_of (br_sessions ?b) (s_client_id s1) = Some a') \<and>
        n1 = table_ref ?b s1 a' + int (count R a') \<and> 0 < n1"
      if h: "session_at ?b a' = Some (s1, n1)" for a' s1 n1
    proof (cases "a' = ?a")
      case True
      have s1: "s1 = s" "n1 = 1" using h unfolding at True by simp_all
      show ?thesis unfolding s1 True using assms(3) nR tab [of "s_client_id s"] by (simp add: fs table_ref_def)
    next
      case False
      then have s1: "session_at b a' = Some (s1, n1)" using h by (simp add: at)
      show ?thesis using D(4) [OF s1] assms(2) by (auto simp: fs table_ref_def tab)
    qed
    show "session_at ?b a' \<noteq> None" if "a' \<in># R" for a' using that D(5) [of a'] by (simp add: at)
  qed
  show "only_client (s_client_id s) b ?b"
    using na by (auto simp: only_client_def session_of_def tree_subs_def fs tab at split: option.splits)
  show "next_session b \<notin> open_sessions b" by (simp add: open_sessions_def fresh)
  show "open_sessions ?b = insert ?a (open_sessions b)" using assms(4) by (auto simp: open_sessions_def at)
  show "session_of ?b (s_client_id s) = Some s" by (simp add: session_of_def tab at)
  have "subs_at (topics_tree b) f (s_client_id s) = None" for f
    using D(2) assms(2) unfolding tree_inv_def by (metis not_None_eq)
  then show "tree_subs ?b (s_client_id s) = {}" by (simp add: tree_subs_def fs)
qed

lemma new_session_filed:
  fixes rnd :: nat and now :: int and clean :: u8
  assumes "\<not> mongodb_pool b" and "cid = effective_client_id b c p"
  defines "s \<equiv> session_for rnd now b c p clean"
  shows "(let (a, b1) = new_session rnd now b c cid p clean in register_session b1 c a cid sp) =
    Inr ([Conn_Share c, make_connect_respond b c CONNECTION_ACCEPTED (Some (next_session b)) sp, Device_Online (s_username s) (s_client_id s)],
      filed b s)"
proof -
  obtain wt wm wq wr where w: "will_args p = (wt, wm, wq, wr)" by (cases "will_args p") auto
  show ?thesis using assms(1,2)
    by (simp add: new_session_def w register_session_def Let_def share_session_def get_session_def s_def session_for_def
        get_message_store_def make_connect_respond_def filed_def tmq_session_new_def)
qed

text \<open>The answer to a CONNECT: refused, or accepted with a session that was not open.\<close>

definition noisy :: "broker_event list \<Rightarrow> broker_event list" where
  "noisy evs = filter (\<lambda>e. \<not> quiet_ev e) evs"

lemma noisy_simps [simp]:
  "noisy [] = []" "noisy (e # evs) = (if quiet_ev e then noisy evs else e # noisy evs)"
  "noisy (xs @ ys) = noisy xs @ noisy ys"
  by (simp_all add: noisy_def)

lemma noisy_quiet: "list_all quiet_ev evs \<Longrightarrow> noisy evs = []"
  by (simp add: noisy_def list_all_iff)

definition accepted :: "broker \<Rightarrow> nat \<Rightarrow> tmq_str \<Rightarrow> broker_event list \<Rightarrow> broker \<Rightarrow> bool" where
  "accepted b c cid evs b' \<longleftrightarrow>
     (\<exists>a sp. noisy evs = [make_connect_respond b c CONNECTION_ACCEPTED (Some a) sp] \<and> a \<notin> open_sessions b \<and>
        open_sessions b' = insert a (open_sessions b) \<and> map_of (br_sessions b') cid = Some a \<and> live b cid = None \<and> synced b' cid)"

definition connected :: "broker \<Rightarrow> nat \<Rightarrow> tmq_str \<Rightarrow> broker_event list \<Rightarrow> broker \<Rightarrow> bool" where
  "connected b c cid evs b' \<longleftrightarrow>
     (noisy evs = [make_connect_respond b c IDENTIFIER_REJECTED None False] \<and> b' = b) \<or> accepted b c cid evs b'"

lemma respond_not_quiet [simp]: "\<not> quiet_ev (make_connect_respond b c code so sp)"
  by (simp add: make_connect_respond_def)

lemma respond_refs [simp]: "refs_of (make_connect_respond b c code so sp) = {#}"
  by (simp add: make_connect_respond_def)

lemma filed_table: "map_of (br_sessions (filed b s)) (s_client_id s) = Some (next_session b)"
  by (simp add: filed_def map_of_al_put)

lemma close_session_effective:
  assumes "only_client c' b b1" and "config_ok b" "config_ok b1"
  shows "effective_client_id b1 c p = effective_client_id b c p"
    and "make_connect_respond b1 c code so sp = make_connect_respond b c code so sp"
  using assms by (simp_all add: only_client_def effective_client_id_def make_connect_respond_def split: option.splits)

lemma start_new_ok:
  assumes "broker_inv b R" and "will_plain p" and "cid = effective_client_id b c p" and "map_of (br_sessions b) (cstr cid) = None"
  shows "\<exists>evs b'. (let (a, b1) = new_session rnd now b c cid p clean in register_session b1 c a cid sp) = Inr (evs, b') \<and>
    broker_inv b' R \<and> ev_refs evs = {#} \<and> only_client (cstr cid) b b' \<and> accepted b c (cstr cid) evs b'"
proof -
  let ?s = "session_for rnd now b c p clean"
  have m: "\<not> mongodb_pool b" using broker_invD(1) [OF assms(1)] by (simp add: config_ok_def)
  have cid: "s_client_id ?s = cstr cid" by (simp add: assms(3))
  note f = filed_inv [OF assms(1), of ?s, unfolded cid, OF assms(4) session_for_ok [OF broker_invD(1) [OF assms(1)] assms(2)]]
  have sy: "synced (filed b ?s) (cstr cid)" using f(5,6) by (simp add: synced_def sess_subs_def filters_of_def)
  have "live b (cstr cid) = None" using assms(4) by (simp add: live_def)
  then have "accepted b c (cstr cid) [Conn_Share c, make_connect_respond b c CONNECTION_ACCEPTED (Some (next_session b)) sp,
      Device_Online (s_username ?s) (s_client_id ?s)] (filed b ?s)"
    unfolding accepted_def using f(3,4) filed_table [of b ?s] sy cid by (intro exI [of _ "next_session b"] exI [of _ sp]) simp
  then show ?thesis using f new_session_filed [OF m assms(3)] by simp
qed

lemma resume_ok:
  assumes "session_ok n s" and "will_plain p" and "will_args p = (wt, wm, wq, wr)"
  shows "session_ok n (tmq_session_resume now c user keep wt wm wq wr s)"
proof -
  have "session_inv (tmq_session_resume now c user keep wt wm wq wr s) as = session_inv s as" for as
    by (cases wt) (simp_all add: tmq_session_resume_def session_inv_def queue_rel_def window_def Let_def)
  moreover have "will_ok (tmq_session_resume now c user keep wt wm wq wr s)"
    using assms by (cases wt) (auto simp: tmq_session_resume_def will_plain_def will_ok_def session_ok_def Let_def)
  ultimately show ?thesis using assms(1)
    by (cases wt) (simp_all add: session_ok_def tmq_session_resume_def Let_def)
qed

lemma resume_fields [simp]:
  "s_client_id (tmq_session_resume now c user keep wt wm wq wr s) = s_client_id s"
  "s_state (tmq_session_resume now c user keep wt wm wq wr s) = OPEN"
  "filters_of (tmq_session_resume now c user keep wt wm wq wr s) = filters_of s"
  by (cases wt, simp_all add: tmq_session_resume_def filters_of_def Let_def)+

lemma start_session_ok:
  assumes "broker_inv b R" and "will_plain p"
    and "live b (cstr (effective_client_id b c p)) = None \<Longrightarrow> synced b (cstr (effective_client_id b c p))"
  shows "\<exists>evs b'. start_session rnd now b c p = Inr (evs, b') \<and> broker_inv b' R \<and> ev_refs evs = {#} \<and>
    only_client (cstr (effective_client_id b c p)) b b' \<and>
    connected b c (cstr (effective_client_id b c p)) evs b'"
proof -
  define cid where "cid = effective_client_id b c p"
  obtain wt wm wq wr where w: "will_args p = (wt, wm, wq, wr)" by (cases "will_args p") auto
  show ?thesis
  proof (cases "map_of (br_sessions b) (cstr cid)")
    case None
    obtain evs b' where r: "(let (a, b1) = new_session rnd now b c cid p (if CONNECT_CLEAN_SESSION (conn_flags p) then 1 else 0)
          in register_session b1 c a cid False) = Inr (evs, b')" "broker_inv b' R" "ev_refs evs = {#}" "only_client (cstr cid) b b'"
        "accepted b c (cstr cid) evs b'"
      using start_new_ok [OF assms(1,2) cid_def None] by blast
    have "start_session rnd now b c p = Inr (evs, b')"
      unfolding start_session_def w cid_def [symmetric] using r(1) None by (simp only: Let_def prod.case option.case)
    then show ?thesis using r unfolding cid_def connected_def by blast
  next
    case (Some a)
    then obtain s n where s: "session_at b a = Some (s, n)" "s_client_id s = cstr cid" "s_state s = CLOSED \<longrightarrow> s_clean_session s = 0"
      using broker_invD(3) [OF assms(1)] by blast
    have filed: "map_of (br_sessions b) (s_client_id s) = Some a" using Some s(2) by simp
    have ok: "session_ok (io_threads b) s" using broker_invD(4) [OF assms(1) s(1)] by simp
    show ?thesis
    proof (cases "s_state s = OPEN")
      case True
      then show ?thesis using assms(1,3) s(1) Some
        by (simp add: start_session_def w cid_def [symmetric] get_session_def connected_def only_client_def)
    next
      case False
      then have closed: "s_state s = CLOSED" by (cases "s_state s") simp_all
      then have a: "a \<notin> open_sessions b" "s_clean_session s = 0" using s by (simp_all add: open_sessions_def)
      have dead: "live b (cstr cid) = None" using a(1) Some by (simp add: live_def)
      then have sy: "synced b (cstr cid)" using assms(3) by (simp add: cid_def)
      show ?thesis
      proof (cases "CONNECT_CLEAN_SESSION (conn_flags p)")
        case True
        obtain b1 where b1: "close_session b a True = Inr ([Conn_Unref (s_conn s)], b1)" "broker_inv b1 R" "only_client (cstr cid) b b1"
            "open_sessions b1 = open_sessions b - {a}" "map_of (br_sessions b1) (cstr cid) = None"
          using close_session_drops [OF assms(1) s(1) filed, of True] sy unfolding s(2) by blast
        note eff = close_session_effective [OF b1(3) broker_invD(1) [OF assms(1)] broker_invD(1) [OF b1(2)], of c]
        have cid1: "cid = effective_client_id b1 c p" using eff(1) by (simp add: cid_def)
        obtain evs b' where r: "(let (a, b2) = new_session rnd now b1 c cid p 1 in register_session b2 c a cid True) = Inr (evs, b')"
            "broker_inv b' R" "ev_refs evs = {#}" "only_client (cstr cid) b1 b'" "accepted b1 c (cstr cid) evs b'"
          using start_new_ok [OF b1(2) assms(2) cid1 b1(5)] by blast
        have "connected b c (cstr cid) (Conn_Unref (s_conn s) # evs) b'"
          using r(5) a(1) b1(4,5) dead by (auto simp: connected_def accepted_def eff(2))
        then show ?thesis
          using r b1(1) only_client_trans [OF b1(3) r(4)] Some s(1) a(2) closed True
          by (auto simp: start_session_def w cid_def [symmetric] get_session_def split_beta Let_def)
      next
        case False
        let ?s = "tmq_session_resume now c (username p) (keep_alive p) wt wm wq wr s"
        note p = put_session_inv [OF assms(1) s(1), of ?s]
        have ok': "session_ok (io_threads b) ?s" by (rule resume_ok [OF ok assms(2) w])
        have so: "session_of (put_session b a ?s) c' = (if map_of (br_sessions b) c' = Some a then Some ?s else session_of b c')" for c'
          using p(3) ok' filed by simp
        have "sess_subs (put_session b a ?s) (cstr cid) = sess_subs b (cstr cid)"
          using so [of "cstr cid"] Some sess_subs_at [OF Some s(1)] by (simp add: sess_subs_def)
        moreover have "only_client (cstr cid) b (put_session b a ?s)"
          using other_client [OF assms(1) Some] by (auto simp: only_client_def so)
        ultimately show ?thesis
          using p(1,2) ok' filed a Some s(1) closed False sy dead
          by (auto simp: start_session_def w cid_def [symmetric] get_session_def Let_def connected_def accepted_def synced_def make_connect_respond_def)
      qed
    qed
  qed
qed

section \<open>Subscribing\<close>

definition filter_ok :: "tmq_str \<Rightarrow> bool" where
  "filter_ok f \<longleftrightarrow> cstr f \<noteq> [] \<and> valid_filter (tmq_topic_split (cstr f))"

definition levels_of :: "tmq_str list \<Rightarrow> tmq_str list set" where
  "levels_of fs = (\<lambda>f. tmq_topic_split (cstr f)) ` set fs"

lemma levels_of_simps [simp]:
  "levels_of [] = {}" "levels_of (f # fs) = insert (tmq_topic_split (cstr f)) (levels_of fs)"
  by (simp_all add: levels_of_def)

lemma set_tree:
  assumes "broker_inv b R" and "topics_inv t" and "retained_at t = retained_at (topics_tree b)"
    and "\<And>f c info. subs_at t f c = Some info \<Longrightarrow> map_of (br_sessions b) c = Some (sub_session info)"
  shows "broker_inv (b\<lparr>topics_tree := t\<rparr>) R" and "open_sessions (b\<lparr>topics_tree := t\<rparr>) = open_sessions b"
    and "session_of (b\<lparr>topics_tree := t\<rparr>) = session_of b"
proof -
  have "tree_inv (b\<lparr>topics_tree := t\<rparr>)" using broker_invD(2) [OF assms(1)] assms(2-4) by (simp add: tree_inv_def)
  then show "broker_inv (b\<lparr>topics_tree := t\<rparr>) R"
    using assms(1) by (simp add: broker_inv_def config_ok_def table_ref_def)
  show "open_sessions (b\<lparr>topics_tree := t\<rparr>) = open_sessions b" "session_of (b\<lparr>topics_tree := t\<rparr>) = session_of b"
    by (auto simp: open_sessions_def session_of_def fun_eq_iff split: option.splits)
qed

lemma sess_subs_cong: "session_of b' = session_of b \<Longrightarrow> sess_subs b' = sess_subs b"
  by (simp add: sess_subs_def fun_eq_iff)

lemma no_retained:
  assumes "topics_inv t" and "retained_at t = Map.empty" and "valid_filter ls"
  shows "retain_from_path t ls = []"
proof -
  have "r \<notin> set (find_retain_messages t ls)" for r
    using in_find_retain [OF _ assms(3), of t r] assms(1,2) by (auto simp: topics_inv_def retained_at_def fun_eq_iff)
  then show ?thesis unfolding retain_from_path_eq by (metis list.set_intros(1) neq_Nil_conv)
qed

lemma subscribe_filters_ok:
  assumes "broker_inv b R" and "map_of (br_sessions b) (s_client_id s) = Some a" and "cstr (s_client_id s) = s_client_id s"
    and "list_all filter_ok (map topic_filter tfs)"
  shows "\<exists>b'. subscribe_filters a s tfs b = Inr (map tf_qos tfs, [], [], b') \<and> broker_inv b' R \<and>
    br_sessions b' = br_sessions b \<and>
    open_sessions b' = open_sessions b \<and> session_of b' = session_of b \<and> only_client (s_client_id s) b b' \<and>
    tree_subs b' (s_client_id s) = tree_subs b (s_client_id s) \<union> levels_of (map topic_filter tfs)"
  using assms(1,2,4)
proof (induction tfs arbitrary: b)
  case Nil
  then show ?case by (simp add: only_client_def)
next
  case (Cons tf tfs)
  note D = broker_invD [OF Cons.prems(1)]
  let ?c = "s_client_id s" and ?f = "tmq_topic_split (cstr (topic_filter tf))"
  let ?i = "\<lparr>sub_session = a, sub_qos = tf_qos tf, is_session_closed = False\<rparr>"
  let ?t = "add_topic (add_subscriber ?c ?i) ?f (topics_tree b)"
  have f: "cstr (topic_filter tf) \<noteq> []" "valid_filter ?f" using Cons.prems(3) by (auto simp: filter_ok_def)
  have ti: "topics_inv (topics_tree b)" "retained_at (topics_tree b) = Map.empty"
      "\<And>f c info. subs_at (topics_tree b) f c = Some info \<Longrightarrow> map_of (br_sessions b) c = Some (sub_session info)"
    using D(2) by (auto simp: tree_inv_def)
  note s = subscribe_ok [OF ti(1) f(2), of ?c ?i, unfolded assms(3)]
  have r: "retain_from_path ?t ?f = []" by (rule no_retained) (use s(1,3) ti(2) f(2) in auto)
  have own: "map_of (br_sessions b) c = Some (sub_session info)" if "subs_at ?t f c = Some info" for f c info
    using that Cons.prems(2) ti(3) [of f c info] by (auto simp: s(2) split: if_splits)
  have t: "broker_inv (b\<lparr>topics_tree := ?t\<rparr>) R" "open_sessions (b\<lparr>topics_tree := ?t\<rparr>) = open_sessions b"
      "session_of (b\<lparr>topics_tree := ?t\<rparr>) = session_of b"
    using set_tree [OF Cons.prems(1) s(1,3)] own by blast+
  have cfg: "\<not> acl_enabled b" "\<not> cluster_enabled b" using D(1) by (auto simp: config_ok_def)
  have prems: "map_of (br_sessions (b\<lparr>topics_tree := ?t\<rparr>)) ?c = Some a" "list_all filter_ok (map topic_filter tfs)"
    using Cons.prems(2,3) by simp_all
  obtain b' where b': "subscribe_filters a s tfs (b\<lparr>topics_tree := ?t\<rparr>) = Inr (map tf_qos tfs, [], [], b')" "broker_inv b' R"
      "br_sessions b' = br_sessions (b\<lparr>topics_tree := ?t\<rparr>)" "open_sessions b' = open_sessions b" "session_of b' = session_of b" "only_client ?c (b\<lparr>topics_tree := ?t\<rparr>) b'"
      "tree_subs b' ?c = tree_subs (b\<lparr>topics_tree := ?t\<rparr>) ?c \<union> levels_of (map topic_filter tfs)"
    using Cons.IH [OF t(1) prems] unfolding t(2,3) by blast
  have "tree_subs (b\<lparr>topics_tree := ?t\<rparr>) c = (if c = ?c then insert ?f (tree_subs b c) else tree_subs b c)" for c
    by (auto simp: tree_subs_def s(2))
  moreover from this have "only_client ?c b (b\<lparr>topics_tree := ?t\<rparr>)" using t(3) by (simp add: only_client_def)
  moreover have "subscribe_filters a s (tf # tfs) b = Inr (map tf_qos (tf # tfs), [], [], b')"
    using b'(1) f(1) r cfg by (simp add: tmq_topics_add_subscription_def Let_def)
  ultimately show ?case using b' only_client_trans [OF _ b'(6), of b] by simp
qed

lemma suback_quiet [simp]: "quiet_ev (Packet_Send i c p)" by simp

text \<open>What the client's subscriptions in the tree become when the executor has handled a request.\<close>

fun topic_effect :: "topic_req \<Rightarrow> tmq_str list set \<Rightarrow> tmq_str list set" where
  "topic_effect (Topic_Subscribe a c p) F = F \<union> levels_of (map topic_filter (sub_topics p))"
| "topic_effect (Topic_Unsubscribe a c p) F = F - levels_of (unsub_topics p)"

fun topic_client :: "topic_req \<Rightarrow> tmq_str" where
  "topic_client (Topic_Subscribe a c p) = c"
| "topic_client (Topic_Unsubscribe a c p) = c"

fun topic_owner :: "topic_req \<Rightarrow> addr" where
  "topic_owner (Topic_Subscribe a c p) = a"
| "topic_owner (Topic_Unsubscribe a c p) = a"

text \<open>A request that is handled without a fault: an unsubscription names filters the client has, each once.\<close>

fun topic_req_ok :: "topic_req \<Rightarrow> tmq_str list set \<Rightarrow> bool" where
  "topic_req_ok (Topic_Subscribe a c p) F \<longleftrightarrow> list_all filter_ok (map topic_filter (sub_topics p))"
| "topic_req_ok (Topic_Unsubscribe a c p) F \<longleftrightarrow>
     distinct (map (\<lambda>f. tmq_topic_split (cstr f)) (unsub_topics p)) \<and> levels_of (unsub_topics p) \<subseteq> F"

lemma handle_topic_req_ok:
  assumes "broker_inv b R" and "session_of b (topic_client r) = Some s" and "s_state s = OPEN"
    and "topic_req_ok r (tree_subs b (topic_client r))" and "session_at b (topic_owner r) \<noteq> None"
  shows "\<exists>evs b'. handle_topic_req b r = Inr (evs, b') \<and> broker_inv b' R \<and> list_all quiet_ev evs \<and> ev_refs evs = {#} \<and>
    br_sessions b' = br_sessions b \<and> open_sessions b' = open_sessions b \<and> session_of b' = session_of b \<and> only_client (topic_client r) b b' \<and>
    tree_subs b' (topic_client r) = topic_effect r (tree_subs b (topic_client r))"
proof -
  note D = broker_invD [OF assms(1)]
  obtain a n where a: "map_of (br_sessions b) (topic_client r) = Some a" "session_at b a = Some (s, n)"
    using assms(2) by (auto simp: session_of_Some)
  have cid: "s_client_id s = topic_client r" using D(3) [OF a(1)] a(2) by auto
  have cs: "cstr (topic_client r) = topic_client r" using D(4) [OF a(2)] cid by (simp add: session_ok_def)
  obtain w where w: "get_session b (topic_owner r) = Inr w" using assms(5) by (auto simp: get_session_def)
  show ?thesis
  proof (cases r)
    case (Topic_Subscribe owner c p)
    then have filed: "map_of (br_sessions b) (s_client_id s) = Some a" "cstr (s_client_id s) = s_client_id s"
      using a(1) cs cid by simp_all
    then obtain b' where b': "subscribe_filters a s (sub_topics p) b = Inr (map tf_qos (sub_topics p), [], [], b')" "broker_inv b' R"
        "br_sessions b' = br_sessions b" "open_sessions b' = open_sessions b" "session_of b' = session_of b" "only_client (s_client_id s) b b'"
        "tree_subs b' (s_client_id s) = tree_subs b (s_client_id s) \<union> levels_of (map topic_filter (sub_topics p))"
      using subscribe_filters_ok [OF assms(1) filed, of "sub_topics p"] assms(4) unfolding Topic_Subscribe topic_req_ok.simps by blast
    then show ?thesis using Topic_Subscribe a assms(3) cs cid w get_session_Some [OF a(2)] by simp
  next
    case (Topic_Unsubscribe owner c p)
    have ti: "topics_inv (topics_tree b)"
        "\<And>f c info. subs_at (topics_tree b) f c = Some info \<Longrightarrow> map_of (br_sessions b) c = Some (sub_session info)"
      using D(2) by (auto simp: tree_inv_def)
    have "subs_at (topics_tree b) (tmq_topic_split (cstr f)) (cstr c) \<noteq> None" if "f \<in> set (unsub_topics p)" for f
      using that assms(4) cs unfolding Topic_Unsubscribe by (auto simp: levels_of_def tree_subs_def)
    then obtain t where t: "unsubscribe_all (unsub_topics p) c (topics_tree b) = Inr t" "topics_inv t"
        "retained_at t = retained_at (topics_tree b)"
        "subs_at t = (\<lambda>q c'. if c' = cstr c \<and> q \<in> levels_of (unsub_topics p) then None else subs_at (topics_tree b) q c')"
      using unsubscribe_all_ok [OF ti(1), of "unsub_topics p" c] assms(4) unfolding Topic_Unsubscribe levels_of_def by auto
    have "map_of (br_sessions b) c' = Some (sub_session info)" if "subs_at t f c' = Some info" for f c' info
      using that ti(2) [of f c' info] by (auto simp: t(4) split: if_splits)
    then have st: "broker_inv (b\<lparr>topics_tree := t\<rparr>) R" "open_sessions (b\<lparr>topics_tree := t\<rparr>) = open_sessions b"
        "session_of (b\<lparr>topics_tree := t\<rparr>) = session_of b"
      using set_tree [OF assms(1) t(2,3)] by blast+
    have "tree_subs (b\<lparr>topics_tree := t\<rparr>) c' = (if c' = c then tree_subs b c' - levels_of (unsub_topics p) else tree_subs b c')" for c'
      using cs Topic_Unsubscribe by (auto simp: tree_subs_def t(4))
    moreover from this have "only_client c b (b\<lparr>topics_tree := t\<rparr>)" using st(3) by (simp add: only_client_def)
    ultimately show ?thesis
      using Topic_Unsubscribe a assms(3) cs cid w get_session_Some [OF a(2)] t(1) st by simp
  qed
qed

section \<open>Ending a session\<close>

lemma force_close_ok:
  assumes "broker_inv b R" and "a \<in> open_sessions b" and "session_at b a = Some (s, n)" and "synced b (s_client_id s)"
    and "req = Session_Disconnect (Some a) \<or> req = Session_Force_Close (Some a)"
  shows "\<exists>evs b'. handle_session_req j rnd now b req = Inr (evs, b') \<and> broker_inv b' (R + ev_refs evs) \<and> list_all quiet_ev evs \<and>
    open_sessions b' = open_sessions b - {a} \<and> only_client (s_client_id s) b b' \<and> synced b' (s_client_id s) \<and>
    live b' (s_client_id s) = None"
proof -
  have filed: "map_of (br_sessions b) (s_client_id s) = Some a" and ok: "session_ok (io_threads b) s"
    using broker_invD(4) [OF assms(1,3)] assms(2,3) by (auto simp: open_sessions_def)
  have will: "\<exists>evs b1. (case s_will_topic s of None \<Rightarrow> Inr ([], b) | Some wt \<Rightarrow> topics_publish j b (will_pub_req s wt)) = Inr (evs, b1) \<and>
      broker_inv b1 (R + ev_refs evs) \<and> same_tables b b1 \<and> list_all quiet_ev evs"
  proof (cases "s_will_topic s")
    case (Some wt)
    then have "plain (tmq_topic_split (cstr (req_topic (will_pub_req s wt))))" "\<not> req_retain (will_pub_req s wt)"
      using ok by (simp_all add: session_ok_def will_ok_def will_pub_req_def)
    from topics_publish_ok [OF assms(1) this, of j] show ?thesis unfolding Some option.case by blast
  qed (use assms(1) in simp)
  show ?thesis using assms(5)
  proof
    assume req: "req = Session_Disconnect (Some a)"
    show ?thesis using close_session_ok [OF assms(1,3) filed assms(4)] get_session_Some [OF assms(3)]
      by (auto simp: req deref_session_def)
  next
    assume req: "req = Session_Force_Close (Some a)"
    obtain evs b1 where b1: "(case s_will_topic s of None \<Rightarrow> Inr ([], b) | Some wt \<Rightarrow> topics_publish j b (will_pub_req s wt)) = Inr (evs, b1)"
        "broker_inv b1 (R + ev_refs evs)" "same_tables b b1" "list_all quiet_ev evs"
      using will by blast
    have "session_of b1 (s_client_id s) = Some s" using b1(3) filed assms(3) by (simp add: same_tables_def session_of_def)
    moreover have filed1: "map_of (br_sessions b1) (s_client_id s) = Some a" using b1(3) filed by (simp add: same_tables_def)
    ultimately obtain n1 where s1: "session_at b1 a = Some (s, n1)" by (auto simp: session_of_Some)
    have "synced b1 (s_client_id s)"
      using assms(4) same_tables_tree [OF b1(3)] b1(3) by (simp add: synced_def sess_subs_def same_tables_def)
    then obtain b' where b': "close_session b1 a False = Inr ([Conn_Unref (s_conn s)], b')" "broker_inv b' (R + ev_refs evs)"
        "only_client (s_client_id s) b1 b'" "open_sessions b' = open_sessions b1 - {a}" "synced b' (s_client_id s)"
        "live b' (s_client_id s) = None"
      using close_session_ok [OF b1(2) s1 filed1] by blast
    have "open_sessions b' = open_sessions b - {a}" using b'(4) b1(3) by (simp add: same_tables_def)
    then show ?thesis
      using b1 b' only_client_trans [OF same_tables_only [OF b1(3)] b'(3)] get_session_Some [OF assms(3)]
      by (simp add: req deref_session_def)
  qed
qed

end
