(* ===== verification/System.thy ===== *)
theory System
  imports Io_Context Broker_Inv Broker_Init
begin

text \<open>
  The broker process: the acceptor, the I/O threads, the broker thread and the thread pool, which run
  concurrently and exchange tasks and mails. A step is one callback of one thread (a packet delivered by the
  decoder, a mail, a task, a timer, the end of a connection), and the steps of different threads interleave in
  any order; only the order inside a queue is kept. The theorem is that no step of a process with well-behaved
  clients faults: sessions are not used after they have been freed, no NULL pointer is dereferenced and no
  assertion fails, however the threads interleave.
\<close>

section \<open>Callbacks\<close>

text \<open>What the decoder writes before it delivers a packet (\<open>publish_acks\<close>, \<open>parse_pub_rel_packet\<close> and \<open>parse_ping_req_packet\<close>).\<close>

fun packet_acks :: "nat \<Rightarrow> any_packet \<Rightarrow> broker_event list" where
  "packet_acks c (PUBLISH p) =
     (if PUBLISH_QOS (pub_flags p) = 1 then [Write c (PUBACK (packet_id p))]
      else if PUBLISH_QOS (pub_flags p) = 2 then [Write c (PUBREC (packet_id p))] else [])"
| "packet_acks c (PUBREL i) = [Write c (PUBCOMP i)]"
| "packet_acks c PINGREQ = [Write c PINGRESP]"
| "packet_acks c _ = []"

text \<open>The session handlers that \<^verbatim>\<open>tmq_mqtt_codec_init\<close> registers for packets of a client.\<close>

fun packet_op :: "any_packet \<Rightarrow> session_op option" where
  "packet_op (PUBLISH p) = Some (In_Publish p)"
| "packet_op (PUBACK i) = Some (In_Puback i)"
| "packet_op (PUBREC i) = Some (In_Pubrec i)"
| "packet_op (PUBREL i) = Some (In_Pubrel i)"
| "packet_op (PUBCOMP i) = Some (In_Pubcomp i)"
| "packet_op (SUBSCRIBE p) = Some (In_Subscribe p)"
| "packet_op (UNSUBSCRIBE p) = Some (In_Unsubscribe p)"
| "packet_op PINGREQ = Some In_Pingreq"
| "packet_op _ = None"

text \<open>The calls the session at \<open>a\<close> makes: packets go to its connection, the others to the broker.\<close>

fun upcalls :: "addr \<Rightarrow> tmq_session \<Rightarrow> session_event list \<Rightarrow> broker \<Rightarrow> broker_event list \<times> broker" where
  "upcalls a s [] b = ([], b)"
| "upcalls a s (Session.Send p # es) b = (let (evs, b') = upcalls a s es b in (Write (s_conn s) p # evs, b'))"
| "upcalls a s (New_Message t m r u c # es) b =
     (let (evs, b1) = mqtt_publish b (Some s) t m r (Some u) (Some c) False;
          (evs', b2) = upcalls a s es b1
      in (evs @ evs', b2))"
| "upcalls a s (Broker_Subscribe c p # es) b = (let (evs, b') = upcalls a s es b in (mqtt_subscribe a c p @ evs, b'))"
| "upcalls a s (Broker_Unsubscribe c p # es) b = (let (evs, b') = upcalls a s es b in (mqtt_unsubscribe a c p @ evs, b'))"
| "upcalls a s (_ # es) b = upcalls a s es b"

definition session_packet :: "write_errors \<Rightarrow> int \<Rightarrow> nat \<Rightarrow> any_packet \<Rightarrow> session_op \<Rightarrow> system \<Rightarrow> system res" where
  "session_packet bad now c p op sys =
     (case ctx_session (conns sys ! c) of
        None \<Rightarrow> Inl Type_Confusion
      | Some a \<Rightarrow>
          bind (get_session (br sys) a) (\<lambda>s.
          bind (session_step now op s) (\<lambda>(es, s').
            let (evs, b) = upcalls a s' es (put_session (br sys) a s')
            in Inr (io_emits bad (packet_acks c p @ evs) (sys\<lparr>br := b\<rparr>)))))"

definition on_connect :: "write_errors \<Rightarrow> (tmq_str \<Rightarrow> tmq_str) \<Rightarrow> nat \<Rightarrow> connect_pkt \<Rightarrow> system \<Rightarrow> system res" where
  "on_connect bad encode c p sys =
     (let k = conns sys ! c
      in if ctx_session k \<noteq> None then Inl Type_Confusion
         else bind (mqtt_connect encode (br sys) c p) (\<lambda>evs.
                Inr (io_emits bad evs (set_conn c (k\<lparr>ctx_state := STARTING_SESSION\<rparr>) sys))))"

definition on_disconnect :: "nat \<Rightarrow> system \<Rightarrow> system res" where
  "on_disconnect c sys =
     (let k = conns sys ! c; sys' = set_conn c (k\<lparr>ctx_state := NO_SESSION, ctx_session := None\<rparr>) sys
      in if ctx_state k = IN_SESSION
         then (case ctx_session k of None \<Rightarrow> Inl Type_Confusion | Some a \<Rightarrow> Inr (emits (mqtt_disconnect a) sys'))
         else Inr sys')"

definition on_packet :: "write_errors \<Rightarrow> (tmq_str \<Rightarrow> tmq_str) \<Rightarrow> int \<Rightarrow> nat \<Rightarrow> any_packet \<Rightarrow> system \<Rightarrow> system res" where
  "on_packet bad encode now c p sys =
     (case p of
        CONNECT q \<Rightarrow> on_connect bad encode c q sys
      | DISCONNECT \<Rightarrow> on_disconnect c sys
      | _ \<Rightarrow> (case packet_op p of None \<Rightarrow> Inr sys | Some op \<Rightarrow> session_packet bad now c p op sys))"

section \<open>Steps\<close>

datatype sys_event =
    Accept bool u64 tmq_str u32
  | Accept_Console u64 tmq_str
  | Console_Add_User nat tmq_str tmq_str
  | Packet int nat any_packet
  | Handshake "bool option" nat
  | Close nat
  | Run_High nat int
  | Run_Low nat int
  | Pool
  | Response nat
  | Send_Mail nat
  | Broadcast_Mail nat int
  | Keepalive nat int

text \<open>
  A new connection: the acceptor's callback and, in the I/O thread it chose, the handler of the mail. The acceptor of the console has the same
  callback as that of MQTT.
\<close>

definition accept :: "bool \<Rightarrow> bool \<Rightarrow> u64 \<Rightarrow> tmq_str \<Rightarrow> u32 \<Rightarrow> system \<Rightarrow> system res" where
  "accept local ssl sock name ip sys =
     (case (if ssl then dispatch_ssl_connection else dispatch_new_connection) sock (br sys) of
        ([Tcp_Connection i m], b) \<Rightarrow> new_tcp_connection_handler i local name ip m (sys\<lparr>br := b\<rparr>)
      | _ \<Rightarrow> Inr sys)"

definition run_broker :: "(tmq_str \<Rightarrow> bool) \<Rightarrow> nat \<Rightarrow> int \<Rightarrow> broker_task \<Rightarrow> system \<Rightarrow> system res" where
  "run_broker j rnd now t sys =
     bind (run_task j rnd now t (br sys)) (\<lambda>(evs, b). Inr (emits evs (sys\<lparr>br := b\<rparr>)))"

fun run_pool :: "(tmq_str \<Rightarrow> tmq_str) \<Rightarrow> (tmq_str \<Rightarrow> tmq_str \<Rightarrow> bool) \<Rightarrow> (tmq_str \<Rightarrow> tmq_str \<Rightarrow> bool) \<Rightarrow> pool_task \<Rightarrow> system \<Rightarrow> system" where
  "run_pool encode valid addu (Validate_Password c p) sys = emits (validate_password_in_thread_pool valid (br sys) c p) sys"
| "run_pool encode valid addu (User_Operation x) sys = emits (user_operation_in_thread_pool encode addu (br sys) x) sys"

record environment =
  env_json :: "tmq_str \<Rightarrow> bool"
  env_encode :: "tmq_str \<Rightarrow> tmq_str"
  env_valid :: "tmq_str \<Rightarrow> tmq_str \<Rightarrow> bool"
  env_add_user :: "tmq_str \<Rightarrow> tmq_str \<Rightarrow> bool"
  env_bad :: write_errors

fun sys_do :: "environment \<Rightarrow> sys_event \<Rightarrow> system \<Rightarrow> system res" where
  "sys_do env (Accept ssl sock name ip) sys = accept False ssl sock name ip sys"
| "sys_do env (Accept_Console sock name) sys = accept True False sock name 0 sys"
| "sys_do env (Console_Add_User c user pw) sys = Inr (emits (add_user (br sys) c user pw) sys)"
| "sys_do env (Packet now c p) sys = on_packet (env_bad env) (env_encode env) now c p sys"
| "sys_do env (Handshake r c) sys = Inr (ssl_handshake r c sys)"
| "sys_do env (Close c) sys = Inr (conn_close c sys)"
| "sys_do env (Run_High rnd now) sys =
     (case high sys of [] \<Rightarrow> Inr sys | t # ts \<Rightarrow> run_broker (env_json env) rnd now t (sys\<lparr>high := ts\<rparr>))"
| "sys_do env (Run_Low rnd now) sys =
     (case low sys of [] \<Rightarrow> Inr sys | t # ts \<Rightarrow> run_broker (env_json env) rnd now t (sys\<lparr>low := ts\<rparr>))"
| "sys_do env Pool sys =
     (case pool sys of [] \<Rightarrow> Inr sys
      | t # ts \<Rightarrow> Inr (run_pool (env_encode env) (env_valid env) (env_add_user env) t (sys\<lparr>pool := ts\<rparr>)))"
| "sys_do env (Response i) sys =
     (case first_mail i (responses sys) of None \<Rightarrow> Inr sys
      | Some (r, ms) \<Rightarrow> connect_complete_handler (env_bad env) r (sys\<lparr>responses := ms\<rparr>))"
| "sys_do env (Send_Mail i) sys =
     (case first_mail i (sends sys) of None \<Rightarrow> Inr sys
      | Some ((c, p), ms) \<Rightarrow> Inr (send_packet_handler (env_bad env) c p (sys\<lparr>sends := ms\<rparr>)))"
| "sys_do env (Broadcast_Mail i now) sys =
     (case first_mail i (broadcasts sys) of None \<Rightarrow> Inr sys
      | Some (x, ms) \<Rightarrow> broadcast_handler (env_bad env) now x (sys\<lparr>broadcasts := ms\<rparr>))"
| "sys_do env (Keepalive i now) sys = mqtt_keepalive i now sys"

text \<open>
  Well-behaved clients: the packets of a session are sent between CONNACK and DISCONNECT, CONNECT only on a
  connection without a session; filters are non-empty with \<^verbatim>\<open>#\<close> only at the end; an UNSUBSCRIBE names each
  filter once and only filters of the session; topics of messages and wills have no wildcards and are not retained; a
  user name comes with a password; and a connection whose CONNECT is being refused is not closed before the
  answer. The findings show what happens otherwise.
\<close>

fun packet_ok :: "broker \<Rightarrow> io_conn \<Rightarrow> any_packet \<Rightarrow> bool" where
  "packet_ok b k (CONNECT p) \<longleftrightarrow> ctx_session k = None \<and> will_plain p \<and> (username p \<noteq> None \<longrightarrow> password p \<noteq> None)"
| "packet_ok b k DISCONNECT \<longleftrightarrow> True"
| "packet_ok b k (PUBLISH p) \<longleftrightarrow>
     ctx_state k = IN_SESSION \<and> plain (tmq_topic_split (cstr (topic p))) \<and> \<not> PUBLISH_RETAIN (pub_flags p)"
| "packet_ok b k (SUBSCRIBE p) \<longleftrightarrow> ctx_state k = IN_SESSION \<and> list_all filter_ok (map topic_filter (sub_topics p))"
| "packet_ok b k (UNSUBSCRIBE p) \<longleftrightarrow>
     ctx_state k = IN_SESSION \<and> distinct (map (\<lambda>f. tmq_topic_split (cstr f)) (unsub_topics p)) \<and>
     (case ctx_session k of
        None \<Rightarrow> True
      | Some a \<Rightarrow> (case session_at b a of None \<Rightarrow> True | Some (s, n) \<Rightarrow> levels_of (unsub_topics p) \<subseteq> filters_of s))"
| "packet_ok b k p \<longleftrightarrow> packet_op p = None \<or> ctx_state k = IN_SESSION"

fun allowed :: "system \<Rightarrow> sys_event \<Rightarrow> bool" where
  "allowed sys (Packet now c p) \<longleftrightarrow>
     c < length (conns sys) \<and> \<not> is_console (conns sys ! c) \<and> packet_ok (br sys) (conns sys ! c) p"
| "allowed sys (Handshake r c) \<longleftrightarrow> c < length (conns sys)"
| "allowed sys (Console_Add_User c user pw) \<longleftrightarrow> c < length (conns sys) \<and> is_console (conns sys ! c)"
| "allowed sys (Close c) \<longleftrightarrow> c < length (conns sys)"
| "allowed sys (Response i) \<longleftrightarrow>
     (case first_mail i (responses sys) of
        Some (r, ms) \<Rightarrow> resp_code r = CONNECTION_ACCEPTED \<or> tcp_state (conns sys ! resp_conn r) = CONNECTED
      | None \<Rightarrow> True)"
| "allowed sys _ \<longleftrightarrow> True"

section \<open>Queues after a callback\<close>

fun to_high :: "broker_event \<Rightarrow> broker_task list" where
  "to_high (Post t p) = (if p = 0 then [] else [t])"
| "to_high _ = []"

fun to_low :: "broker_event \<Rightarrow> broker_task list" where
  "to_low (Post t p) = (if p = 0 then [t] else [])"
| "to_low _ = []"

fun to_pool :: "broker_event \<Rightarrow> pool_task list" where
  "to_pool (Pool_Task t) = [t]"
| "to_pool _ = []"

fun to_responses :: "broker_event \<Rightarrow> (nat \<times> session_connect_resp) list" where
  "to_responses (Connect_Response i r) = [(i, r)]"
| "to_responses _ = []"

lemma emits_simps [simp]: "emits [] sys = sys" "emits (e # evs) sys = emits evs (emit e sys)"
  by (simp_all add: emits_def)

lemma emit_fields [simp]: "br (emit e sys) = br sys" "conns (emit e sys) = conns sys"
  "high (emit e sys) = high sys @ to_high e" "low (emit e sys) = low sys @ to_low e"
  "pool (emit e sys) = pool sys @ to_pool e" "responses (emit e sys) = responses sys @ to_responses e"
  by (cases e; simp)+

lemma emits_fields [simp]: "br (emits evs sys) = br sys" "conns (emits evs sys) = conns sys"
  "high (emits evs sys) = high sys @ concat (map to_high evs)" "low (emits evs sys) = low sys @ concat (map to_low evs)"
  "pool (emits evs sys) = pool sys @ concat (map to_pool evs)"
  "responses (emits evs sys) = responses sys @ concat (map to_responses evs)"
  by (induction evs arbitrary: sys) simp_all

definition mail_refs :: "(nat \<times> broadcast_ctx) list \<Rightarrow> addr multiset" where
  "mail_refs ms = (\<Sum>(i, x)\<leftarrow>ms. mset (map sub_session (bc_subscribers x)))"

lemma mail_refs_simps [simp]: "mail_refs [] = {#}"
  "mail_refs ((i, x) # ms) = mset (map sub_session (bc_subscribers x)) + mail_refs ms"
  "mail_refs (ms @ ms') = mail_refs ms + mail_refs ms'"
  by (simp_all add: mail_refs_def)

lemma emits_refs [simp]: "mail_refs (broadcasts (emits evs sys)) = mail_refs (broadcasts sys) + ev_refs evs"
proof (induction evs arbitrary: sys)
  case (Cons e evs)
  have "mail_refs (broadcasts (emit e sys)) = mail_refs (broadcasts sys) + refs_of e" by (cases e) simp_all
  then show ?case using Cons by (simp add: add.assoc)
qed simp

lemma quiet_queues [simp]:
  "quiet_ev e \<Longrightarrow> to_high e = []" "quiet_ev e \<Longrightarrow> to_low e = []" "quiet_ev e \<Longrightarrow> to_pool e = []" "quiet_ev e \<Longrightarrow> to_responses e = []"
  by (cases e; simp)+

lemma noisy_queues:
  "concat (map to_high evs) = concat (map to_high (noisy evs))" "concat (map to_low evs) = concat (map to_low (noisy evs))"
  "concat (map to_pool evs) = concat (map to_pool (noisy evs))" "concat (map to_responses evs) = concat (map to_responses (noisy evs))"
  by (induction evs) auto

lemma quiet_concat [simp]:
  assumes "list_all quiet_ev evs"
  shows "concat (map to_high evs) = []" "concat (map to_low evs) = []" "concat (map to_pool evs) = []" "concat (map to_responses evs) = []"
  using noisy_queues [of evs] noisy_quiet [OF assms] by simp_all

lemma writes_quiet [simp]: "list_all quiet_ev (session_writes d evs)" "ev_refs (session_writes d evs) = {#}"
  by (induction evs) (auto simp: session_writes_def split: session_event.splits)

declare concat_eq_Nil_conv [simp del]

lemma first_mail_split:
  "first_mail i ms = Some (x, ms') \<Longrightarrow> \<exists>us vs. ms = us @ (i, x) # vs \<and> ms' = us @ vs"
proof (induction ms arbitrary: ms')
  case (Cons m ms)
  obtain j y where m: "m = (j, y)" by (cases m)
  show ?case
  proof (cases "j = i")
    case True
    then show ?thesis using Cons.prems m by (intro exI [of _ "[]"] exI [of _ ms]) simp
  next
    case False
    then obtain us vs where "ms = us @ (i, x) # vs" "ms' = m # us @ vs" using Cons m by (auto split: option.splits)
    then show ?thesis by (intro exI [of _ "m # us"] exI [of _ vs]) simp
  qed
qed simp

section \<open>The invariant\<close>

text \<open>Who holds a session: a connection, an answer on its way to one, or a request to close it. No two do.\<close>

definition conn_token :: "io_conn \<Rightarrow> addr list" where
  "conn_token k = (if ctx_state k = IN_SESSION then (case ctx_session k of None \<Rightarrow> [] | Some a \<Rightarrow> [a]) else [])"

definition resp_token :: "nat \<times> session_connect_resp \<Rightarrow> addr list" where
  "resp_token m = (case resp_session (snd m) of None \<Rightarrow> [] | Some a \<Rightarrow> [a])"

fun task_token :: "broker_task \<Rightarrow> addr list" where
  "task_token (Handle_Session_Req (Session_Disconnect (Some a))) = [a]"
| "task_token (Handle_Session_Req (Session_Force_Close (Some a))) = [a]"
| "task_token _ = []"

lemma close_token [simp]:
  "task_token (Handle_Session_Req (Session_Disconnect x)) = [] \<longleftrightarrow> x = None"
  "task_token (Handle_Session_Req (Session_Force_Close x)) = [] \<longleftrightarrow> x = None"
  by (cases x; simp)+

definition gather :: "('a \<Rightarrow> addr list) \<Rightarrow> 'a list \<Rightarrow> addr multiset" where
  "gather f xs = mset (concat (map f xs))"

lemma gather_simps [simp]: "gather f [] = {#}" "gather f (x # xs) = mset (f x) + gather f xs" "gather f (xs @ ys) = gather f xs + gather f ys"
  by (simp_all add: gather_def)

lemma gather_update: "i < length xs \<Longrightarrow> gather f (xs[i := y]) + mset (f (xs ! i)) = gather f xs + mset (f y)"
  by (induction xs arbitrary: i) (auto simp: algebra_simps split: nat.splits)

lemma gather_nth: "i < length xs \<Longrightarrow> a \<in> set (f (xs ! i)) \<Longrightarrow> a \<in># gather f xs"
  by (auto simp: gather_def)

definition holders :: "system \<Rightarrow> addr multiset" where
  "holders sys = gather conn_token (conns sys) + gather resp_token (responses sys) + gather task_token (high sys)"

text \<open>The requests about subscriptions still in the queue turn what the tree has into what the session has.\<close>

fun follow :: "tmq_str \<Rightarrow> broker_task list \<Rightarrow> tmq_str list set \<Rightarrow> tmq_str list set option" where
  "follow c [] F = Some F"
| "follow c (Handle_Topic_Req r # ts) F =
     (if topic_client r = c then (if topic_req_ok r F then follow c ts (topic_effect r F) else None) else follow c ts F)"
| "follow c (_ # ts) F = follow c ts F"

text \<open>No request about subscriptions is behind the request to close the session.\<close>

definition without :: "broker_task \<Rightarrow> (tmq_str \<Rightarrow> addr option) \<Rightarrow> tmq_str \<Rightarrow> addr option" where
  "without t M c = (case M c of None \<Rightarrow> None | Some a \<Rightarrow> if a \<in> set (task_token t) then None else Some a)"

lemma without_Some [simp]: "without t M c = Some a \<longleftrightarrow> M c = Some a \<and> a \<notin> set (task_token t)"
  by (auto simp: without_def split: option.splits)

lemma without_None: "M c = None \<Longrightarrow> without t M c = None"
  by (simp add: without_def)

fun ordered :: "(tmq_str \<Rightarrow> addr option) \<Rightarrow> broker_task list \<Rightarrow> bool" where
  "ordered M [] \<longleftrightarrow> True"
| "ordered M (Handle_Topic_Req r # ts) \<longleftrightarrow> M (topic_client r) = Some (topic_owner r) \<and> ordered M ts"
| "ordered M (t # ts) \<longleftrightarrow> ordered (without t M) ts"

fun high_ok :: "nat \<Rightarrow> broker_task \<Rightarrow> bool" where
  "high_ok n (Handle_Session_Req (Session_Connect c p)) \<longleftrightarrow> c < n \<and> will_plain p"
| "high_ok n (Handle_Session_Req r) \<longleftrightarrow> task_token (Handle_Session_Req r) \<noteq> []"
| "high_ok n (Handle_Topic_Req r) \<longleftrightarrow> True"
| "high_ok n (Handle_Publish_Req r) \<longleftrightarrow> False"

fun low_ok :: "broker_task \<Rightarrow> bool" where
  "low_ok (Handle_Publish_Req r) \<longleftrightarrow> plain (tmq_topic_split (cstr (req_topic r))) \<and> \<not> req_retain r"
| "low_ok _ \<longleftrightarrow> False"

fun pool_ok :: "nat \<Rightarrow> pool_task \<Rightarrow> bool" where
  "pool_ok n (Validate_Password c p) \<longleftrightarrow> c < n \<and> will_plain p"
| "pool_ok n (User_Operation x) \<longleftrightarrow> True"

definition resp_ok :: "nat \<Rightarrow> nat \<times> session_connect_resp \<Rightarrow> bool" where
  "resp_ok n m \<longleftrightarrow> resp_conn (snd m) < n \<and> (resp_code (snd m) = CONNECTION_ACCEPTED \<longleftrightarrow> resp_session (snd m) \<noteq> None)"

definition conn_ok :: "io_conn \<Rightarrow> bool" where
  "conn_ok k \<longleftrightarrow> ctx_state k = IN_SESSION \<longrightarrow> ctx_session k \<noteq> None"

definition held_once :: "broker \<Rightarrow> addr multiset \<Rightarrow> bool" where
  "held_once b T \<longleftrightarrow> (\<forall>a. count T a \<le> (if a \<in> open_sessions b then 1 else 0))"

definition queues_ok :: "system \<Rightarrow> bool" where
  "queues_ok sys \<longleftrightarrow> list_all (high_ok (length (conns sys))) (high sys) \<and> list_all low_ok (low sys) \<and>
     list_all (pool_ok (length (conns sys))) (pool sys) \<and> list_all (resp_ok (length (conns sys))) (responses sys) \<and>
     list_all conn_ok (conns sys)"

definition sys_inv :: "system \<Rightarrow> bool" where
  "sys_inv sys \<longleftrightarrow> broker_inv (br sys) (mail_refs (broadcasts sys)) \<and> held_once (br sys) (holders sys) \<and>
     (\<forall>c. follow c (high sys) (tree_subs (br sys) c) = Some (sess_subs (br sys) c)) \<and>
     ordered (live (br sys)) (high sys) \<and> queues_ok sys"

lemma sys_invI:
  assumes "broker_inv (br sys) (mail_refs (broadcasts sys))" and "held_once (br sys) (holders sys)"
    and "\<And>c. follow c (high sys) (tree_subs (br sys) c) = Some (sess_subs (br sys) c)"
    and "ordered (live (br sys)) (high sys)" and "queues_ok sys"
  shows "sys_inv sys"
  using assms by (simp add: sys_inv_def)

lemma sys_invD:
  assumes "sys_inv sys"
  shows "broker_inv (br sys) (mail_refs (broadcasts sys))" and "held_once (br sys) (holders sys)"
    and "follow c (high sys) (tree_subs (br sys) c) = Some (sess_subs (br sys) c)"
    and "ordered (live (br sys)) (high sys)" and "queues_ok sys"
  using assms by (auto simp: sys_inv_def)

section \<open>Queue lemmas\<close>

lemma ordered_mono:
  assumes "ordered M ts" and "\<And>c a. M c = Some a \<Longrightarrow> N c = Some a"
  shows "ordered N ts"
  using assms
proof (induction M ts arbitrary: N rule: ordered.induct)
  case (2 M r ts)
  then show ?case by (metis ordered.simps(2))
qed auto

lemma follow_dead: "ordered M ts \<Longrightarrow> M c = None \<Longrightarrow> follow c ts F = Some F"
  by (induction M ts rule: ordered.induct) (auto simp: without_None)

lemma follow_append: "follow c (ts @ us) F = (case follow c ts F of None \<Rightarrow> None | Some G \<Rightarrow> follow c us G)"
  by (induction c ts F rule: follow.induct) auto

lemma ordered_append:
  assumes "ordered M ts" and "\<And>N. (\<And>c a. M c = Some a \<Longrightarrow> a \<notin># gather task_token ts \<Longrightarrow> N c = Some a) \<Longrightarrow> ordered N us"
  shows "ordered M (ts @ us)"
  using assms
proof (induction M ts rule: ordered.induct)
  case (1 M)
  then show ?case by auto
qed auto

fun is_topic :: "broker_task \<Rightarrow> bool" where
  "is_topic (Handle_Topic_Req r) \<longleftrightarrow> True"
| "is_topic _ \<longleftrightarrow> False"

lemma no_topics: "list_all (\<lambda>t. \<not> is_topic t) ts \<Longrightarrow> follow c ts F = Some F \<and> ordered M ts"
proof (induction ts arbitrary: M)
  case (Cons t ts)
  then show ?case by (cases t) auto
qed simp

lemma held_once_mono: "held_once b T \<Longrightarrow> T' \<subseteq># T \<Longrightarrow> held_once b T'"
  unfolding held_once_def by (meson mset_subset_eq_count order_trans)

lemma held_open: "held_once b T \<Longrightarrow> a \<in># T \<Longrightarrow> a \<in> open_sessions b"
  by (metis count_greater_zero_iff held_once_def leD)

text \<open>A step that changes the queues and connections only.\<close>

lemma sys_inv_queues:
  assumes "sys_inv sys" and "br sys' = br sys" and "mail_refs (broadcasts sys') = mail_refs (broadcasts sys)"
    and "high sys' = high sys @ ts" and "list_all (\<lambda>t. \<not> is_topic t) ts" and "holders sys' \<subseteq># holders sys" and "queues_ok sys'"
  shows "sys_inv sys'"
proof (rule sys_invI)
  note D = sys_invD [OF assms(1)]
  show "broker_inv (br sys') (mail_refs (broadcasts sys'))" using D(1) assms(2,3) by simp
  show "held_once (br sys') (holders sys')" using held_once_mono [OF D(2) assms(6)] assms(2) by simp
  show "follow c (high sys') (tree_subs (br sys') c) = Some (sess_subs (br sys') c)" for c
    using D(3) [of c] no_topics [OF assms(5)] by (simp add: assms(2,4) follow_append)
  show "ordered (live (br sys')) (high sys')"
    unfolding assms(2,4) using D(4) no_topics [OF assms(5)] by (intro ordered_append) auto
qed (rule assms(7))

lemma queues_okD:
  assumes "queues_ok sys"
  shows "c < length (conns sys) \<Longrightarrow> conn_ok (conns sys ! c)" and "m \<in> set (responses sys) \<Longrightarrow> resp_ok (length (conns sys)) m"
  using assms by (auto simp: queues_ok_def list_all_iff)

lemma set_conn_fields [simp]:
  "br (set_conn c k sys) = br sys" "high (set_conn c k sys) = high sys" "low (set_conn c k sys) = low sys"
  "pool (set_conn c k sys) = pool sys" "responses (set_conn c k sys) = responses sys" "broadcasts (set_conn c k sys) = broadcasts sys"
  "conns (set_conn c k sys) = (conns sys)[c := k]"
  by (simp_all add: set_conn_def)

lemma queues_set_conn:
  assumes "queues_ok sys" and "conn_ok k"
  shows "queues_ok (set_conn c k sys)"
  using assms by (auto simp: queues_ok_def list_all_iff dest!: subsetD [OF set_update_subset_insert])

lemma holders_set_conn:
  assumes "c < length (conns sys)"
  shows "holders (set_conn c k sys) + mset (conn_token (conns sys ! c)) = holders sys + mset (conn_token k)"
  using gather_update [OF assms, of conn_token k] by (simp add: holders_def algebra_simps)

lemma set_conn_inv:
  assumes "sys_inv sys" and "c < length (conns sys)" and "conn_token k = conn_token (conns sys ! c)" and "conn_ok k"
  shows "sys_inv (set_conn c k sys)"
proof (rule sys_inv_queues [OF assms(1), where ts = "[]"])
  show "holders (set_conn c k sys) \<subseteq># holders sys" using holders_set_conn [OF assms(2), of k] assms(3) by simp
  show "queues_ok (set_conn c k sys)" by (rule queues_set_conn [OF sys_invD(5) [OF assms(1)] assms(4)])
qed simp_all

text \<open>A session passes from the connection to a request that closes it.\<close>

lemma hand_over:
  assumes "sys_inv sys" and "c < length (conns sys)" and "conn_token (conns sys ! c) = [a]" and "conn_token k = []" and "conn_ok k"
    and "task_token t = [a]" and "t = Handle_Session_Req r"
  shows "sys_inv (emits [Post t 1] (set_conn c k sys))"
proof (rule sys_inv_queues [OF assms(1), where ts = "[t]"])
  let ?s = "emits [Post t 1] (set_conn c k sys)"
  have "holders ?s = holders (set_conn c k sys) + {#a#}" using assms(6) by (simp add: holders_def)
  then show "holders ?s \<subseteq># holders sys" using holders_set_conn [OF assms(2), of k] assms(3,4) by simp
  have "high_ok n t" for n using assms(6,7) by (cases r) auto
  then show "queues_ok ?s" using queues_set_conn [OF sys_invD(5) [OF assms(1)] assms(5), of c] by (simp add: queues_ok_def)
qed (simp_all add: assms(7))

lemma conn_close_inv:
  assumes "sys_inv sys" and "c < length (conns sys)"
  shows "sys_inv (conn_close c sys) \<and> length (conns (conn_close c sys)) = length (conns sys)"
proof (cases "tcp_state (conns sys ! c) = DISCONNECTED")
  case True
  then show ?thesis using assms by (simp add: conn_close_def)
next
  case False
  let ?k = "conns sys ! c" and ?cb = "if is_console (conns sys ! c) then sys else tcp_conn_close_callback c sys"
  have cb: "sys_inv ?cb \<and> length (conns ?cb) = length (conns sys)"
  proof (cases "ctx_state ?k = IN_SESSION")
    case True
    then obtain a where a: "ctx_session ?k = Some a"
      using queues_okD(1) [OF sys_invD(5) [OF assms(1)] assms(2)] by (auto simp: conn_ok_def)
    have "sys_inv (emits [Post (Handle_Session_Req (Session_Force_Close (Some a))) 1] (set_conn c (?k\<lparr>ctx_state := NO_SESSION\<rparr>) sys))"
      using True a by (intro hand_over [OF assms]) (simp_all add: conn_token_def conn_ok_def)
    then show ?thesis using True a assms(1) by (simp add: tcp_conn_close_callback_def Let_def)
  next
    case False
    then show ?thesis using assms by (simp add: tcp_conn_close_callback_def)
  qed
  have "sys_inv (set_conn c ((conns ?cb ! c)\<lparr>tcp_state := DISCONNECTED\<rparr>) ?cb)"
    using cb assms(2) queues_okD(1) [OF sys_invD(5), of ?cb c]
    by (intro set_conn_inv) (auto simp: conn_token_def conn_ok_def)
  then show ?thesis using False cb by (simp add: conn_close_def Let_def)
qed

text \<open>Writing to connections, and closing those whose write fails, keeps the invariant, whatever else a handler does to the lower queue.\<close>

lemma conn_close_br [simp]: "br (conn_close c sys) = br sys"
  by (simp add: conn_close_def tcp_conn_close_callback_def Let_def)

lemma conn_close_broadcasts: "conn_close c (sys\<lparr>broadcasts := B\<rparr>) = (conn_close c sys)\<lparr>broadcasts := B\<rparr>"
  by (simp add: conn_close_def tcp_conn_close_callback_def set_conn_def Let_def)

lemma io_emits_simps [simp]: "io_emits bad [] sys = sys" "io_emits bad (e # evs) sys = io_emits bad evs (io_emit bad e sys)"
    "io_emits bad (xs @ ys) sys = io_emits bad ys (io_emits bad xs sys)"
  by (simp_all add: io_emits_def)

lemma io_emit_br [simp]: "br (io_emit bad e sys) = br sys"
  by (cases e) (simp_all add: conn_write_def)

lemma io_emits_br [simp]: "br (io_emits bad evs sys) = br sys"
  by (induction evs arbitrary: sys) simp_all

fun no_write :: "broker_event \<Rightarrow> bool" where
  "no_write (Write c p) \<longleftrightarrow> False"
| "no_write _ \<longleftrightarrow> True"

lemma io_emits_no_write: "list_all no_write evs \<Longrightarrow> io_emits bad evs sys = emits evs sys"
proof (induction evs arbitrary: sys)
  case (Cons e evs)
  then show ?case by (cases e) simp_all
qed simp

fun only_low :: "broker_event \<Rightarrow> bool" where
  "only_low (Write c p) \<longleftrightarrow> True"
| "only_low (Post t n) \<longleftrightarrow> n = 0 \<and> low_ok t"
| "only_low _ \<longleftrightarrow> False"

lemma io_emits_inv: "sys_inv sys \<Longrightarrow> list_all only_low evs \<Longrightarrow> sys_inv (io_emits bad evs sys)"
proof (induction evs arbitrary: sys)
  case (Cons e evs)
  have q: "queues_ok sys" by (rule sys_invD(5) [OF Cons.prems(1)])
  have "sys_inv (io_emit bad e sys)"
  proof (cases e)
    case (Write c p)
    have "sys_inv (sys\<lparr>written := written sys @ [(c, p)]\<rparr>)"
      using q by (intro sys_inv_queues [OF Cons.prems(1), where ts = "[]"]) (simp_all add: holders_def queues_ok_def)
    then show ?thesis using Write Cons.prems(1) conn_close_inv [OF Cons.prems(1), of c] by (simp add: conn_write_def)
  next
    case (Post t n)
    then show ?thesis using q Cons.prems
      by (intro sys_inv_queues [OF Cons.prems(1), where ts = "[]"]) (simp_all add: holders_def queues_ok_def)
  qed (use Cons.prems in simp_all)
  then show ?case using Cons by simp
qed simp

lemma writes_only_low [simp]: "list_all only_low (session_writes d evs)"
  by (induction evs) (auto simp: session_writes_def split: session_event.splits)

lemma acks_only_low [simp]: "list_all only_low (packet_acks c p)"
  by (cases p) simp_all

lemma io_writes_broadcasts:
  "io_emits bad (session_writes d evs) (sys\<lparr>broadcasts := B\<rparr>) = (io_emits bad (session_writes d evs) sys)\<lparr>broadcasts := B\<rparr>"
proof (induction evs arbitrary: sys)
  case (Cons e evs)
  have "io_emit bad (Write d p) (sys\<lparr>broadcasts := B\<rparr>) = (io_emit bad (Write d p) sys)\<lparr>broadcasts := B\<rparr>" for p
    by (simp add: conn_write_def conn_close_broadcasts)
  then show ?case using Cons by (cases e) (simp_all add: session_writes_def)
qed (simp add: session_writes_def)

lemma fold_conn_close_inv:
  "sys_inv sys \<Longrightarrow> \<forall>c\<in>set cs. c < length (conns sys) \<Longrightarrow> sys_inv (fold conn_close cs sys)"
proof (induction cs arbitrary: sys)
  case (Cons c cs)
  then show ?case using conn_close_inv [of sys c] by simp
qed simp

lemma held_session:
  assumes "sys_inv sys" and "a \<in># holders sys"
  shows "\<exists>s n. session_at (br sys) a = Some (s, n) \<and> s_state s = OPEN"
  using held_open [OF sys_invD(2) [OF assms(1)] assms(2)] by (auto simp: open_sessions_def)

lemma conn_session:
  assumes "sys_inv sys" and "c < length (conns sys)" and "ctx_state (conns sys ! c) = IN_SESSION"
  shows "\<exists>a s n. ctx_session (conns sys ! c) = Some a \<and> session_at (br sys) a = Some (s, n) \<and> s_state s = OPEN \<and> a \<in># gather conn_token (conns sys)"
proof -
  obtain a where a: "ctx_session (conns sys ! c) = Some a"
    using queues_okD(1) [OF sys_invD(5) [OF assms(1)] assms(2)] assms(3) by (auto simp: conn_ok_def)
  then have t: "a \<in># gather conn_token (conns sys)" using assms(2,3) by (intro gather_nth [of c]) (simp_all add: conn_token_def)
  then have "a \<in># holders sys" by (simp add: holders_def)
  from held_session [OF assms(1) this] a t show ?thesis by blast
qed

lemma keepalive_ok:
  assumes "sys_inv sys"
  shows "\<exists>sys'. mqtt_keepalive i now sys = Inr sys' \<and> sys_inv sys'"
proof -
  have "\<exists>r. timeout_conns now sys cs = Inr r \<and> set r \<subseteq> set cs" if "\<forall>c\<in>set cs. c < length (conns sys)" for cs
    using that
  proof (induction cs)
    case (Cons c cs)
    then obtain r where r: "timeout_conns now sys cs = Inr r" "set r \<subseteq> set cs" by auto
    show ?case
    proof (cases "\<not> is_console (conns sys ! c) \<and> ctx_state (conns sys ! c) = IN_SESSION")
      case True
      then obtain a s n where "ctx_session (conns sys ! c) = Some a" "session_at (br sys) a = Some (s, n)"
        using conn_session [OF assms, of c] Cons.prems by auto
      then show ?thesis using r True by (auto simp: Let_def deref_session_def get_session_def)
    qed (use r in auto)
  qed simp
  then obtain r where r: "timeout_conns now sys (open_conns i sys) = Inr r" "set r \<subseteq> set (open_conns i sys)"
    by (metis (no_types, lifting) atLeastLessThan_iff filter_is_subset open_conns_def set_upt subsetD)
  then have "sys_inv (fold conn_close r sys)"
    by (intro fold_conn_close_inv [OF assms]) (auto simp: open_conns_def)
  then show ?thesis using r(1) by (simp add: mqtt_keepalive_def)
qed

section \<open>The broker thread\<close>

lemma live_cong: "br_sessions b' = br_sessions b \<Longrightarrow> open_sessions b' = open_sessions b \<Longrightarrow> live b' = live b"
  by (intro ext) (auto simp: live_def split: option.splits)

lemma live_owner:
  assumes "broker_inv b R" and "a \<in> open_sessions b" and "session_at b a = Some (s, n)"
  shows "live b c = Some a \<longleftrightarrow> c = s_client_id s"
proof -
  have "map_of (br_sessions b) (s_client_id s) = Some a"
    using broker_invD(4) [OF assms(1,3)] assms(2,3) by (auto simp: open_sessions_def)
  then show ?thesis using assms(2) other_client [OF assms(1), of "s_client_id s" a c] by (auto simp: live_Some)
qed

text \<open>Events that leave the queues alone; the step only changes the broker and sends mails.\<close>

lemma quiet_step:
  assumes "broker_inv b (mail_refs (broadcasts sys) + ev_refs evs)" and "list_all quiet_ev evs"
    and "held_once b (holders sys)" and "\<And>c. follow c (high sys) (tree_subs b c) = Some (sess_subs b c)"
    and "ordered (live b) (high sys)" and "queues_ok sys"
  shows "sys_inv (emits evs (sys\<lparr>br := b\<rparr>))"
proof (rule sys_invI)
  have "holders (emits evs (sys\<lparr>br := b\<rparr>)) = holders sys" using assms(2) by (simp add: holders_def)
  then show "held_once (br (emits evs (sys\<lparr>br := b\<rparr>))) (holders (emits evs (sys\<lparr>br := b\<rparr>)))" using assms(3) by simp
  show "queues_ok (emits evs (sys\<lparr>br := b\<rparr>))" using assms(2,6) by (simp add: queues_ok_def)
qed (use assms in simp_all)

lemma run_low_ok:
  assumes "sys_inv sys" and "low sys = t # ts"
  shows "\<exists>sys'. run_broker j rnd now t (sys\<lparr>low := ts\<rparr>) = Inr sys' \<and> sys_inv sys'"
proof -
  note D = sys_invD [OF assms(1)]
  have "low_ok t" using D(5) assms(2) by (simp add: queues_ok_def)
  then obtain r where t: "t = Handle_Publish_Req r" "plain (tmq_topic_split (cstr (req_topic r)))" "\<not> req_retain r"
    by (cases t) auto
  obtain evs b where r: "topics_publish j (br sys) r = Inr (evs, b)" "broker_inv b (mail_refs (broadcasts sys) + ev_refs evs)"
      "same_tables (br sys) b" "list_all quiet_ev evs"
    using topics_publish_ok [OF D(1) t(2,3)] by blast
  have b: "live b = live (br sys)" "sess_subs b = sess_subs (br sys)" "tree_subs b = tree_subs (br sys)" "open_sessions b = open_sessions (br sys)"
    using r(3) live_cong [of b "br sys"] sess_subs_cong [of b "br sys"] same_tables_tree [OF r(3)] by (simp_all add: same_tables_def)
  have "sys_inv (emits evs ((sys\<lparr>low := ts\<rparr>)\<lparr>br := b\<rparr>))"
    using r(2,4) D b assms(2) by (intro quiet_step) (auto simp: holders_def held_once_def queues_ok_def)
  then show ?thesis using r(1) by (simp add: run_broker_def t(1) handle_publish_req_def)
qed

lemma ordered_rest:
  assumes "ordered M (t # ts)"
  shows "ordered (without t M) ts"
proof (cases t)
  case (Handle_Topic_Req r)
  then have "without t M = M" by (auto simp: without_def fun_eq_iff split: option.splits)
  then show ?thesis using assms Handle_Topic_Req by simp
qed (use assms in simp_all)

lemma run_topic_ok:
  assumes "sys_inv sys" and "high sys = Handle_Topic_Req r # ts"
  shows "\<exists>sys'. run_broker j rnd now (Handle_Topic_Req r) (sys\<lparr>high := ts\<rparr>) = Inr sys' \<and> sys_inv sys'"
proof -
  note D = sys_invD [OF assms(1)]
  let ?c = "topic_client r"
  have lv: "live (br sys) ?c = Some (topic_owner r)" using D(4) assms(2) by auto
  then have own: "session_at (br sys) (topic_owner r) \<noteq> None" by (auto simp: live_Some open_sessions_def)
  from lv obtain s where s: "session_of (br sys) ?c = Some s" "s_state s = OPEN" using live_session by blast
  have f: "topic_req_ok r (tree_subs (br sys) ?c)"
      "follow ?c ts (topic_effect r (tree_subs (br sys) ?c)) = Some (sess_subs (br sys) ?c)"
    using D(3) [of ?c] assms(2) by (auto split: if_splits)
  obtain evs b where b: "handle_topic_req (br sys) r = Inr (evs, b)" "broker_inv b (mail_refs (broadcasts sys))" "list_all quiet_ev evs"
      "ev_refs evs = {#}" "br_sessions b = br_sessions (br sys)" "open_sessions b = open_sessions (br sys)"
      "session_of b = session_of (br sys)" "only_client ?c (br sys) b" "tree_subs b ?c = topic_effect r (tree_subs (br sys) ?c)"
    using handle_topic_req_ok [OF D(1) s f(1) own] by blast
  have "follow c ts (tree_subs b c) = Some (sess_subs b c)" for c
    using f(2) b(8,9) D(3) [of c] assms(2) sess_subs_cong [OF b(7)]
    by (cases "c = ?c") (auto simp: only_client_def)
  then have "sys_inv (emits evs ((sys\<lparr>high := ts\<rparr>)\<lparr>br := b\<rparr>))"
    using b D assms(2) live_cong [OF b(5,6)]
    by (intro quiet_step) (auto simp: holders_def held_once_def queues_ok_def)
  then show ?thesis using b(1) by (simp add: run_broker_def)
qed

lemma run_close_ok:
  assumes "sys_inv sys" and "high sys = Handle_Session_Req r # ts"
    and "r = Session_Disconnect (Some a) \<or> r = Session_Force_Close (Some a)"
  shows "\<exists>sys'. run_broker j rnd now (Handle_Session_Req r) (sys\<lparr>high := ts\<rparr>) = Inr sys' \<and> sys_inv sys'"
proof -
  note D = sys_invD [OF assms(1)]
  let ?t = "Handle_Session_Req r"
  have tok: "task_token ?t = [a]" using assms(3) by auto
  have a: "a \<in># holders sys" using assms(2) tok by (simp add: holders_def)
  have op: "a \<in> open_sessions (br sys)" by (rule held_open [OF D(2) a])
  then obtain s n where s: "session_at (br sys) a = Some (s, n)" by (auto simp: open_sessions_def)
  let ?c = "s_client_id s"
  note own = live_owner [OF D(1) op s]
  have ord: "ordered (without ?t (live (br sys))) ts" using ordered_rest D(4) assms(2) by metis
  have dead: "without ?t (live (br sys)) ?c = None" using own [of ?c] tok by (simp add: without_def)
  have fol: "follow c ts (tree_subs (br sys) c) = Some (sess_subs (br sys) c)" for c using D(3) [of c] assms(2) by simp
  have "synced (br sys) ?c" using fol [of ?c] follow_dead [OF ord dead] by (simp add: synced_def)
  then obtain evs b where b: "handle_session_req j rnd now (br sys) r = Inr (evs, b)" "broker_inv b (mail_refs (broadcasts sys) + ev_refs evs)"
      "list_all quiet_ev evs" "open_sessions b = open_sessions (br sys) - {a}" "only_client ?c (br sys) b" "synced b ?c" "live b ?c = None"
    using force_close_ok [OF D(1) op s _ assms(3)] by blast
  have "follow c ts (tree_subs b c) = Some (sess_subs b c)" for c
    using fol [of c] follow_dead [OF ord dead] b(5,6)
    by (cases "c = ?c") (auto simp: synced_def only_client_def sess_subs_def)
  moreover have "ordered (live b) ts"
  proof (rule ordered_mono [OF ord])
    fix c a' assume h: "without ?t (live (br sys)) c = Some a'"
    then have "c \<noteq> ?c" using dead by (metis option.simps(3))
    then show "live b c = Some a'" using h b(4,5) tok by (auto simp: live_Some only_client_def)
  qed
  moreover have "held_once b (holders (sys\<lparr>high := ts\<rparr>))"
    unfolding held_once_def
  proof
    fix a'
    have "holders sys = add_mset a (holders (sys\<lparr>high := ts\<rparr>))" using assms(2) tok by (simp add: holders_def)
    then show "count (holders (sys\<lparr>high := ts\<rparr>)) a' \<le> (if a' \<in> open_sessions b then 1 else 0)"
      using D(2) op b(4) by (cases "a' = a") (auto simp: held_once_def dest: spec [of _ a'])
  qed
  ultimately have "sys_inv (emits evs ((sys\<lparr>high := ts\<rparr>)\<lparr>br := b\<rparr>))"
    using b(2,3) D(5) assms(2) by (intro quiet_step) (auto simp: queues_ok_def)
  then show ?thesis using b(1) by (simp add: run_broker_def)
qed

text \<open>An answer to a CONNECT that carries a session nobody holds, or none.\<close>

lemma respond_step:
  assumes "noisy evs = [Connect_Response i r]" and "ev_refs evs = {#}" and "broker_inv b (mail_refs (broadcasts sys))"
    and "held_once b (holders sys + mset (resp_token (i, r)))" and "\<And>c. follow c (high sys) (tree_subs b c) = Some (sess_subs b c)"
    and "ordered (live b) (high sys)" and "queues_ok sys" and "resp_ok (length (conns sys)) (i, r)"
  shows "sys_inv (emits evs (sys\<lparr>br := b\<rparr>))"
proof (rule sys_invI)
  let ?s = "emits evs (sys\<lparr>br := b\<rparr>)"
  have q: "concat (map to_high evs) = []" "concat (map to_low evs) = []" "concat (map to_pool evs) = []"
      "concat (map to_responses evs) = [(i, r)]"
    using noisy_queues [of evs] assms(1) by simp_all
  then have "holders ?s = holders sys + mset (resp_token (i, r))" by (simp add: holders_def)
  then show "held_once (br ?s) (holders ?s)" using assms(4) by simp
  show "broker_inv (br ?s) (mail_refs (broadcasts ?s))" using assms(2,3) by simp
  show "follow c (high ?s) (tree_subs (br ?s) c) = Some (sess_subs (br ?s) c)" for c using q assms(5) by simp
  show "ordered (live (br ?s)) (high ?s)" using q assms(6) by simp
  show "queues_ok ?s" using assms(7,8) q by (simp add: queues_ok_def)
qed

lemma run_connect_ok:
  assumes "sys_inv sys" and "high sys = Handle_Session_Req (Session_Connect c p) # ts"
  shows "\<exists>sys'. run_broker j rnd now (Handle_Session_Req (Session_Connect c p)) (sys\<lparr>high := ts\<rparr>) = Inr sys' \<and> sys_inv sys'"
proof -
  note D = sys_invD [OF assms(1)]
  define cid where "cid = cstr (effective_client_id (br sys) c p)"
  let ?s = "sys\<lparr>high := ts\<rparr>"
  have p: "c < length (conns sys)" "will_plain p" using D(5) assms(2) by (simp_all add: queues_ok_def)
  have ord: "ordered (live (br sys)) ts"
    using ordered_rest [of "live (br sys)"] D(4) assms(2) by (auto intro: ordered_mono)
  have fol: "follow c' ts (tree_subs (br sys) c') = Some (sess_subs (br sys) c')" for c' using D(3) [of c'] assms(2) by simp
  have tok: "holders ?s = holders sys" using assms(2) by (simp add: holders_def)
  have q: "queues_ok ?s" using D(5) assms(2) by (simp add: queues_ok_def)
  have sy: "synced (br sys) cid" if "live (br sys) cid = None"
    using fol [of cid] follow_dead [OF ord that] by (simp add: synced_def)
  obtain evs b where b: "start_session rnd now (br sys) c p = Inr (evs, b)" "broker_inv b (mail_refs (broadcasts sys))" "ev_refs evs = {#}"
      "only_client cid (br sys) b" "connected (br sys) c cid evs b"
    using start_session_ok [OF D(1) p(2) sy [unfolded cid_def], folded cid_def] by blast
  have "sys_inv (emits evs (?s\<lparr>br := b\<rparr>))"
    using b(5) unfolding connected_def
  proof
    assume h: "noisy evs = [make_connect_respond (br sys) c IDENTIFIER_REJECTED None False] \<and> b = br sys"
    show ?thesis using h b(3) D(1,2) fol ord q p(1) tok
      by (intro respond_step) (auto simp: make_connect_respond_def resp_token_def resp_ok_def)
  next
    assume "accepted (br sys) c cid evs b"
    then obtain a sp where h: "noisy evs = [make_connect_respond (br sys) c CONNECTION_ACCEPTED (Some a) sp]" "a \<notin> open_sessions (br sys)"
        "open_sessions b = insert a (open_sessions (br sys))" "map_of (br_sessions b) cid = Some a" "live (br sys) cid = None" "synced b cid"
      by (auto simp: accepted_def)
    have "follow c' ts (tree_subs b c') = Some (sess_subs b c')" for c'
      using fol [of c'] follow_dead [OF ord h(5)] h(6) b(4)
      by (cases "c' = cid") (auto simp: synced_def only_client_def sess_subs_def)
    moreover have "ordered (live b) ts"
    proof (rule ordered_mono [OF ord])
      fix c' a' assume l: "live (br sys) c' = Some a'"
      then have "c' \<noteq> cid" using h(5) by auto
      then show "live b c' = Some a'" using l h(3) b(4) by (auto simp: live_Some only_client_def)
    qed
    moreover have "held_once b (holders sys + {#a#})"
      unfolding held_once_def
    proof
      fix x show "count (holders sys + {#a#}) x \<le> (if x \<in> open_sessions b then 1 else 0)"
        using D(2) h(2,3) unfolding held_once_def by (cases "x = a") (auto dest: spec [of _ x])
    qed
    ultimately show ?thesis using h(1) b(2,3) q p(1) tok
      by (intro respond_step) (auto simp: make_connect_respond_def resp_token_def resp_ok_def)
  qed
  then show ?thesis using b(1) by (simp add: run_broker_def)
qed

lemma run_high_ok:
  assumes "sys_inv sys" and "high sys = t # ts"
  shows "\<exists>sys'. run_broker j rnd now t (sys\<lparr>high := ts\<rparr>) = Inr sys' \<and> sys_inv sys'"
proof (cases t)
  case (Handle_Session_Req r)
  have "high_ok (length (conns sys)) t" using sys_invD(5) [OF assms(1)] assms(2) by (simp add: queues_ok_def)
  then consider c p where "r = Session_Connect c p" | x where "r = Session_Disconnect x \<or> r = Session_Force_Close x" "x \<noteq> None"
    using Handle_Session_Req by (cases r) auto
  then show ?thesis
  proof cases
    case 1
    then show ?thesis using run_connect_ok [OF assms(1)] assms(2) Handle_Session_Req by simp
  next
    case 2
    then obtain a where "r = Session_Disconnect (Some a) \<or> r = Session_Force_Close (Some a)" by auto
    then show ?thesis using run_close_ok [OF assms(1)] assms(2) Handle_Session_Req by metis
  qed
next
  case (Handle_Topic_Req r)
  then show ?thesis using run_topic_ok [OF assms(1)] assms(2) by simp
next
  case (Handle_Publish_Req r)
  then show ?thesis using sys_invD(5) [OF assms(1)] assms(2) by (simp add: queues_ok_def)
qed

section \<open>The thread pool and the mails\<close>

lemma run_pool_ok:
  assumes "sys_inv sys" and "pool sys = t # ts"
  shows "sys_inv (run_pool encode valid addu t (sys\<lparr>pool := ts\<rparr>))"
proof -
  note D = sys_invD [OF assms(1)]
  let ?s = "sys\<lparr>pool := ts\<rparr>"
  have q: "queues_ok ?s" using D(5) assms(2) by (simp add: queues_ok_def)
  have ok: "pool_ok (length (conns sys)) t" using D(5) assms(2) by (simp add: queues_ok_def)
  have s: "sys_inv ?s" using assms(1) q by (intro sys_inv_queues [OF assms(1), where ts = "[]"]) (simp_all add: holders_def)
  show ?thesis
  proof (cases t)
    case (Validate_Password c p)
    let ?post = "[Post (Handle_Session_Req (Session_Connect c p)) 1]" and ?no = "[make_connect_respond (br sys) c NOT_AUTHORIZED None False]"
    have "sys_inv (emits ?post ?s)"
      using q ok Validate_Password by (intro sys_inv_queues [OF s, where ts = "[Handle_Session_Req (Session_Connect c p)]"])
        (simp_all add: holders_def queues_ok_def)
    moreover have "sys_inv (emits ?no ?s)"
      using q ok Validate_Password by (intro sys_inv_queues [OF s, where ts = "[]"])
        (simp_all add: holders_def queues_ok_def make_connect_respond_def resp_ok_def resp_token_def)
    ultimately show ?thesis using Validate_Password
      by (auto simp: validate_password_in_thread_pool_def simp del: emits_simps split: option.splits if_splits)
  next
    case (User_Operation x)
    have "user_operation_in_thread_pool encode addu (br sys) x = [] \<or> (\<exists>i y. user_operation_in_thread_pool encode addu (br sys) x = [Receipt i y])"
      by (simp add: user_operation_in_thread_pool_def Let_def)
    then show ?thesis using s User_Operation by auto
  qed
qed

lemma send_mail_ok:
  assumes "sys_inv sys"
  shows "sys_inv (send_packet_handler bad c p (sys\<lparr>sends := ms\<rparr>))"
proof -
  have "sys_inv (sys\<lparr>sends := ms\<rparr>)"
    using sys_invD(5) [OF assms] by (intro sys_inv_queues [OF assms, where ts = "[]"]) (simp_all add: holders_def queues_ok_def)
  from io_emits_inv [OF this, of "[Write c p]" bad] show ?thesis by (simp add: send_packet_handler_def)
qed

lemma response_ok:
  assumes "sys_inv sys" and "first_mail i (responses sys) = Some (r, ms)"
    and "resp_code r = CONNECTION_ACCEPTED \<or> tcp_state (conns sys ! resp_conn r) = CONNECTED"
  shows "\<exists>sys'. connect_complete_handler bad r (sys\<lparr>responses := ms\<rparr>) = Inr sys' \<and> sys_inv sys'"
proof -
  note D = sys_invD [OF assms(1)]
  obtain us vs where m: "responses sys = us @ (i, r) # vs" "ms = us @ vs" using first_mail_split [OF assms(2)] by blast
  let ?s = "sys\<lparr>responses := ms\<rparr>" and ?c = "resp_conn r" and ?k = "conns sys ! resp_conn r"
  have r: "?c < length (conns sys)" "resp_code r = CONNECTION_ACCEPTED \<longleftrightarrow> resp_session r \<noteq> None"
    using queues_okD(2) [OF D(5), of "(i, r)"] m(1) by (simp_all add: resp_ok_def)
  have tok: "holders sys = holders ?s + mset (resp_token (i, r))" using m by (simp add: holders_def)
  have q: "queues_ok ?s" using D(5) m by (simp add: queues_ok_def)
  have s: "sys_inv ?s" by (rule sys_inv_queues [OF assms(1), where ts = "[]"]) (simp_all add: q tok)
  show ?thesis
  proof (cases "resp_session r")
    case None
    then have "resp_code r \<noteq> CONNECTION_ACCEPTED" using r(2) by simp
    moreover have "sys_inv (io_emits bad [Write ?c pk] ?s)" for pk by (rule io_emits_inv [OF s]) simp
    ultimately show ?thesis using assms(3) by (simp add: connect_complete_handler_def Let_def del: io_emits_simps)
  next
    case (Some a)
    then have acc: "resp_code r = CONNECTION_ACCEPTED" using r(2) by simp
    have ta: "holders sys = add_mset a (holders ?s)" using tok Some by (simp add: resp_token_def)
    show ?thesis
    proof (cases "ctx_state ?k = NO_SESSION \<or> tcp_state ?k \<noteq> CONNECTED")
      case True
      let ?t = "Handle_Session_Req (if ctx_state ?k = NO_SESSION then Session_Disconnect (Some a) else Session_Force_Close (Some a))"
      have "task_token ?t = [a]" "\<not> is_topic ?t" "high_ok n ?t" for n by simp_all
      then have "sys_inv (emits [Post ?t 1] ?s)"
        using q ta by (intro sys_inv_queues [OF assms(1), where ts = "[?t]"]) (simp_all add: holders_def queues_ok_def)
      then show ?thesis using True acc Some by (auto simp: connect_complete_handler_def Let_def simp del: emits_simps)
    next
      case False
      let ?k' = "?k\<lparr>ctx_session := resp_session r, ctx_state := IN_SESSION\<rparr>"
      let ?s1 = "set_conn ?c ?k' ?s"
      have "a \<in># holders sys" using ta by simp
      from held_session [OF assms(1) this] obtain x n where x: "session_at (br sys) a = Some (x, n)" by blast
      obtain as where as: "session_inv x as" using broker_invD(4) [OF D(1) x] by (auto simp: session_ok_def)
      obtain evs where evs: "tmq_session_start x = Some (Inr evs)"
        using session_start_inv [OF as] by blast
      have "holders ?s1 \<subseteq># holders sys"
      proof -
        have "holders ?s1 + mset (conn_token ?k) = holders ?s + {#a#}"
          using holders_set_conn [of ?c ?s ?k'] r(1) Some by (simp add: conn_token_def)
        then show ?thesis using ta by (metis add.commute add_mset_add_single mset_subset_eq_add_right)
      qed
      moreover have "queues_ok ?s1" by (rule queues_set_conn [OF q]) (simp add: conn_ok_def Some)
      ultimately have "sys_inv ?s1" by (intro sys_inv_queues [OF assms(1), where ts = "[]"]) simp_all
      then have "sys_inv (io_emits bad (session_writes d evs) (io_emits bad [Write ?c pk] ?s1))" for pk d
        by (intro io_emits_inv) simp_all
      moreover have "br (conn_write bad c pk ss) = br ss" for c pk ss by (simp add: conn_write_def)
      ultimately show ?thesis using False acc Some x evs
        by (simp add: connect_complete_handler_def Let_def deref_session_def get_session_def)
    qed
  qed
qed

section \<open>Session handlers\<close>

lemma session_ok_step:
  assumes "session_ok n s" and "fixed s' = fixed s" and "session_inv s' as" and "al_ok (subscriptions s')"
    and "\<forall>f\<in>fst ` set (subscriptions s'). cstr f = f"
  shows "session_ok n s'"
  using assms unfolding session_ok_def will_ok_def fixed_def by auto

lemma put_step:
  assumes "broker_inv b R" and "session_at b a = Some (s, n)" and "fixed s' = fixed s" and "session_ok (io_threads b) s'"
  shows "broker_inv (put_session b a s') R" and "open_sessions (put_session b a s') = open_sessions b"
    and "live (put_session b a s') = live b"
    and "session_of (put_session b a s') c = (if map_of (br_sessions b) c = Some a then Some s' else session_of b c)"
proof -
  note D = broker_invD [OF assms(1)]
  have f: "s_client_id s' = s_client_id s" "s_state s' = s_state s" "s_clean_session s' = s_clean_session s"
    using assms(3) by (auto simp: fixed_def)
  have op: "s_state s' = OPEN \<Longrightarrow> map_of (br_sessions b) (s_client_id s) = Some a" using D(4) [OF assms(2)] f(2) by simp
  have cl: "s_state s' = CLOSED \<Longrightarrow> map_of (br_sessions b) (s_client_id s) = Some a \<Longrightarrow> s_clean_session s' = 0"
    using D(3) [of "s_client_id s" a] assms(2) f(2,3) by auto
  have p: "broker_inv (put_session b a s') R"
      "open_sessions (put_session b a s') = (if s_state s' = OPEN then insert a (open_sessions b) else open_sessions b - {a})"
      "session_of (put_session b a s') c = (if map_of (br_sessions b) c = Some a then Some s' else session_of b c)"
    using put_session_inv [OF assms(1,2) f(1) assms(4)] op cl by blast+
  show "broker_inv (put_session b a s') R" by (rule p(1))
  have "a \<in> open_sessions b \<longleftrightarrow> s_state s = OPEN" using assms(2) by (simp add: open_sessions_def)
  then show same: "open_sessions (put_session b a s') = open_sessions b"
    unfolding p(2) f(2) by (cases "s_state s = OPEN") (simp_all add: insert_absorb)
  show "live (put_session b a s') = live b" by (rule live_cong) (simp_all add: same)
  show "session_of (put_session b a s') c = (if map_of (br_sessions b) c = Some a then Some s' else session_of b c)" by (rule p(3))
qed

lemma put_same_subs:
  assumes "broker_inv b R" and "session_at b a = Some (s, n)" and "fixed s' = fixed s" and "session_ok (io_threads b) s'"
    and "subscriptions s' = subscriptions s"
  shows "sess_subs (put_session b a s') c = sess_subs b c"
proof (cases "map_of (br_sessions b) c = Some a")
  case True
  then have "sess_subs b c = filters_of s" using assms(2) by (simp add: sess_subs_def session_of_def)
  then show ?thesis using put_step(4) [OF assms(1-4), of c] True assms(5) by (simp add: sess_subs_def filters_of_def)
next
  case False
  then show ?thesis using put_step(4) [OF assms(1-4), of c] by (simp add: sess_subs_def)
qed

text \<open>In the loop of a broadcast, the subscribers that are left still have their references, as if their mail were in the box.\<close>

definition with_refs :: "broadcast_ctx \<Rightarrow> subscribe_info list \<Rightarrow> system \<Rightarrow> system" where
  "with_refs x is sys = sys\<lparr>broadcasts := (0, x\<lparr>bc_subscribers := is\<rparr>) # broadcasts sys\<rparr>"

lemma with_refs_fields [simp]: "br (with_refs x is sys) = br sys" "high (with_refs x is sys) = high sys"
    "holders (with_refs x is sys) = holders sys" "queues_ok (with_refs x is sys) = queues_ok sys"
    "mail_refs (broadcasts (with_refs x is sys)) = mset (map sub_session is) + mail_refs (broadcasts sys)"
  by (simp_all add: with_refs_def holders_def queues_ok_def)

lemma with_refs_writes:
  "io_emits bad (session_writes d evs) (with_refs x is sys) = with_refs x is (io_emits bad (session_writes d evs) sys)"
proof -
  have "broadcasts (io_emits bad (session_writes d evs) sys) = broadcasts sys"
    using arg_cong [OF io_writes_broadcasts [where B = "broadcasts sys" and sys = sys and bad = bad and d = d and evs = evs], of broadcasts] by simp
  then show ?thesis unfolding with_refs_def io_writes_broadcasts by simp
qed

lemma with_refs_inv:
  assumes "sys_inv (with_refs x js sys)" and "broker_inv b (mset (map sub_session is) + mail_refs (broadcasts sys))"
    and "open_sessions b = open_sessions (br sys)" and "live b = live (br sys)" and "tree_subs b = tree_subs (br sys)"
    and "sess_subs b = sess_subs (br sys)"
  shows "sys_inv (with_refs x is (sys\<lparr>br := b\<rparr>))"
proof (rule sys_invI)
  note D = sys_invD [OF assms(1)]
  have h: "holders (sys\<lparr>br := b\<rparr>) = holders sys" by (simp add: holders_def)
  show "held_once (br (with_refs x is (sys\<lparr>br := b\<rparr>))) (holders (with_refs x is (sys\<lparr>br := b\<rparr>)))"
    using D(2) assms(3) by (simp add: held_once_def h)
  have "queues_ok (sys\<lparr>br := b\<rparr>) = queues_ok sys" by (simp add: queues_ok_def)
  then show "queues_ok (with_refs x is (sys\<lparr>br := b\<rparr>))" using D(5) by simp
qed (use sys_invD(3,4) [OF assms(1)] assms(2,4-6) in simp_all)

lemma broadcast_loop_ok:
  "sys_inv (with_refs x is sys) \<Longrightarrow> \<exists>sys'. broadcast_loop bad now x is sys = Inr sys' \<and> sys_inv sys'"
proof (induction "is" arbitrary: sys)
  case Nil
  have "sys_inv sys"
    by (rule sys_inv_queues [OF Nil, where ts = "[]"]) (use sys_invD(5) [OF Nil] in simp_all)
  then show ?case by simp
next
  case (Cons i "is")
  let ?a = "sub_session i" and ?b = "br sys" and ?R = "mset (map sub_session is) + mail_refs (broadcasts sys)"
  let ?q = "if sub_qos i < msg_qos (bc_message x) then sub_qos i else msg_qos (bc_message x)"
  have inv: "broker_inv ?b (add_mset ?a ?R)" using sys_invD(1) [OF Cons.prems] by simp
  obtain s n where s: "session_at ?b ?a = Some (s, n)" using broker_invD(5) [OF inv, of ?a] by auto
  have ok: "session_ok (io_threads ?b) s" using broker_invD(4) [OF inv s] by simp
  then obtain as where as: "session_inv s as" by (auto simp: session_ok_def)
  let ?op = "Out_Publish (bc_topic x) (message (bc_message x)) ?q (if bc_retain x then 1 else 0) (is_session_closed i)"
  obtain evs s' as' where s': "session_step now ?op s = Inr (evs, s')" "session_inv s' as'"
    using session_step_ok [OF as, of now ?op] unfolding step_ok_def by blast
  have mem: "in_memory s" using as by (auto simp: session_inv_def in_memory_def)
  have f: "fixed s' = fixed s" "subscriptions s' = subscriptions s" using session_step_fixed [OF mem s'(1)] by simp_all
  have ok': "session_ok (io_threads ?b) s'"
    using session_ok_step [OF ok f(1) s'(2)] ok f(2) by (simp add: session_ok_def)
  let ?b1 = "put_session ?b ?a s'"
  note p = put_step [OF inv s f(1) ok']
  obtain b2 where b2: "release_session ?b1 ?a = Inr b2" "broker_inv b2 ?R" "same_tables ?b1 b2"
    using release_ref_inv [OF p(1)] by blast
  have e: "open_sessions b2 = open_sessions ?b" "live b2 = live ?b" "tree_subs b2 = tree_subs ?b" "sess_subs b2 = sess_subs ?b"
    using b2(3) p(2,3) live_cong [of b2 ?b1] same_tables_tree [OF b2(3)] sess_subs_cong [of b2 ?b1] put_same_subs [OF inv s f(1) ok' f(2)]
    by (simp_all add: same_tables_def fun_eq_iff)
  have "sys_inv (with_refs x is (sys\<lparr>br := b2\<rparr>))" by (rule with_refs_inv [OF Cons.prems b2(2) e])
  then have "sys_inv (with_refs x is (io_emits bad (session_writes (s_conn s) evs) (sys\<lparr>br := b2\<rparr>)))"
    unfolding with_refs_writes [symmetric] by (rule io_emits_inv) simp
  from Cons.IH [OF this] show ?case using get_session_Some [OF s] s'(1) b2(1) by (simp add: Let_def)
qed

lemma broadcast_ok:
  assumes "sys_inv sys" and "first_mail i (broadcasts sys) = Some (x, ms)"
  shows "\<exists>sys'. broadcast_handler bad now x (sys\<lparr>broadcasts := ms\<rparr>) = Inr sys' \<and> sys_inv sys'"
proof -
  obtain us vs where m: "broadcasts sys = us @ (i, x) # vs" "ms = us @ vs" using first_mail_split [OF assms(2)] by blast
  let ?s = "with_refs x (bc_subscribers x) (sys\<lparr>broadcasts := ms\<rparr>)"
  have "sys_inv ?s"
  proof (rule sys_inv_queues [OF assms(1), where ts = "[]"])
    show "mail_refs (broadcasts ?s) = mail_refs (broadcasts sys)" by (simp add: m add.left_commute)
    have "holders (sys\<lparr>broadcasts := ms\<rparr>) = holders sys" "queues_ok (sys\<lparr>broadcasts := ms\<rparr>) = queues_ok sys"
      by (simp_all add: holders_def queues_ok_def)
    then show "holders ?s \<subseteq># holders sys" "queues_ok ?s" using sys_invD(5) [OF assms(1)] by simp_all
  qed simp_all
  then show ?thesis unfolding broadcast_handler_def by (rule broadcast_loop_ok)
qed

section \<open>Packets\<close>

text \<open>Session events that do not reach the broker.\<close>

fun local_ev :: "session_event \<Rightarrow> bool" where
  "local_ev (New_Message t m r u c) \<longleftrightarrow> False"
| "local_ev (Broker_Subscribe c p) \<longleftrightarrow> False"
| "local_ev (Broker_Unsubscribe c p) \<longleftrightarrow> False"
| "local_ev _ \<longleftrightarrow> True"

lemma local_finish [simp]: "list_all local_ev (map (\<lambda>(i, q). Publish_Finish i q) xs)" "list_all local_ev (map Session.Send ps)"
    "list_all local_ev (map Task ts)"
  by (auto simp: list_all_iff)

lemma store_message_local: "store_message s a = Inr (b, evs, s') \<Longrightarrow> list_all local_ev evs"
  by (auto simp: store_message_def bind_eq_Inr split: any_store.splits)

lemma acknowledge_local: "acknowledge now s i ty q = Inr (evs, s') \<Longrightarrow> list_all local_ev evs"
  by (auto simp: acknowledge_def acknowledge_and_next_def bind_eq_Inr split: any_store.splits option.splits)

lemma pubrec_local: "tmq_session_handle_pubrec now i s = Inr (evs, s') \<Longrightarrow> list_all local_ev evs"
  by (auto simp: tmq_session_handle_pubrec_def bind_eq_Inr Let_def split_beta
      dest!: acknowledge_local store_message_local split: if_splits)

fun silent_op :: "session_op \<Rightarrow> bool" where
  "silent_op (In_Publish p) \<longleftrightarrow> False"
| "silent_op (In_Subscribe p) \<longleftrightarrow> False"
| "silent_op (In_Unsubscribe p) \<longleftrightarrow> False"
| "silent_op (Out_Publish t m q r so) \<longleftrightarrow> False"
| "silent_op _ \<longleftrightarrow> True"

lemma silent_local:
  assumes "silent_op op" and "session_step now op s = Inr (evs, s')"
  shows "list_all local_ev evs" and "subs_after op m = m"
proof -
  show "subs_after op m = m" using assms(1) by (cases op) simp_all
  show "list_all local_ev evs"
    using assms acknowledge_local pubrec_local
    by (cases op) (auto simp: tmq_session_handle_puback_def tmq_session_handle_pubcomp_def)
qed

lemma upcalls_local: "list_all local_ev es \<Longrightarrow> \<exists>evs. upcalls a s es b = (evs, b) \<and> list_all only_low evs"
  by (induction a s es b rule: upcalls.induct) (auto simp: Let_def split: prod.splits)

lemma subscribe_keys:
  fixes tfs :: "topic_filter_qos list" and m :: "(tmq_str, u8) alist"
  shows "fst ` set (fold (\<lambda>tf m. al_put m (cstr (topic_filter tf)) (tf_qos tf)) tfs m) = fst ` set m \<union> cstr ` set (map topic_filter tfs)"
  "al_ok m \<Longrightarrow> al_ok (fold (\<lambda>tf m. al_put m (cstr (topic_filter tf)) (tf_qos tf)) tfs m)"
proof (induction tfs arbitrary: m)
  case (Cons tf tfs)
  {
    case 1
    show ?case using Cons.IH(1) [of "al_put m (cstr (topic_filter tf)) (tf_qos tf)"] unfolding fst_set_al_put by simp
  next
    case 2
    then show ?case using Cons.IH(2) [OF al_ok_put [OF 2]] by simp
  }
qed simp_all

lemma filters_subscribe:
  fixes tfs :: "topic_filter_qos list"
  assumes "subscriptions s' = fold (\<lambda>tf m. al_put m (cstr (topic_filter tf)) (tf_qos tf)) tfs (subscriptions s)"
  shows "filters_of s' = filters_of s \<union> levels_of (map topic_filter tfs)"
  unfolding filters_of_def assms subscribe_keys(1) levels_of_def image_Un by (simp add: image_image)

lemma unsubscribe_keys:
  fixes m :: "(tmq_str, u8) alist"
  shows "fst ` set (fold (\<lambda>tf m. al_erase m (cstr tf)) fs m) = fst ` set m - cstr ` set fs"
  "al_ok m \<Longrightarrow> al_ok (fold (\<lambda>tf m. al_erase m (cstr tf)) fs m)"
proof (induction fs arbitrary: m)
  case (Cons f fs)
  have e: "fst ` set (al_erase m k) = fst ` set m - {k}" for m :: "(tmq_str, u8) alist" and k by (auto simp: al_erase_def)
  {
    case 1
    show ?case using Cons.IH(1) [of "al_erase m (cstr f)"] unfolding e by auto
  next
    case 2
    then show ?case using Cons.IH(2) [OF al_ok_erase [OF 2]] by simp
  }
qed simp_all

lemma filters_unsubscribe:
  assumes "\<forall>f\<in>fst ` set (subscriptions s). cstr f = f"
    and "subscriptions s' = fold (\<lambda>tf m. al_erase m (cstr tf)) fs (subscriptions s)"
  shows "filters_of s' = filters_of s - levels_of fs"
proof -
  let ?l = "\<lambda>f. tmq_topic_split (cstr f)"
  have inj: "cstr f = f \<Longrightarrow> ?l f = ?l g \<Longrightarrow> f = cstr g" for f g
    using topic_split_inj [of f "cstr g"] by simp
  have "?l ` (A - cstr ` B) = ?l ` A - ?l ` B" if A: "\<forall>f\<in>A. cstr f = f" for A B
  proof
    show "?l ` (A - cstr ` B) \<subseteq> ?l ` A - ?l ` B"
    proof
      fix l assume "l \<in> ?l ` (A - cstr ` B)"
      then obtain f where f: "l = ?l f" "f \<in> A" "f \<notin> cstr ` B" by (elim imageE DiffE)
      have "l \<notin> ?l ` B"
      proof
        assume "l \<in> ?l ` B"
        then obtain g where "g \<in> B" "l = ?l g" by (elim imageE)
        then show False using inj [of f g] A f by simp
      qed
      then show "l \<in> ?l ` A - ?l ` B" using f by simp
    qed
    show "?l ` A - ?l ` B \<subseteq> ?l ` (A - cstr ` B)"
    proof
      fix l assume "l \<in> ?l ` A - ?l ` B"
      then obtain f where f: "l = ?l f" "f \<in> A" "l \<notin> ?l ` B" by (elim imageE DiffE)
      moreover have "f \<notin> cstr ` B" using f by (auto simp: image_iff)
      ultimately show "l \<in> ?l ` (A - cstr ` B)" by (intro image_eqI [of _ _ f]) simp_all
    qed
  qed
  then show ?thesis using assms(1) unfolding filters_of_def assms(2) unsubscribe_keys(1) levels_of_def by blast
qed

text \<open>A packet of the session \<open>a\<close> that posts nothing about subscriptions.\<close>

lemma plain_packet:
  assumes "sys_inv sys" and "session_at (br sys) a = Some (s, n)" and "fixed s' = fixed s" and "session_ok (io_threads (br sys)) s'"
    and "subscriptions s' = subscriptions s" and "list_all only_low evs"
  shows "sys_inv (io_emits bad evs (sys\<lparr>br := put_session (br sys) a s'\<rparr>))"
proof (rule io_emits_inv [OF sys_invI assms(6)])
  note D = sys_invD [OF assms(1)]
  note p = put_step [OF D(1) assms(2-4)]
  let ?s = "sys\<lparr>br := put_session (br sys) a s'\<rparr>"
  show "broker_inv (br ?s) (mail_refs (broadcasts ?s))" using p(1) by simp
  show "held_once (br ?s) (holders ?s)" using D(2) p(2) by (simp add: held_once_def holders_def)
  show "follow c (high ?s) (tree_subs (br ?s) c) = Some (sess_subs (br ?s) c)" for c
    using D(3) [of c] put_same_subs [OF D(1) assms(2-5), of c] by simp
  show "ordered (live (br ?s)) (high ?s)" using D(4) p(3) by simp
  show "queues_ok ?s" using D(5) by (simp add: queues_ok_def)
qed

text \<open>A SUBSCRIBE or UNSUBSCRIBE changes the session and posts a request with the same effect on the tree.\<close>

lemma topic_packet:
  assumes "sys_inv sys" and "session_at (br sys) a = Some (s, n)" and "fixed s' = fixed s" and "session_ok (io_threads (br sys)) s'"
    and "a \<in># gather conn_token (conns sys)" and "topic_client r = s_client_id s" and "topic_req_ok r (filters_of s)"
    and "filters_of s' = topic_effect r (filters_of s)" and "topic_owner r = a"
  shows "sys_inv (emits [Post (Handle_Topic_Req r) 1] (sys\<lparr>br := put_session (br sys) a s'\<rparr>))" (is "sys_inv ?s")
proof (rule sys_invI)
  note D = sys_invD [OF assms(1)]
  note p = put_step [OF D(1) assms(2-4)]
  let ?c = "s_client_id s"
  have "a \<in># holders sys" using assms(5) by (simp add: holders_def)
  then have op: "a \<in> open_sessions (br sys)" by (rule held_open [OF D(2)])
  note own = live_owner [OF D(1) op assms(2)]
  have filed: "map_of (br_sessions (br sys)) ?c = Some a" using own [of ?c] by (simp add: live_Some)
  show "broker_inv (br ?s) (mail_refs (broadcasts ?s))" using p(1) by simp
  show "held_once (br ?s) (holders ?s)" using D(2) p(2) by (simp add: held_once_def holders_def)
  show "queues_ok ?s" using D(5) by (simp add: queues_ok_def)
  show "follow c (high ?s) (tree_subs (br ?s) c) = Some (sess_subs (br ?s) c)" for c
  proof (cases "c = ?c")
    case True
    then have "sess_subs (br sys) c = filters_of s" using filed assms(2) by (simp add: sess_subs_def session_of_def)
    moreover have "sess_subs (put_session (br sys) a s') c = filters_of s'"
      using filed True p(4) [of c] by (simp add: sess_subs_def)
    ultimately show ?thesis using D(3) [of c] assms(6-8) True by (simp add: follow_append)
  next
    case False
    then have "map_of (br_sessions (br sys)) c \<noteq> Some a" using other_client [OF D(1) filed] by blast
    then have "sess_subs (put_session (br sys) a s') c = sess_subs (br sys) c" using p(4) [of c] by (simp add: sess_subs_def)
    then show ?thesis using D(3) [of c] assms(6) False by (simp add: follow_append)
  qed
  have "a \<notin># gather task_token (high sys)"
  proof
    assume "a \<in># gather task_token (high sys)"
    then have "2 \<le> count (holders sys) a" using assms(5) by (simp add: holders_def flip: count_greater_eq_Suc_zero_iff)
    then show False using D(2) op by (auto simp: held_once_def dest: spec [of _ a])
  qed
  then have "ordered (live (br sys)) (high sys @ [Handle_Topic_Req r])"
    using D(4) own [of ?c] assms(6,9) by (intro ordered_append) auto
  then show "ordered (live (br ?s)) (high ?s)" using p(3) by simp
qed

lemma session_packet_ok:
  assumes "sys_inv sys" and "c < length (conns sys)" and "packet_ok (br sys) (conns sys ! c) p" and "packet_op p = Some op"
  shows "\<exists>sys'. session_packet bad now c p op sys = Inr sys' \<and> sys_inv sys'"
proof -
  note D = sys_invD [OF assms(1)]
  have "ctx_state (conns sys ! c) = IN_SESSION" using assms(3,4) by (cases p) auto
  then obtain a s n where a: "ctx_session (conns sys ! c) = Some a" "session_at (br sys) a = Some (s, n)"
      "a \<in># gather conn_token (conns sys)"
    using conn_session [OF assms(1,2)] by blast
  have ok: "session_ok (io_threads (br sys)) s" using broker_invD(4) [OF D(1) a(2)] by simp
  then obtain as where as: "session_inv s as" by (auto simp: session_ok_def)
  obtain es s' as' where s': "session_step now op s = Inr (es, s')" "session_inv s' as'"
    using session_step_ok [OF as, of now op] unfolding step_ok_def by blast
  have mem: "in_memory s" using as by (auto simp: session_inv_def in_memory_def)
  have f: "fixed s' = fixed s" "subscriptions s' = subs_after op (subscriptions s)" using session_step_fixed [OF mem s'(1)] by simp_all
  have keys: "al_ok (subscriptions s)" "\<forall>f\<in>fst ` set (subscriptions s). cstr f = f" using ok by (simp_all add: session_ok_def)
  have "al_ok (subscriptions s') \<and> (\<forall>f\<in>fst ` set (subscriptions s'). cstr f = f)"
    unfolding f(2) using keys by (cases op) (auto simp: subscribe_keys unsubscribe_keys simp del: set_map)
  then have ok': "session_ok (io_threads (br sys)) s'" using session_ok_step [OF ok f(1) s'(2)] by blast
  have acl: "\<not> acl_enabled (br sys)" using broker_invD(1) [OF D(1)] by (simp add: config_ok_def)
  define b where "b = put_session (br sys) a s'"
  have eta: "b\<lparr>br_acl := br_acl b\<rparr> = b" "\<not> acl_enabled b" using acl by (simp_all add: b_def put_session_def)
  have run: "session_packet bad now c p op sys = Inr (io_emits bad (packet_acks c p @ fst (upcalls a s' es b)) (sys\<lparr>br := snd (upcalls a s' es b)\<rparr>))"
    using a(1) get_session_Some [OF a(2)] s'(1) by (simp add: session_packet_def b_def Let_def split_beta)
  have "snd (upcalls a s' es b) = b \<and> sys_inv (io_emits bad (packet_acks c p @ fst (upcalls a s' es b)) (sys\<lparr>br := b\<rparr>))"
  proof (cases "silent_op op")
    case True
    obtain evs where "upcalls a s' es b = (evs, b)" "list_all only_low evs"
      using upcalls_local [OF silent_local(1) [OF True s'(1)]] by blast
    then show ?thesis
      using plain_packet [OF assms(1) a(2) f(1) ok', of "packet_acks c p @ evs" bad] silent_local(2) [OF True s'(1)] f(2) by (simp add: b_def)
  next
    case False
    then consider q where "op = In_Publish q" "p = PUBLISH q" | q where "op = In_Subscribe q" "p = SUBSCRIBE q"
      | q where "op = In_Unsubscribe q" "p = UNSUBSCRIBE q"
      using assms(4) by (cases p) auto
    then show ?thesis
    proof cases
      case 1
      then have "es = [] \<or> (\<exists>u v. es = [New_Message (topic q) \<lparr>message = payload q, msg_qos = PUBLISH_QOS (pub_flags q)\<rparr> False u v])"
        using s'(1) assms(3) by (auto simp: tmq_session_handle_publish_def Let_def split: if_splits)
      then have "snd (upcalls a s' es b) = b \<and> (fst (upcalls a s' es b) = [] \<or>
          (\<exists>r. fst (upcalls a s' es b) = [Post (Handle_Publish_Req r) 0] \<and> req_topic r = topic q \<and> \<not> req_retain r))"
        using eta by (auto simp: mqtt_publish_def Let_def)
      then show ?thesis
        using plain_packet [OF assms(1) a(2) f(1) ok', of "packet_acks c p @ fst (upcalls a s' es b)" bad] f(2) 1 assms(3) by (auto simp: b_def)
    next
      case 2
      then have es: "es = [Broker_Subscribe (s_client_id s) q]"
        using s'(1) by (auto simp: tmq_session_handle_subscribe_def Let_def)
      have "sys_inv (emits [Post (Handle_Topic_Req (Topic_Subscribe a (s_client_id s) q)) 1] (sys\<lparr>br := b\<rparr>))"
        unfolding b_def using 2 assms(3) filters_subscribe [of s' "sub_topics q" s] f(2)
        by (intro topic_packet [OF assms(1) a(2) f(1) ok' a(3)]) simp_all
      then show ?thesis using 2 by (simp add: es mqtt_subscribe_def)
    next
      case 3
      then have es: "es = [Broker_Unsubscribe (s_client_id s) q]"
        using s'(1) by (auto simp: tmq_session_handle_unsubscribe_def Let_def)
      have "sys_inv (emits [Post (Handle_Topic_Req (Topic_Unsubscribe a (s_client_id s) q)) 1] (sys\<lparr>br := b\<rparr>))"
        unfolding b_def using 3 assms(3) a(1,2) filters_unsubscribe [OF keys(2), of s' "unsub_topics q"] f(2)
        by (intro topic_packet [OF assms(1) a(2) f(1) ok' a(3)]) simp_all
      then show ?thesis using 3 by (simp add: es mqtt_unsubscribe_def)
    qed
  qed
  then show ?thesis using run by metis
qed

lemma mqtt_connect_ok:
  assumes "config_ok b" and "username p \<noteq> None \<longrightarrow> password p \<noteq> None"
  shows "mqtt_connect encode b c p \<in> {Inr [Conn_Share c, Pool_Task (Validate_Password c p)],
      Inr [Write c (CONNACK \<lparr>ack_flags = 0, return_code = connack_code NOT_AUTHORIZED\<rparr>)],
      Inr [Conn_Share c, Post (Handle_Session_Req (Session_Connect c p)) 1]}"
proof -
  have "\<exists>ok. check_password encode b p = Inr ok" if h: "\<not> allow_anonymous b" "\<not> mysql_enabled b"
  proof -
    obtain cfg where "pwd_conf b = Inr cfg" using assms(1) h by (auto simp: config_ok_def)
    then show ?thesis using assms(2) by (auto simp: check_password_def split: option.splits)
  qed
  then show ?thesis by (auto simp: mqtt_connect_def)
qed

lemma on_connect_ok:
  assumes "sys_inv sys" and "c < length (conns sys)" and "packet_ok (br sys) (conns sys ! c) (CONNECT p)"
  shows "\<exists>sys'. on_connect bad encode c p sys = Inr sys' \<and> sys_inv sys'"
proof -
  note D = sys_invD [OF assms(1)]
  let ?k = "conns sys ! c"
  let ?s = "set_conn c (?k\<lparr>ctx_state := STARTING_SESSION\<rparr>) sys"
  have k: "ctx_session ?k = None" "will_plain p" "username p \<noteq> None \<longrightarrow> password p \<noteq> None" using assms(3) by simp_all
  have s: "sys_inv ?s" by (rule set_conn_inv [OF assms(1,2)]) (simp_all add: conn_token_def conn_ok_def k(1))
  have q: "queues_ok ?s" by (rule sys_invD(5) [OF s])
  consider "mqtt_connect encode (br sys) c p = Inr [Conn_Share c, Pool_Task (Validate_Password c p)]"
    | pk where "mqtt_connect encode (br sys) c p = Inr [Write c pk]"
    | "mqtt_connect encode (br sys) c p = Inr [Conn_Share c, Post (Handle_Session_Req (Session_Connect c p)) 1]"
    using mqtt_connect_ok [OF broker_invD(1) [OF D(1)] k(3), of encode c] by blast
  then show ?thesis
  proof cases
    case 1
    have "sys_inv (emits [Conn_Share c, Pool_Task (Validate_Password c p)] ?s)"
      by (rule sys_inv_queues [OF s, where ts = "[]"]) (use q assms(2) k(2) in \<open>simp_all add: holders_def queues_ok_def\<close>)
    then show ?thesis using 1 k(1) by (simp add: on_connect_def Let_def)
  next
    case 2
    have "sys_inv (io_emits bad [Write c pk] ?s)" by (rule io_emits_inv [OF s]) simp
    then show ?thesis using 2 k(1) by (simp add: on_connect_def Let_def)
  next
    case 3
    have "sys_inv (emits [Conn_Share c, Post (Handle_Session_Req (Session_Connect c p)) 1] ?s)"
      by (rule sys_inv_queues [OF s, where ts = "[Handle_Session_Req (Session_Connect c p)]"])
         (use q assms(2) k(2) in \<open>simp_all add: holders_def queues_ok_def\<close>)
    then show ?thesis using 3 k(1) by (simp add: on_connect_def Let_def)
  qed
qed

lemma on_disconnect_ok:
  assumes "sys_inv sys" and "c < length (conns sys)"
  shows "\<exists>sys'. on_disconnect c sys = Inr sys' \<and> sys_inv sys'"
proof (cases "ctx_state (conns sys ! c) = IN_SESSION")
  case True
  let ?k = "conns sys ! c"
  obtain a where a: "ctx_session ?k = Some a" using conn_session [OF assms True] by blast
  have "sys_inv (emits [Post (Handle_Session_Req (Session_Disconnect (Some a))) 1] (set_conn c (?k\<lparr>ctx_state := NO_SESSION, ctx_session := None\<rparr>) sys))"
    using True a by (intro hand_over [OF assms]) (simp_all add: conn_token_def conn_ok_def)
  then show ?thesis using True a by (simp add: on_disconnect_def mqtt_disconnect_def Let_def)
next
  case False
  let ?k = "conns sys ! c"
  have "sys_inv (set_conn c (?k\<lparr>ctx_state := NO_SESSION, ctx_session := None\<rparr>) sys)"
    using False by (intro set_conn_inv [OF assms]) (simp_all add: conn_token_def conn_ok_def)
  then show ?thesis using False by (simp add: on_disconnect_def Let_def)
qed

lemma on_packet_ok:
  assumes "sys_inv sys" and "c < length (conns sys)" and "packet_ok (br sys) (conns sys ! c) p"
  shows "\<exists>sys'. on_packet bad encode now c p sys = Inr sys' \<and> sys_inv sys'"
proof (cases "\<exists>q. p = CONNECT q \<or> p = DISCONNECT")
  case True
  then show ?thesis using on_connect_ok [OF assms(1,2)] on_disconnect_ok [OF assms(1,2)] assms(3) by (auto simp: on_packet_def)
next
  case False
  then have "on_packet bad encode now c p sys = (case packet_op p of None \<Rightarrow> Inr sys | Some op \<Rightarrow> session_packet bad now c p op sys)"
    by (cases p) (auto simp: on_packet_def)
  then show ?thesis using session_packet_ok [OF assms] assms(1) by (cases "packet_op p") auto
qed

section \<open>New connections\<close>

lemma new_conn_broker:
  fixes c :: nat and name :: tmq_str and ip :: u32
  assumes "broker_inv b R" and "i < io_threads b" and "m < io_threads b"
  defines "b' \<equiv> b\<lparr>conn_at := (conn_at b)(c := \<lparr>io_index = i, conn_id = name, peer_ip = ip\<rparr>), next_io_context := m\<rparr>"
  shows "broker_inv b' R" and "open_sessions b' = open_sessions b" and "live b' = live b"
    and "tree_subs b' = tree_subs b" and "sess_subs b' = sess_subs b"
proof -
  have t: "topics_tree b' = topics_tree b" "br_sessions b' = br_sessions b" "session_at b' = session_at b" by (simp_all add: b'_def)
  show op: "open_sessions b' = open_sessions b" by (simp add: open_sessions_def t)
  show "live b' = live b" by (rule live_cong [OF t(2) op])
  show "tree_subs b' = tree_subs b" by (rule tree_subs_same [OF t(1)])
  show "sess_subs b' = sess_subs b" by (rule sess_subs_cong, rule ext) (auto simp: session_of_def t split: option.splits)
  show "broker_inv b' R" using assms(1-3)
    by (auto simp: broker_inv_def config_ok_def tree_inv_def table_ref_def b'_def)
qed

lemma accept_ok:
  assumes "sys_inv sys"
  shows "\<exists>sys'. accept local ssl sock name ip sys = Inr sys' \<and> sys_inv sys'"
proof -
  note D = sys_invD [OF assms]
  let ?b = "br sys" and ?i = "next_io_context (br sys)" and ?n = "length (conns sys)"
  let ?m = "if next_io_context (br sys) + 1 \<ge> io_threads (br sys) then 0 else next_io_context (br sys) + 1"
  let ?b' = "?b\<lparr>conn_at := (conn_at ?b)(?n := \<lparr>io_index = ?i, conn_id = name, peer_ip = ip\<rparr>), next_io_context := ?m\<rparr>"
  have i: "?i < io_threads ?b" "?m < io_threads ?b" using broker_invD(1) [OF D(1)] by (auto simp: config_ok_def)
  note n = new_conn_broker [OF D(1) i, of ?n name ip]
  have acc: "accept local ssl sock name ip sys =
      new_tcp_connection_handler ?i local name ip (if ssl then sock OR push_bit 63 1 else sock) (sys\<lparr>br := ?b\<lparr>next_io_context := ?m\<rparr>\<rparr>)"
    by (simp add: accept_def dispatch_ssl_connection_def dispatch_new_connection_def get_next_io_context_def Let_def)
  obtain x y where "mail_socket (if ssl then sock OR push_bit 63 1 else sock) = (x, y)" by (cases "mail_socket (if ssl then sock OR push_bit 63 1 else sock)")
  then have "\<exists>k. accept local ssl sock name ip sys = Inr (sys\<lparr>conns := conns sys @ [k], br := ?b'\<rparr>) \<and> conn_token k = [] \<and> conn_ok k"
    unfolding acc new_tcp_connection_handler_def Let_def
    by (intro exI [of _ "\<lparr>is_console = local, tcp_state = (if x then SSL_HANDSHAKING else CONNECTED), ctx_state = NO_SESSION, ctx_session = None\<rparr>"])
       (simp add: conn_token_def conn_ok_def new_conn_refs_def)
  then obtain k where k: "accept local ssl sock name ip sys = Inr (sys\<lparr>conns := conns sys @ [k], br := ?b'\<rparr>)" "conn_token k = []" "conn_ok k" by blast
  have up: "list_all (high_ok (Suc l)) ts" if "list_all (high_ok l) ts" for l ts
    using that by (rule list.pred_mono_strong) (auto elim: high_ok.elims)
  have up2: "list_all (pool_ok (Suc l)) ts" if "list_all (pool_ok l) ts" for l ts
    using that by (rule list.pred_mono_strong) (auto elim: pool_ok.elims)
  have up3: "list_all (resp_ok (Suc l)) ts" if "list_all (resp_ok l) ts" for l ts
    using that by (rule list.pred_mono_strong) (auto simp: resp_ok_def)
  have "sys_inv (sys\<lparr>conns := conns sys @ [k], br := ?b'\<rparr>)"
    using D n k(2,3) up up2 up3 by (intro sys_invI) (simp_all add: held_once_def holders_def queues_ok_def)
  then show ?thesis using k(1) by blast
qed

lemma handshake_ok:
  assumes "sys_inv sys" and "c < length (conns sys)"
  shows "sys_inv (ssl_handshake r c sys)"
proof -
  have "sys_inv (set_conn c ((conns sys ! c)\<lparr>tcp_state := CONNECTED\<rparr>) sys)"
    using queues_okD(1) [OF sys_invD(5) [OF assms(1)] assms(2)]
    by (intro set_conn_inv [OF assms]) (auto simp: conn_token_def conn_ok_def)
  then show ?thesis using conn_close_inv [OF assms] assms(1) by (auto simp: ssl_handshake_def split: option.splits bool.splits)
qed

lemma add_user_ok:
  assumes "sys_inv sys"
  shows "sys_inv (emits (add_user (br sys) c user pw) sys)"
  by (rule sys_inv_queues [OF assms, where ts = "[]"])
     (use sys_invD(5) [OF assms] in \<open>simp_all add: add_user_def holders_def queues_ok_def\<close>)

section \<open>Reachable states\<close>

lemma sys_do_ok:
  assumes "sys_inv sys" and "allowed sys e"
  shows "\<exists>sys'. sys_do env e sys = Inr sys' \<and> sys_inv sys'"
proof (cases e)
  case (Accept ssl sock name ip)
  then show ?thesis using accept_ok [OF assms(1)] by simp
next
  case (Accept_Console sock name)
  then show ?thesis using accept_ok [OF assms(1)] by simp
next
  case (Console_Add_User c user pw)
  then show ?thesis using add_user_ok [OF assms(1)] by simp
next
  case (Packet now c p)
  then show ?thesis using on_packet_ok [OF assms(1)] assms(2) by simp
next
  case (Handshake r c)
  then show ?thesis using handshake_ok [OF assms(1)] assms(2) by simp
next
  case (Close c)
  then show ?thesis using conn_close_inv [OF assms(1)] assms(2) by simp
next
  case (Run_High rnd now)
  then show ?thesis using run_high_ok [OF assms(1)] assms(1) by (cases "high sys") simp_all
next
  case (Run_Low rnd now)
  then show ?thesis using run_low_ok [OF assms(1)] assms(1) by (cases "low sys") simp_all
next
  case Pool
  then show ?thesis using run_pool_ok [OF assms(1)] assms(1) by (cases "pool sys") simp_all
next
  case (Response i)
  then show ?thesis using response_ok [OF assms(1), of i] assms by (cases "first_mail i (responses sys)") auto
next
  case (Send_Mail i)
  then show ?thesis using send_mail_ok [OF assms(1)] assms(1) by (cases "first_mail i (sends sys)") auto
next
  case (Broadcast_Mail i now)
  then show ?thesis using broadcast_ok [OF assms(1), of i] assms(1) by (cases "first_mail i (broadcasts sys)") auto
next
  case (Keepalive i now)
  then show ?thesis using keepalive_ok [OF assms(1)] by simp
qed

definition sys_start :: "broker \<Rightarrow> system" where
  "sys_start b = \<lparr>br = b, high = [], low = [], pool = [], conns = [], responses = [], broadcasts = [], sends = [], written = []\<rparr>"

definition fresh_broker :: "broker \<Rightarrow> bool" where
  "fresh_broker b \<longleftrightarrow> config_ok b \<and> br_sessions b = [] \<and> session_at b = Map.empty \<and> topics_tree b = topic_tree_node_new"

inductive reachable :: "environment \<Rightarrow> broker \<Rightarrow> system \<Rightarrow> bool" for env b where
  start: "reachable env b (sys_start b)"
| step: "reachable env b sys \<Longrightarrow> allowed sys e \<Longrightarrow> sys_do env e sys = Inr sys' \<Longrightarrow> reachable env b sys'"

lemma start_inv:
  assumes "fresh_broker b"
  shows "sys_inv (sys_start b)"
proof -
  have "subs_at topic_tree_node_new f c = None" for f c by (simp add: subs_at_def subscribers_new)
  moreover have "retained_at topic_tree_node_new = Map.empty" by (simp add: retained_at_def fun_eq_iff node_retain_new)
  moreover have "topics_inv topic_tree_node_new" by (rule topics_inv_new)
  ultimately show ?thesis using assms
    by (auto simp: sys_inv_def sys_start_def fresh_broker_def broker_inv_def tree_inv_def held_once_def holders_def queues_ok_def
        tree_subs_def sess_subs_def session_of_def)
qed

lemma reachable_inv: "reachable env b sys \<Longrightarrow> fresh_broker b \<Longrightarrow> sys_inv sys"
proof (induction rule: reachable.induct)
  case start
  then show ?case by (rule start_inv)
next
  case (step sys e sys')
  then show ?case using sys_do_ok [of sys e env] by auto
qed

lemma distinct_count_le:
  assumes "\<And>a. count (mset xs) a \<le> 1"
  shows "distinct xs"
  unfolding distinct_count_atmost_1
proof
  fix a
  show "count (mset xs) a = (if a \<in> set xs then 1 else 0)"
  proof (cases "a \<in> set xs")
    case True
    then have "count (mset xs) a \<noteq> 0" by simp
    then have "count (mset xs) a = 1" using assms [of a] by linarith
    then show ?thesis using True by simp
  qed simp
qed

lemma in_sum_list_mset: "a \<in># (\<Sum>x\<leftarrow>xs. f x) \<longleftrightarrow> (\<exists>x\<in>set xs. a \<in># f x)"
  by (induction xs) auto

section \<open>Properties\<close>

text \<open>
  C1. No step faults, under three assumptions. The broker is freshly initialised with access control, cluster and MongoDB off, 1 to 256 I/O threads, and
  anonymous access, MySQL or a password file that could be read (\<open>fresh_broker\<close>). Clients are well behaved (\<open>allowed\<close>): packets of a session come while the connection is in it, CONNECT only
  on a connection that has no session, filters are non-empty with \<^verbatim>\<open>#\<close> only at the end, an UNSUBSCRIBE names each filter once and only filters of the
  session, topics of messages and wills have no wildcards and are not retained, a user name comes with a password, and the connection of a refused CONNECT
  is not closed before the answer. And a callback is one step, which other threads do not interrupt. Then, however new connections (of clients and of the console),
  packets, mails, tasks, timers and the ends of connections interleave, and whichever writes fail and close their connection in
  the middle of a callback, no callback uses a session that was freed, dereferences NULL, reads uninitialised memory or the
  wrong member of a union, or fails an assertion.
\<close>

theorem broker_never_faults:
  assumes "fresh_broker b" and "reachable env b sys" and "allowed sys e"
  shows "\<exists>sys'. sys_do env e sys = Inr sys'"
  using sys_do_ok [OF reachable_inv [OF assms(2,1)] assms(3)] by blast

text \<open>
  C2. A session belongs to one connection. In every state that a fresh broker without access control, cluster and MongoDB (\<open>fresh_broker\<close>) reaches with well-behaved
  clients (\<open>allowed\<close>), no two connections are in the same session, and the session of a connection is alive, open and the one the broker has under its
  client identifier.
\<close>

theorem session_held_by_one_connection:
  assumes "fresh_broker b" and "reachable env b sys"
  shows "distinct (concat (map conn_token (conns sys))) \<and>
    (\<forall>a\<in>set (concat (map conn_token (conns sys))). \<exists>s n. session_at (br sys) a = Some (s, n) \<and> s_state s = OPEN \<and>
       map_of (br_sessions (br sys)) (s_client_id s) = Some a)"
proof -
  have inv: "sys_inv sys" by (rule reachable_inv [OF assms(2,1)])
  note D = sys_invD [OF inv]
  have le: "count (mset (concat (map conn_token (conns sys)))) a \<le> count (holders sys) a" for a by (simp add: holders_def gather_def)
  have "count (mset (concat (map conn_token (conns sys)))) a \<le> 1" for a
  proof -
    have "count (holders sys) a \<le> 1" using spec [OF D(2) [unfolded held_once_def], of a] by (simp split: if_splits)
    then show ?thesis using le [of a] by (rule le_trans [rotated])
  qed
  then have "distinct (concat (map conn_token (conns sys)))" by (rule distinct_count_le)
  moreover have "\<exists>s n. session_at (br sys) a = Some (s, n) \<and> s_state s = OPEN \<and> map_of (br_sessions (br sys)) (s_client_id s) = Some a"
    if h: "a \<in> set (concat (map conn_token (conns sys)))" for a
  proof -
    have "a \<in># holders sys" using h by (simp add: holders_def gather_def)
    then obtain s n where s: "session_at (br sys) a = Some (s, n)" "s_state s = OPEN" using held_session [OF inv] by blast
    then show ?thesis using broker_invD(4) [OF D(1) s(1)] by blast
  qed
  ultimately show ?thesis by blast
qed

text \<open>
  C3. The topic tree agrees with the sessions, in a broker without access control, cluster and MongoDB (\<open>fresh_broker\<close>), with well-behaved clients (\<open>allowed\<close>) and
  callbacks as steps. In every reachable state in which the broker thread has no session and topic requests left, the tree has a client under exactly the
  filters of its session; and publishing a message that is not retained, on a topic without wildcards, does not fault and sends it to exactly the sessions that have
  a filter matching the topic level by level. (With access control on, a denied filter stays in the session and is not in the tree.)
\<close>

theorem idle_publish_reaches_subscribers:
  assumes "fresh_broker b" and "reachable env b sys" and "high sys = []"
    and "plain (tmq_topic_split (cstr (req_topic req)))" and "\<not> req_retain req"
  shows "tree_subs (br sys) c = sess_subs (br sys) c \<and>
    (\<exists>evs b'. handle_publish_req j (br sys) req = Inr (evs, b') \<and>
       set_mset (ev_refs evs) = {a. \<exists>c. map_of (br_sessions (br sys)) c = Some a \<and>
         (\<exists>f\<in>sess_subs (br sys) c. filter_matches f (tmq_topic_split (cstr (req_topic req))))})"
proof -
  note D = sys_invD [OF reachable_inv [OF assms(2,1)]]
  let ?b = "br sys" and ?t = "topics_tree (br sys)" and ?ls = "tmq_topic_split (cstr (req_topic req))"
  let ?ms = "client_matches (fst (tmq_topics_publish j ?t req))"
  have ts: "tree_subs ?b c = sess_subs ?b c" for c using D(3) [of c] assms(3) by simp
  have ti: "topics_inv ?t" "\<And>f c info. subs_at ?t f c = Some info \<Longrightarrow> map_of (br_sessions ?b) c = Some (sub_session info)"
    using broker_invD(2) [OF D(1)] by (auto simp: tree_inv_def)
  obtain evs b' where r: "topics_publish j ?b req = Inr (evs, b')" "ev_refs evs = (\<Sum>m\<leftarrow>?ms. match_refs m)"
    using topics_publish_ok [OF D(1) assms(4,5)] by blast
  obtain fs where fs: "set fs = {f. filter_matches f ?ls \<and> subs_at ?t f \<noteq> Map.empty}" "map map_of ?ms = map (subs_at ?t) fs"
    using publish_matches [OF ti(1) assms(4) refl] by blast
  have ok: "al_ok m" if m: "m \<in> set ?ms" for m
  proof -
    obtain p where "subscribers (node_at ?t p) = Some m" using client_match_node [OF ti(1) assms(4) m] by blast
    then show ?thesis using ti(1) by (auto simp: topics_inv_def subs_ok_def)
  qed
  have "a \<in># ev_refs evs \<longleftrightarrow> (\<exists>m\<in>set ?ms. \<exists>c info. map_of m c = Some info \<and> sub_session info = a)" for a
  proof -
    have "a \<in># match_refs m \<longleftrightarrow> (\<exists>c info. map_of m c = Some info \<and> sub_session info = a)" if m: "m \<in> set ?ms" for m
    proof -
      have "(c, info) \<in> set m \<longleftrightarrow> map_of m c = Some info" for c info using ok [OF m] by (simp add: al_ok_def)
      then show ?thesis unfolding match_refs_def by (auto simp: image_iff) (metis snd_conv)+
    qed
    then show ?thesis unfolding r(2) in_sum_list_mset by blast
  qed
  also have "\<dots> a \<longleftrightarrow> (\<exists>f. filter_matches f ?ls \<and> (\<exists>c info. subs_at ?t f c = Some info \<and> sub_session info = a))" for a
  proof -
    have "map_of ` set ?ms = subs_at ?t ` set fs" using arg_cong [OF fs(2), of set] by simp
    then have "(\<exists>m\<in>set ?ms. \<exists>c info. map_of m c = Some info \<and> sub_session info = a) \<longleftrightarrow>
        (\<exists>f\<in>set fs. \<exists>c info. subs_at ?t f c = Some info \<and> sub_session info = a)"       using bex_simps(7) [of map_of "set ?ms" "\<lambda>g. \<exists>c info. g c = Some info \<and> sub_session info = a"]
        bex_simps(7) [of "subs_at ?t" "set fs" "\<lambda>g. \<exists>c info. g c = Some info \<and> sub_session info = a"] by simp
    also have "\<dots> \<longleftrightarrow> (\<exists>f. filter_matches f ?ls \<and> (\<exists>c info. subs_at ?t f c = Some info \<and> sub_session info = a))"
      unfolding fs(1) by (auto simp: fun_eq_iff)
    finally show ?thesis .
  qed
  also have "\<dots> a \<longleftrightarrow> (\<exists>c. map_of (br_sessions ?b) c = Some a \<and> (\<exists>f\<in>tree_subs ?b c. filter_matches f ?ls))" for a
  proof
    assume "\<exists>f. filter_matches f ?ls \<and> (\<exists>c info. subs_at ?t f c = Some info \<and> sub_session info = a)"
    then obtain f c info where "filter_matches f ?ls" "subs_at ?t f c = Some info" "sub_session info = a" by blast
    then show "\<exists>c. map_of (br_sessions ?b) c = Some a \<and> (\<exists>f\<in>tree_subs ?b c. filter_matches f ?ls)"
      using ti(2) [of f c info] by (auto simp: tree_subs_def)
  next
    assume "\<exists>c. map_of (br_sessions ?b) c = Some a \<and> (\<exists>f\<in>tree_subs ?b c. filter_matches f ?ls)"
    then obtain c f info where "map_of (br_sessions ?b) c = Some a" "filter_matches f ?ls" "subs_at ?t f c = Some info"
      by (auto simp: tree_subs_def)
    then show "\<exists>f. filter_matches f ?ls \<and> (\<exists>c info. subs_at ?t f c = Some info \<and> sub_session info = a)"
      using ti(2) [of f c info] by auto
  qed
  finally have "set_mset (ev_refs evs) = {a. \<exists>c. map_of (br_sessions ?b) c = Some a \<and> (\<exists>f\<in>sess_subs ?b c. filter_matches f ?ls)}"
    unfolding ts by blast
  then show ?thesis using ts [of c] r(1) unfolding handle_publish_req_def by blast
qed

section \<open>An example run\<close>

fun run_events :: "environment \<Rightarrow> sys_event list \<Rightarrow> system \<Rightarrow> system res" where
  "run_events env [] sys = Inr sys"
| "run_events env (e # es) sys = (if allowed sys e then bind (sys_do env e sys) (run_events env es) else Inl Assert_Failed)"

lemma run_reachable: "reachable env b sys \<Longrightarrow> run_events env es sys = Inr sys' \<Longrightarrow> reachable env b sys'"
  by (induction es arbitrary: sys) (auto simp: bind_eq_Inr intro: reachable.step split: if_splits)

definition example_broker :: broker where
  "example_broker = (zero_broker example_conns)\<lparr>io_threads := 1, allow_anonymous := True, br_inflight_window := 1\<rparr>"

definition example_world :: environment where
  "example_world = \<lparr>env_json = (\<lambda>_. False), env_encode = (\<lambda>s. s), env_valid = (\<lambda>_ _. True), env_add_user = (\<lambda>_ _. True),
     env_bad = (\<lambda>_ _. False)\<rparr>"

definition example_connect :: "tmq_str \<Rightarrow> any_packet" where
  "example_connect cid = CONNECT \<lparr>conn_flags = 2, keep_alive = 60, client_id = Some cid, will_topic = None, will_message = None,
     username = None, password = None\<rparr>"

definition example_publish :: "u8 \<Rightarrow> any_packet" where
  "example_publish fl = PUBLISH \<lparr>pub_flags = fl, topic = ''a/b'', packet_id = 0, payload = ''on''\<rparr>"

definition example_subscribe :: any_packet where
  "example_subscribe = SUBSCRIBE \<lparr>sub_packet_id = 1, sub_topics = [\<lparr>topic_filter = ''a/b'', tf_qos = 1\<rparr>]\<rparr>"

definition example_login :: "sys_event list" where
  "example_login = [Accept False 7 ''c1'' 0, Packet 0 0 (example_connect ''k''), Run_High 5 0, Response 0]"

definition example_state :: "sys_event list \<Rightarrow> system" where
  "example_state es = (case run_events example_world es (sys_start example_broker) of Inr sys \<Rightarrow> sys | Inl _ \<Rightarrow> sys_start example_broker)"

definition example_events :: "sys_event list" where
  "example_events = example_login @ [Packet 1 0 example_subscribe, Run_High 5 1]"

lemma example_fresh: "fresh_broker example_broker"
  by (simp add: fresh_broker_def example_broker_def zero_broker_def config_ok_def example_conns_def)

lemma example_reachable: "reachable example_world example_broker (example_state es)"
  using run_reachable [OF reachable.start, of example_world es example_broker]
  by (auto simp: example_state_def reachable.start split: sum.splits)

lemma example_stateI:
  assumes "case run_events example_world es (sys_start example_broker) of Inl _ \<Rightarrow> False | Inr sys \<Rightarrow> P sys"
  shows "P (example_state es)"
  using assms by (auto simp: example_state_def split: sum.splits)

definition logged_in :: "system \<Rightarrow> bool" where
  "logged_in sys \<longleftrightarrow> allowed sys (Packet 2 0 (example_publish 2)) \<and> concat (map conn_token (conns sys)) = [1] \<and> high sys = [] \<and>
     map_of (br_sessions (br sys)) ''k'' = Some 1 \<and> [''a'', ''b''] \<in> sess_subs (br sys) ''k''"

lemma example_facts: "logged_in (example_state example_events)"
  by (rule example_stateI) code_simp

lemmas example_factsD = example_facts [unfolded logged_in_def]

theorem broker_never_faults_witness:
  "\<exists>sys'. sys_do example_world (Packet 2 0 (example_publish 2)) (example_state example_events) = Inr sys'"
  by (rule broker_never_faults [OF example_fresh example_reachable conjunct1 [OF example_factsD]])

theorem session_held_by_one_connection_witness:
  "\<exists>s n. session_at (br (example_state example_events)) 1 = Some (s, n) \<and> s_state s = OPEN \<and>
     map_of (br_sessions (br (example_state example_events))) (s_client_id s) = Some 1"
  using session_held_by_one_connection [OF example_fresh example_reachable [of example_events]] example_factsD by simp

definition example_pub_req :: publish_req where
  "example_pub_req = \<lparr>req_topic = ''a/b'', req_message = \<lparr>message = ''on'', msg_qos = 1\<rparr>, req_retain = False, is_tunneled_pub = False,
     publisher_username = [], publisher_client_id = ''k''\<rparr>"

lemma example_pub_req_ok: "plain (tmq_topic_split (cstr (req_topic example_pub_req)))" "\<not> req_retain example_pub_req"
    "filter_matches [''a'', ''b''] (tmq_topic_split (cstr (req_topic example_pub_req)))"
  by code_simp+

theorem idle_publish_reaches_subscribers_witness:
  "\<exists>evs b'. handle_publish_req (\<lambda>_. False) (br (example_state example_events)) example_pub_req = Inr (evs, b') \<and> 1 \<in># ev_refs evs"
proof -
  have "1 \<in> {a. \<exists>c. map_of (br_sessions (br (example_state example_events))) c = Some a \<and>
      (\<exists>f\<in>sess_subs (br (example_state example_events)) c. filter_matches f (tmq_topic_split (cstr (req_topic example_pub_req))))}"
    using example_factsD example_pub_req_ok(3) by blast
  moreover have "high (example_state example_events) = []" using example_factsD by blast
  note idle_publish_reaches_subscribers [OF example_fresh example_reachable this example_pub_req_ok(1,2), of undefined "\<lambda>_. False"]
  ultimately show ?thesis by (elim conjE exE) (intro exI conjI, assumption, simp only:)
qed

section \<open>What the other runs do\<close>

definition faulted :: "c_fault \<Rightarrow> 'a res \<Rightarrow> bool" where
  "faulted e r \<longleftrightarrow> (case r of Inl e' \<Rightarrow> e' = e | Inr _ \<Rightarrow> False)"

lemma faultedD: "faulted e r \<Longrightarrow> r = Inl e"
  by (simp add: faulted_def split: sum.splits)

text \<open>A CONNECT that is refused and whose connection is closed before the answer arrives: the broker closes session NULL.\<close>

definition example_refused :: "sys_event list" where
  "example_refused = example_login @ [Accept False 8 ''c2'' 0, Packet 1 1 (example_connect ''k''), Run_High 5 1, Close 1]"

theorem refused_connection_closed_faults:
  "reachable example_world example_broker (example_state example_refused) \<and>
   bind (sys_do example_world (Response 0) (example_state example_refused)) (sys_do example_world (Run_High 5 2)) = Inl Null_Deref"
proof
  show "bind (sys_do example_world (Response 0) (example_state example_refused)) (sys_do example_world (Run_High 5 2)) = Inl Null_Deref"
    by (rule faultedD, rule example_stateI [where P = "\<lambda>s. faulted Null_Deref
        (bind (sys_do example_world (Response 0) s) (sys_do example_world (Run_High 5 2)))"]) code_simp
qed (rule example_reachable)

text \<open>A packet sent before the CONNACK: the decoder takes the broker for a session.\<close>

theorem early_packet_confuses_upstream:
  "sys_do example_world (Packet 0 0 PINGREQ) (example_state (take 2 example_login)) = Inl Type_Confusion"
  by (rule faultedD, rule example_stateI [where P = "\<lambda>s. faulted Type_Confusion (sys_do example_world (Packet 0 0 PINGREQ) s)"]) code_simp

text \<open>Subscribing to a topic with a retained message: the task for the message has an uninitialised list.\<close>

theorem retained_subscription_faults:
  "bind (sys_do example_world (Packet 1 0 (example_publish 1)) (example_state example_login)) (\<lambda>s1.
   bind (sys_do example_world (Run_Low 5 1) s1) (\<lambda>s2.
   bind (sys_do example_world (Packet 2 0 example_subscribe) s2) (sys_do example_world (Run_High 5 2)))) = Inl Uninit_Read"
  by (rule faultedD, rule example_stateI [where P = "\<lambda>s. faulted Uninit_Read
      (bind (sys_do example_world (Packet 1 0 (example_publish 1)) s) (\<lambda>s1.
       bind (sys_do example_world (Run_Low 5 1) s1) (\<lambda>s2.
       bind (sys_do example_world (Packet 2 0 example_subscribe) s2) (sys_do example_world (Run_High 5 2)))))"]) code_simp

text \<open>A user name of the password file without a password: \<^verbatim>\<open>password_encode\<close> is called with NULL.\<close>

theorem missing_password_faults:
  assumes "\<not> allow_anonymous b" and "\<not> mysql_enabled b" and "pwd_conf b = Inr cfg" and "username p = Some u"
    and "tmq_config_exist cfg u" and "password p = None"
  shows "mqtt_connect encode b c p = Inl Null_Deref"
  using assms by (simp add: mqtt_connect_def check_password_def)

text \<open>
  A write that fails in the middle of a handler: the PUBACK of a message cannot be written, the connection is closed and the broker thread frees the session
  before the handler of the I/O thread goes on with it.
\<close>

theorem failed_write_frees_session:
  "bind (sys_do example_world (Run_High 5 1) (conn_write (\<lambda>_ _. True) 0 (PUBACK 0) (example_state example_login)))
     (session_packet (\<lambda>_ _. True) 1 0 (example_publish 2) (In_Publish \<lparr>pub_flags = 2, topic = ''a/b'', packet_id = 0, payload = ''on''\<rparr>)) = Inl Use_After_Free"
  by (rule faultedD, rule example_stateI [where P = "\<lambda>s. faulted Use_After_Free
      (bind (sys_do example_world (Run_High 5 1) (conn_write (\<lambda>_ _. True) 0 (PUBACK 0) s))
        (session_packet (\<lambda>_ _. True) 1 0 (example_publish 2) (In_Publish \<lparr>pub_flags = 2, topic = ''a/b'', packet_id = 0, payload = ''on''\<rparr>)))"]) code_simp

end
