(* ===== verification/Spec2Isabelle.thy ===== *)
theory Spec2Isabelle
  imports Rule_Engine Len_Codec Client Vec Hash_Map Buffer Codec_Roundtrip Topic_Tree Session Acl Executor Timer_Heap Cmd Broker_Init System
begin

text \<open>
  \<^bold>\<open>Verification of tinyMQTT\<close>, an MQTT 3.1.1 broker written in C.

  \<^bold>\<open>The program.\<close> An acceptor thread takes connections and hands them to I/O threads
  (\<^verbatim>\<open>mqtt/mqtt_io_context.c\<close>). An I/O thread reads bytes into the buffer of a connection
  (\<^verbatim>\<open>net/mqtt_buffer.c\<close>), the codec (\<^verbatim>\<open>codec/mqtt_proto_codec.c\<close>) cuts them into control packets and calls the
  session of the connection (\<^verbatim>\<open>mqtt/mqtt_session.c\<close>), or the broker when there is none yet. CONNECT,
  SUBSCRIBE, UNSUBSCRIBE, PUBLISH and the end of a session become tasks that the broker thread executes one
  after another (\<^verbatim>\<open>mqtt/mqtt_executor.c\<close>, \<^verbatim>\<open>mqtt/mqtt_broker.c\<close>); passwords are checked by a thread pool. The broker thread
  owns the table of sessions and the topic tree (\<^verbatim>\<open>mqtt/mqtt_topic.c\<close>) and sends its results (responses to CONNECT,
  acknowledgements, messages to deliver) as mails back to the I/O threads. A session stores the messages it has
  sent until they are acknowledged (\<^verbatim>\<open>store/mqtt_msg_store.c\<close>). Below are the containers of \<^verbatim>\<open>base/\<close> and
  the timers of \<^verbatim>\<open>ev/mqtt_timer.c\<close>.

  \<^bold>\<open>How it is modelled.\<close> A C function is a HOL function of the state it reads to its result and the
  state it leaves. A \<open>res\<close> is \<open>Inl\<close> of a memory error (NULL dereference, access out of bounds, use of freed
  memory, reading the wrong member of a union, failed assertion) or \<open>Inr\<close> of the result, so that memory safety is a
  theorem that the result is \<open>Inr\<close>. Integers keep their width where it matters (\<open>u8\<close> to \<open>u64\<close>); memory that is
  allocated and not written is \<open>None\<close>. Structures that the code links through pointers and changes in place
  are heaps with addresses (the message store, the sessions of the broker), others are values. What a function
  sends, writes or posts is a list of events in their order. What is outside the sources is a parameter: the hash
  seed, the clock, random numbers, what \<^verbatim>\<open>readv\<close> delivers, database rows, whether a payload is valid JSON.

  \<^bold>\<open>Containers and libraries.\<close>
  \<^item> \<open>Prelude\<close>: integers, bytes, \<open>res\<close> and its \<open>bind\<close>, association lists and the lemmas on them that all
    components use.
  \<^item> \<open>Vec\<close> (\<^verbatim>\<open>base/mqtt_vec.c\<close>): every sequence of operations represents the list the same operations give.
  \<^item> \<open>Dict\<close>: the locale \<open>dict\<close>, the laws of lookup, update, removal and iteration that clients of a table rely on.
    \<open>Hash_Map\<close> (\<^verbatim>\<open>base/mqtt_map.c\<close>, with the Murmur hash): the chained hash table with its growth, which interprets
    the locale for every hash function; so do the association lists that stand for tables in the other theories.
  \<^item> \<open>Str\<close>, \<open>Config\<close>, \<open>Cmd\<close> (\<^verbatim>\<open>base/mqtt_str.c\<close>, \<^verbatim>\<open>mqtt_config.c\<close>, \<^verbatim>\<open>mqtt_cmd.c\<close>): strings inside their allocation,
    splitting, numbers there and back; what is added to a configuration file is read back; options.
  \<^item> \<open>Buffer\<close> (\<^verbatim>\<open>net/mqtt_buffer.c\<close>): the chunk list is a byte queue.
  \<^item> \<open>Timer_Heap\<close> (\<^verbatim>\<open>ev/mqtt_timer.c\<close>): heap order and registry as an invariant; a timeout runs exactly the expired
    timers in the order of their expiry. The bound of 15 timers is the capacity up to which the array is not reallocated.
  \<^item> \<open>Executor\<close> (\<^verbatim>\<open>mqtt/mqtt_executor.c\<close>): an \<open>inductive\<close> step relation of posting and executing threads; every
    interleaving is first in, first out within a priority, respects priorities, and executes everything.

  \<^bold>\<open>Protocol.\<close>
  \<^item> \<open>Packet\<close>, \<open>Encode\<close>, \<open>Decode\<close>, \<open>Codec_Roundtrip\<close> (\<^verbatim>\<open>mqtt/mqtt_packet.h\<close>, \<^verbatim>\<open>codec/mqtt_proto_codec.c\<close>): all senders, all
    parsers and the state machine of the decoder. Senders write the MQTT encoding; the decoder delivers the same
    packets for every division of the stream into fragments.
  \<^item> \<open>Topic_Tree\<close> (\<^verbatim>\<open>mqtt/mqtt_topic.c\<close>): against a specification of topic matching level by level (which, like the code, has no
    exception for topics that start with \<open>$\<close>). A message reaches exactly the subscribers of matching filters; a new subscription gets exactly the matching retained messages.
  \<^item> \<open>Msg_Store\<close>, \<open>Mongo_Store\<close> (\<^verbatim>\<open>store/mqtt_msg_store.c\<close>): the linked list refines a sliding window; messages are
    sent once and in order, at most a window of them unacknowledged.
  \<^item> \<open>Session\<close> (\<^verbatim>\<open>mqtt/mqtt_session.c\<close>): QoS 2 messages are delivered exactly once; a resumed session resends what is
    in flight. \<open>resend_loop\<close> takes a bound on its rounds; the theorem shows that the length of the queue is enough.
  \<^item> \<open>Acl\<close> (\<^verbatim>\<open>mqtt/mqtt_acl.c\<close>, and loading the rows of the rule table in \<^verbatim>\<open>db/mqtt_db.c\<close>, which are a parameter): nothing is granted that is
    not configured.

  \<^item> \<open>Len_Codec\<close> (\<^verbatim>\<open>codec/mqtt_codec.c\<close>, \<^verbatim>\<open>mqtt_console_codec.c\<close>, \<^verbatim>\<open>mqtt_cluster_codec.c\<close>): the length-prefixed messages of the
    console and between brokers. The locale \<open>framed\<close> is what the decoder needs of the parsers of a table, and both tables
    interpret it: messages arrive as they were sent for every division into fragments. Blocking reads and writes of
    the tool are lists of their results.
  \<^item> \<open>Client\<close> (\<^verbatim>\<open>mqtt/mqtt_client.c\<close>): callbacks and calls of the client library, synchronous and queued; the broker's
    decoder gets the options of the application.

  \<^bold>\<open>Rule engine\<close> (\<^verbatim>\<open>rule_engine/\<close>).
  \<^item> \<open>Rule_Expr\<close> (\<^verbatim>\<open>mqtt_event_source.c\<close>, \<^verbatim>\<open>mqtt_events.c\<close>): events and their fields, and filter expressions, whose values
    are tagged unions; reading a member that the tag does not name is an error. Payloads are given by their JSON items. What an expression means
    (\<open>denotes\<close>) is defined without offsets and unions, and evaluation agrees with it.
  \<^item> \<open>Rule_Parser\<close> (\<^verbatim>\<open>mqtt_rule_parser.c\<close>): the parser of rules with its stacks of operators and operands, which agrees with a
    grammar of filters: the text of an expression is parsed to that expression.
  \<^item> \<open>Rule_Engine\<close> (\<^verbatim>\<open>mqtt_rule_engine.c\<close>): adding rules and publishing events to them; accepted rules with well-typed filters
    never read the wrong member, and call their adaptors exactly when their filter holds.

  \<^bold>\<open>The broker process.\<close>
  \<^item> \<open>Broker\<close>, \<open>Broker_Init\<close> (\<^verbatim>\<open>mqtt/mqtt_broker.c\<close>) and \<open>Io_Context\<close> (\<^verbatim>\<open>mqtt/mqtt_io_context.c\<close>, \<^verbatim>\<open>net/mqtt_tcp_conn.c\<close>): all
    tasks, mail handlers and callbacks, reference counts of sessions included. A write to a connection may fail, which closes the connection inside the
    handler that writes.
  \<^item> \<open>Broker_Inv\<close>: the invariant of the broker's tables and what the tasks do to it.
  \<^item> \<open>System\<close>: the threads and their queues as an \<open>inductive\<close> relation whose steps are callbacks, interleaved in
    any order. No step faults, no two connections share a session, and the topic tree agrees with the sessions
    whenever the broker thread is idle. Three assumptions are in these theorems: the broker has access control, cluster and MongoDB off and at
    most 256 I/O threads (\<open>config_ok\<close>), clients are well-behaved in the ways \<open>allowed\<close> lists, and a callback is one step. The theorems on what happens
    otherwise (\<open>refused_connection_closed_faults\<close>, \<open>early_packet_confuses_upstream\<close>, \<open>retained_subscription_faults\<close>,
    \<open>missing_password_faults\<close>, and \<open>failed_write_frees_session\<close> for a callback that the broker thread interrupts) show why they are needed.

  \<^bold>\<open>Not modelled.\<close> System calls and what wraps them: sockets, acceptor, connector, the epoll loop, starting and stopping threads,
  the redis and MySQL clients with their connection pool. The cluster's table of members and its discovery: what a member is told
  (\<open>Len_Codec\<close>) and routes in the topic tree are modelled, connecting to members is a sequence of socket calls. Allocation failure and
  logging. The copies of third-party libraries in \<^verbatim>\<open>3rd/\<close> and \<^verbatim>\<open>thrdpool/\<close>. The adaptor plugins, which pass values on to
  their services. The command-line tools, examples and tests, which only call the library.
\<close>

end
